(* ===== verification/Prelude.thy ===== *)
theory Prelude
  imports Main "HOL-Library.Word" "HOL-Library.Monad_Syntax"
begin

text \<open>
  Shared vocabulary of the development: the named collections the component proofs use,
  the C++ standard-library functions on strings that the sources call
  (\<open>std::string::find\<close>, \<open>rfind\<close>, \<open>std::getline\<close>, \<open>operator>>\<close>, \<open>std::stoi\<close>,
  \<open>std::to_string\<close>, \<open>isspace\<close>, \<open>isalnum\<close>), and the generic lemmas about them.
  A \<open>std::string\<close> is a \<open>string\<close>, i.e. a list of 8-bit characters.
\<close>

unbundle bit_operations_syntax

named_theorems frame_simps \<open>what an operation leaves unchanged\<close>
named_theorems step_simps \<open>the branches of an operation as rewrite rules\<close>
named_theorems wf_intros \<open>operations keep the invariants\<close>

type_synonym bytes = string

subsection \<open>Characters\<close>

abbreviation nl :: char where "nl \<equiv> CHR 0x0A"
abbreviation cr :: char where "cr \<equiv> CHR 0x0D"
abbreviation colon :: char where "colon \<equiv> CHR '':''"
abbreviation slash :: char where "slash \<equiv> CHR ''/''"

lemma of_char_less [simp]: "(of_char c :: nat) < 256"
  by (metis of_char_mod_256 mod_less_divisor zero_less_numeral)

text \<open>\<open>isspace\<close>, \<open>isdigit\<close> and \<open>isalnum\<close> in the C locale, which the program never leaves.\<close>

definition isspace :: "char \<Rightarrow> bool" where
  "isspace c \<longleftrightarrow> c = CHR '' '' \<or> (9 \<le> (of_char c :: nat) \<and> (of_char c :: nat) \<le> 13)"

definition isdigit :: "char \<Rightarrow> bool" where
  "isdigit c \<longleftrightarrow> 48 \<le> (of_char c :: nat) \<and> (of_char c :: nat) \<le> 57"

definition isalnum :: "char \<Rightarrow> bool" where
  "isalnum c \<longleftrightarrow> isdigit c \<or> (65 \<le> (of_char c :: nat) \<and> (of_char c :: nat) \<le> 90)
     \<or> (97 \<le> (of_char c :: nat) \<and> (of_char c :: nat) \<le> 122)"

subsection \<open>Searching: \<open>find\<close> and \<open>rfind\<close>\<close>

text \<open>The index of the first occurrence of a character; \<open>None\<close> is \<open>npos\<close>.\<close>

fun str_find :: "char \<Rightarrow> string \<Rightarrow> nat option" where
  "str_find c [] = None"
| "str_find c (x # xs) = (if x = c then Some 0 else map_option Suc (str_find c xs))"

definition str_rfind :: "char \<Rightarrow> string \<Rightarrow> nat option" where
  "str_rfind c s = map_option (\<lambda>k. length s - 1 - k) (str_find c (rev s))"

lemma str_find_None_iff: "str_find c s = None \<longleftrightarrow> c \<notin> set s"
  by (induction s) auto

lemma str_find_append [simp]: "c \<notin> set a \<Longrightarrow> str_find c (a @ c # b) = Some (length a)"
  by (induction a) auto

lemma str_find_SomeD:
  "str_find c s = Some k \<Longrightarrow> k < length s \<and> s ! k = c \<and> c \<notin> set (take k s)"
  by (induction s arbitrary: k) (auto split: if_splits)

lemma str_find_Some_split:
  assumes "str_find c s = Some k"
  shows "s = take k s @ c # drop (Suc k) s"
proof -
  from str_find_SomeD [OF assms] have "k < length s" "s ! k = c" by auto
  then show ?thesis using id_take_nth_drop [of k s] by simp
qed

subsection \<open>Lines: \<open>std::getline\<close> over a whole stream\<close>

text \<open>
  \<open>getlines s\<close> are the lines a loop \<open>while (std::getline(is, line))\<close> reads from the text
  \<open>s\<close>: every newline ends a line, and a last line without one counts when it is not empty.
\<close>

fun getlines_from :: "string \<Rightarrow> string \<Rightarrow> string list" where
  "getlines_from acc [] = (if acc = [] then [] else [acc])"
| "getlines_from acc (c # cs) =
     (if c = nl then acc # getlines_from [] cs else getlines_from (acc @ [c]) cs)"

definition getlines :: "string \<Rightarrow> string list" where
  "getlines s = getlines_from [] s"

lemma getlines_from_line:
  "nl \<notin> set l \<Longrightarrow> getlines_from acc (l @ nl # cs) = (acc @ l) # getlines_from [] cs"
  by (induction l arbitrary: acc) auto

lemma getlines_Nil [simp]: "getlines [] = []"
  by (simp add: getlines_def)

lemma getlines_line [simp]: "nl \<notin> set l \<Longrightarrow> getlines (l @ nl # cs) = l # getlines cs"
  by (simp add: getlines_def getlines_from_line)

definition unlines :: "string list \<Rightarrow> string" where
  "unlines ls = concat (map (\<lambda>l. l @ [nl]) ls)"

lemma unlines_simps [simp]:
  "unlines [] = []" "unlines (l # ls) = l @ nl # unlines ls"
  by (simp_all add: unlines_def)

lemma unlines_append [simp]: "unlines (a @ b) = unlines a @ unlines b"
  by (simp add: unlines_def)

lemma getlines_unlines [simp]:
  "(\<And>l. l \<in> set ls \<Longrightarrow> nl \<notin> set l) \<Longrightarrow> getlines (unlines ls) = ls"
  by (induction ls) auto

lemma getlines_from_no_nl:
  "nl \<notin> set acc \<Longrightarrow> l \<in> set (getlines_from acc s) \<Longrightarrow> nl \<notin> set l"
  by (induction acc s rule: getlines_from.induct) (auto split: if_splits)

lemma getlines_no_nl: "l \<in> set (getlines s) \<Longrightarrow> nl \<notin> set l"
  by (auto simp: getlines_def dest: getlines_from_no_nl [rotated])

subsection \<open>Words: \<open>operator>>\<close> into a string\<close>

text \<open>The word read and what is left in the stream.\<close>

definition extract_word :: "string \<Rightarrow> string \<times> string" where
  "extract_word s =
     (let s1 = dropWhile isspace s
      in (takeWhile (\<lambda>c. \<not> isspace c) s1, dropWhile (\<lambda>c. \<not> isspace c) s1))"

lemma extract_word_plain:
  assumes "w \<noteq> []" "\<And>c. c \<in> set w \<Longrightarrow> \<not> isspace c" "rest = [] \<or> isspace (hd rest)"
  shows "extract_word (w @ rest) = (w, rest)"
proof -
  have d: "dropWhile isspace (w @ rest) = w @ rest"
    using assms(1,2) by (cases w) auto
  have t: "takeWhile (\<lambda>c. \<not> isspace c) (w @ rest) = w"
    using assms(2,3) by (cases rest) (auto simp: takeWhile_append)
  have r: "dropWhile (\<lambda>c. \<not> isspace c) (w @ rest) = rest"
    using assms(2,3) by (cases rest) (auto simp: dropWhile_append)
  show ?thesis by (simp add: extract_word_def d t r)
qed

subsection \<open>Numbers: \<open>std::stoi\<close> and \<open>std::to_string\<close>\<close>

datatype stoi_exn = Invalid_argument | Out_of_range

definition digit_val :: "char \<Rightarrow> int" where
  "digit_val c = int (of_char c) - 48"

definition digits_val :: "string \<Rightarrow> int" where
  "digits_val ds = foldl (\<lambda>a d. 10 * a + digit_val d) 0 ds"

text \<open>
  \<open>std::stoi\<close> with base 10: \<open>strtol\<close> skips white space, takes an optional sign and then
  the longest run of digits, ignoring what follows; no digits is \<open>invalid_argument\<close>, a
  value outside a 32-bit \<open>int\<close> is \<open>out_of_range\<close>.
\<close>

definition stoi :: "string \<Rightarrow> stoi_exn + int" where
  "stoi s =
     (let s1 = dropWhile isspace s;
          neg = (s1 \<noteq> [] \<and> hd s1 = CHR ''-'');
          s2 = (if s1 \<noteq> [] \<and> (hd s1 = CHR ''-'' \<or> hd s1 = CHR ''+'') then tl s1 else s1);
          ds = takeWhile isdigit s2;
          v = (if neg then - digits_val ds else digits_val ds)
      in if ds = [] then Inl Invalid_argument
         else if v < - (2 ^ 31) \<or> 2 ^ 31 \<le> v then Inl Out_of_range
         else Inr v)"

fun nat_digits :: "nat \<Rightarrow> string" where
  "nat_digits n =
     (if n < 10 then [char_of (48 + n)] else nat_digits (n div 10) @ [char_of (48 + n mod 10)])"

declare nat_digits.simps [simp del]

definition to_string :: "int \<Rightarrow> string" where
  "to_string i = (if i < 0 then CHR ''-'' # nat_digits (nat (- i)) else nat_digits (nat i))"

lemma of_char_digit [simp]: "n < 10 \<Longrightarrow> (of_char (char_of (48 + n :: nat)) :: nat) = 48 + n"
  by simp

lemma nat_digits_isdigit: "c \<in> set (nat_digits n) \<Longrightarrow> isdigit c"
proof (induction n rule: nat_digits.induct)
  case (1 n)
  then show ?case
    by (cases "n < 10") (auto simp: nat_digits.simps [of n] isdigit_def)
qed

lemma nat_digits_nonempty [simp]: "nat_digits n \<noteq> []"
  by (simp add: nat_digits.simps [of n])

lemma digits_val_snoc: "digits_val (ds @ [d]) = 10 * digits_val ds + digit_val d"
  by (simp add: digits_val_def)

lemma digits_val_nat_digits [simp]: "digits_val (nat_digits n) = int n"
proof (induction n rule: nat_digits.induct)
  case (1 n)
  show ?case
  proof (cases "n < 10")
    case True
    then show ?thesis
      by (simp add: nat_digits.simps [of n] digits_val_def digit_val_def)
  next
    case False
    then have "digits_val (nat_digits n) = 10 * int (n div 10) + int (n mod 10)"
      using 1 by (simp add: nat_digits.simps [of n] digits_val_snoc digit_val_def)
    also have "\<dots> = int n" by presburger
    finally show ?thesis .
  qed
qed

lemma isdigit_not_space: "isdigit c \<Longrightarrow> \<not> isspace c"
  by (auto simp: isdigit_def isspace_def)

lemma isdigit_not_sign: "isdigit c \<Longrightarrow> c \<noteq> CHR ''-'' \<and> c \<noteq> CHR ''+''"
  by (auto simp: isdigit_def)

lemma takeWhile_nat_digits [simp]: "takeWhile isdigit (nat_digits n) = nat_digits n"
  by (simp add: takeWhile_eq_all_conv nat_digits_isdigit)

lemma hd_nat_digits: "isdigit (hd (nat_digits n))"
  by (rule nat_digits_isdigit [of _ n]) simp

lemma dropWhile_nat_digits [simp]: "dropWhile isspace (nat_digits n) = nat_digits n"
  by (metis hd_nat_digits isdigit_not_space nat_digits_nonempty hd_Cons_tl dropWhile.simps(2))

lemma stoi_to_string:
  assumes "- (2 ^ 31) \<le> i" "i < 2 ^ 31"
  shows "stoi (to_string i) = Inr i"
proof (cases "i < 0")
  case True
  have "\<not> isspace (CHR ''-'')" by (simp add: isspace_def)
  with True assms show ?thesis
    by (simp add: stoi_def to_string_def Let_def)
next
  case False
  with assms isdigit_not_sign [OF hd_nat_digits, of "nat i"] show ?thesis
    by (simp add: stoi_def to_string_def Let_def)
qed

lemma to_string_nonempty [simp]: "to_string i \<noteq> []"
  by (simp add: to_string_def)

lemma set_to_string: "c \<in> set (to_string i) \<Longrightarrow> c \<noteq> nl \<and> c \<noteq> cr \<and> c \<noteq> colon"
  using nat_digits_isdigit [of c] by (auto simp: to_string_def isdigit_def split: if_splits)

subsection \<open>Lists and options\<close>

lemma bind_Some_iff:
  "Option.bind m f = Some y \<longleftrightarrow> (\<exists>x. m = Some x \<and> f x = Some y)"
  by (cases m) auto

text \<open>
  Total correctness of a computation that may have no result: \<open>wp m Q\<close> says that \<open>m\<close> has one and
  that it satisfies \<open>Q\<close>. The rules take a computation apart along its binds.
\<close>

definition wp :: "'a option \<Rightarrow> ('a \<Rightarrow> bool) \<Rightarrow> bool" where
  "wp m Q \<longleftrightarrow> (\<exists>x. m = Some x \<and> Q x)"

lemma wp_simps [simp]:
  "wp (Some x) Q = Q x" "\<not> wp None Q" "wp (Option.bind m f) Q = wp m (\<lambda>x. wp (f x) Q)"
  by (auto simp: wp_def bind_Some_iff)

lemma wp_mono: "wp m P \<Longrightarrow> (\<And>x. P x \<Longrightarrow> Q x) \<Longrightarrow> wp m Q"
  by (auto simp: wp_def)

lemma wp_if [intro]: "(b \<Longrightarrow> wp m Q) \<Longrightarrow> (\<not> b \<Longrightarrow> wp n Q) \<Longrightarrow> wp (if b then m else n) Q"
  by simp

lemma wp_Some: "wp m Q \<Longrightarrow> \<exists>x. m = Some x \<and> Q x"
  by (simp add: wp_def)

lemma wp_res: "wp m Q \<Longrightarrow> m = Some x \<Longrightarrow> Q x"
  by (simp add: wp_def)

text \<open>The partial counterpart: if the computation has a result, it satisfies the condition.\<close>

definition wlp :: "'a option \<Rightarrow> ('a \<Rightarrow> bool) \<Rightarrow> bool" where
  "wlp m Q \<longleftrightarrow> (\<forall>x. m = Some x \<longrightarrow> Q x)"

lemma wlp_simps [simp]:
  "wlp (Some x) Q = Q x" "wlp None Q" "wlp (Option.bind m f) Q = wlp m (\<lambda>x. wlp (f x) Q)"
  by (auto simp: wlp_def bind_Some_iff)

lemma wlp_if [intro]: "(b \<Longrightarrow> wlp m Q) \<Longrightarrow> (\<not> b \<Longrightarrow> wlp n Q) \<Longrightarrow> wlp (if b then m else n) Q"
  by simp

lemma wlp_res: "wlp m Q \<Longrightarrow> m = Some x \<Longrightarrow> Q x"
  by (simp add: wlp_def)

lemma wlpI: "(\<And>x. m = Some x \<Longrightarrow> Q x) \<Longrightarrow> wlp m Q"
  by (simp add: wlp_def)

end
