(* ===== verification/Cipher.thy ===== *)
theory Cipher
  imports Prelude
begin

text \<open>
  \<open>include/mpcc/core/cipher.h\<close> and \<open>src/core/cipher.cpp\<close>: the XOR cipher behind the
  interface \<open>IEncrypt\<close> of \<open>include/mpcc/core/interfaces.h\<close>. The locale states what the
  users of \<open>IEncrypt\<close> rely on, and is interpreted on the code's \<open>Cipher\<close>.
\<close>

subsection \<open>The class\<close>

definition MAX_USERNAME_LEN :: nat where "MAX_USERNAME_LEN = 64"
definition MAX_PASS_LEN :: nat where "MAX_PASS_LEN = 128"
definition MAX_MSG_LEN :: nat where "MAX_MSG_LEN = 4096"

definition DEFAULT_XOR_KEY :: "8 word" where "DEFAULT_XOR_KEY = 0x5A"

record cipher =
  key :: "8 word"

definition mk_cipher :: "8 word \<Rightarrow> cipher" where
  "mk_cipher k = \<lparr>key = k\<rparr>"

definition default_cipher :: cipher where
  "default_cipher = mk_cipher DEFAULT_XOR_KEY"

text \<open>One byte: \<open>static_cast<char>(c ^ key)\<close> with \<open>c\<close> read as \<open>unsigned char\<close>.\<close>

definition xor_char :: "8 word \<Rightarrow> char \<Rightarrow> char" where
  "xor_char k ch = char_of (unat ((of_char ch :: 8 word) XOR k))"

definition encrypt :: "cipher \<Rightarrow> string \<Rightarrow> string" where
  "encrypt c data = map (xor_char (key c)) data"

definition decrypt :: "cipher \<Rightarrow> string \<Rightarrow> string" where
  "decrypt c data = encrypt c data"

lemma xor_char_xor_char [simp]: "xor_char k (xor_char k ch) = ch"
proof -
  have "(of_char (xor_char k ch) :: 8 word) = of_char ch XOR k"
  proof -
    have "(of_char (xor_char k ch) :: nat) = unat ((of_char ch :: 8 word) XOR k)"
      using unsigned_less [of "(of_char ch :: 8 word) XOR k", where ?'a = nat]
      by (simp add: xor_char_def)
    then have "of_nat (of_char (xor_char k ch)) = (of_char ch :: 8 word) XOR k"
      by simp
    then show ?thesis by (simp add: of_nat_of_char)
  qed
  then have "xor_char k (xor_char k ch) = char_of (unat (of_char ch :: 8 word))"
    by (simp add: xor_char_def [of k "xor_char k ch"] xor.assoc)
  also have "unat (of_char ch :: 8 word) = unat (of_nat (of_char ch) :: 8 word)"
    by (simp add: of_nat_of_char)
  also have "\<dots> = of_char ch"
    using of_char_less [of ch] by (simp only: unat_of_nat) simp
  finally show ?thesis by simp
qed

lemma length_encrypt [simp]: "length (encrypt c data) = length data"
  by (simp add: encrypt_def)

lemma encrypt_Nil [simp]: "encrypt c [] = []"
  by (simp add: encrypt_def)

lemma encrypt_append: "encrypt c (a @ b) = encrypt c a @ encrypt c b"
  by (simp add: encrypt_def)

lemma encrypt_Cons: "encrypt c (x # xs) = xor_char (key c) x # encrypt c xs"
  by (simp add: encrypt_def)

lemma encrypt_encrypt [simp]: "encrypt c (encrypt c data) = data"
  by (simp add: encrypt_def o_def)

lemma decrypt_encrypt [simp]: "decrypt c (encrypt c data) = data"
  by (simp add: decrypt_def)

lemma xor_char_inj: "xor_char k a = xor_char k b \<longleftrightarrow> a = b"
  by (metis xor_char_xor_char)

lemma encrypt_inj [simp]: "encrypt c a = encrypt c b \<longleftrightarrow> a = b"
  by (metis encrypt_encrypt)

subsection \<open>What the users of \<open>IEncrypt\<close> rely on\<close>

text \<open>
  A frame is encrypted as a whole and decrypted one byte at a time (\<open>recv_line\<close> calls
  \<open>decrypt(std::string(1, c))[0]\<close>), so besides the inverse law its users need the cipher to
  work byte by byte.
\<close>

locale byte_cipher =
  fixes enc :: "string \<Rightarrow> string" and dec :: "string \<Rightarrow> string"
  assumes dec_enc: "dec (enc s) = s"
    and enc_append: "enc (a @ b) = enc a @ enc b"
    and enc_len: "length (enc s) = length s"
begin

lemma enc_empty: "enc [] = []"
  using enc_len [of "[]"] by simp

lemma enc_byte: "\<exists>b. enc [a] = [b] \<and> dec [b] = [a]"
proof -
  have "length (enc [a]) = 1" by (simp add: enc_len)
  then obtain b where "enc [a] = [b]" by (auto simp: length_Suc_conv)
  then show ?thesis using dec_enc [of "[a]"] by simp
qed

text \<open>Decrypting a ciphertext byte by byte yields the plain text.\<close>

lemma dec_bytewise: "concat (map (\<lambda>b. dec [b]) (enc s)) = s"
proof (induction s)
  case Nil
  show ?case by (simp add: enc_empty)
next
  case (Cons a s)
  obtain b where b: "enc [a] = [b]" "dec [b] = [a]" using enc_byte [of a] by blast
  have "enc (a # s) = enc [a] @ enc s" using enc_append [of "[a]" s] by simp
  with b Cons show ?case by simp
qed

lemma enc_injective: "enc a = enc b \<Longrightarrow> a = b"
  by (metis dec_enc)

end

interpretation xor: byte_cipher "encrypt c" "decrypt c" for c :: cipher
  by unfold_locales (simp_all add: encrypt_append)

end
