(* ===== verification/Message.thy ===== *)
theory Message
  imports Prelude
begin

text \<open>
  \<open>include/mpcc/core/message.h\<close> and \<open>src/core/message.cpp\<close>: the wire protocol. A message
  is a tag and a payload; \<open>serialise\<close> and \<open>parse\<close> are the code's, and the lemmas say when
  they are inverse to each other and that one message is one line on the wire.
\<close>

subsection \<open>Protocol tags and messages\<close>

definition proto_CHOICE :: string where [simp]: "proto_CHOICE = ''CHOICE''"
definition proto_REG :: string where [simp]: "proto_REG = ''REG''"
definition proto_LOGIN :: string where [simp]: "proto_LOGIN = ''LOGIN''"
definition proto_MSG :: string where [simp]: "proto_MSG = ''MSG''"
definition proto_EXIT :: string where [simp]: "proto_EXIT = ''EXIT''"
definition proto_OK :: string where [simp]: "proto_OK = ''OK''"
definition proto_ERR :: string where [simp]: "proto_ERR = ''ERR''"
definition proto_BCAST :: string where [simp]: "proto_BCAST = ''BCAST''"
definition proto_MENU :: string where [simp]: "proto_MENU = ''MENU''"

record message =
  msg_type :: string
  payload :: string

definition is_valid :: "message \<Rightarrow> bool" where
  "is_valid m \<longleftrightarrow> msg_type m \<noteq> []"

subsection \<open>Serialise and parse\<close>

definition serialise :: "message \<Rightarrow> string" where
  "serialise m =
     msg_type m @ (if payload m \<noteq> [] then colon # payload m else []) @ [nl]"

text \<open>The loop that pops trailing newlines and carriage returns.\<close>

function strip_eol :: "string \<Rightarrow> string" where
  "strip_eol line =
     (if line \<noteq> [] \<and> (last line = nl \<or> last line = cr) then strip_eol (butlast line) else line)"
  by pat_completeness auto
termination
  by (relation "measure length") auto

declare strip_eol.simps [simp del]

definition parse :: "string \<Rightarrow> message" where
  "parse raw =
     (let line = strip_eol raw in
      case str_find colon line of
        None \<Rightarrow> \<lparr>msg_type = line, payload = []\<rparr>
      | Some k \<Rightarrow> \<lparr>msg_type = take k line, payload = drop (k + 1) line\<rparr>)"

subsection \<open>Factories\<close>

definition make_reg :: "string \<Rightarrow> string \<Rightarrow> message" where
  "make_reg user pass = \<lparr>msg_type = proto_REG, payload = user @ '':'' @ pass\<rparr>"

definition make_login :: "string \<Rightarrow> string \<Rightarrow> message" where
  "make_login user pass = \<lparr>msg_type = proto_LOGIN, payload = user @ '':'' @ pass\<rparr>"

definition make_msg :: "string \<Rightarrow> message" where
  "make_msg text = \<lparr>msg_type = proto_MSG, payload = text\<rparr>"

definition make_ok :: "string \<Rightarrow> message" where
  "make_ok detail = \<lparr>msg_type = proto_OK, payload = detail\<rparr>"

definition make_err :: "string \<Rightarrow> message" where
  "make_err detail = \<lparr>msg_type = proto_ERR, payload = detail\<rparr>"

definition make_bcast :: "string \<Rightarrow> string \<Rightarrow> message" where
  "make_bcast sender text =
     \<lparr>msg_type = proto_BCAST, payload = ''['' @ sender @ '']: '' @ text\<rparr>"

definition make_exit :: message where
  "make_exit = \<lparr>msg_type = proto_EXIT, payload = []\<rparr>"

definition make_menu :: message where
  "make_menu = \<lparr>msg_type = proto_MENU, payload = ''1=Register 2=Login''\<rparr>"

lemmas make_defs = make_reg_def make_login_def make_msg_def make_ok_def make_err_def
  make_bcast_def make_exit_def make_menu_def

subsection \<open>Lemmas\<close>

abbreviation eol :: "char \<Rightarrow> bool" where "eol c \<equiv> c = nl \<or> c = cr"

lemma strip_eol_Nil [simp]: "strip_eol [] = []"
  by (simp add: strip_eol.simps)

lemma strip_eol_snoc [simp]: "strip_eol (s @ [c]) = (if eol c then strip_eol s else s @ [c])"
  by (subst strip_eol.simps) simp

lemma strip_eol_clean: "s = [] \<or> \<not> eol (last s) \<Longrightarrow> strip_eol s = s"
  by (subst strip_eol.simps) auto

lemma strip_eol_append: "\<not> eol c \<Longrightarrow> strip_eol (a @ c # b) = a @ c # strip_eol b"
proof (induction b rule: rev_induct)
  case Nil
  then show ?case by simp
next
  case (snoc x b)
  have "strip_eol ((a @ c # b) @ [x]) = a @ c # strip_eol (b @ [x])"
    using snoc by (simp only: strip_eol_snoc) simp
  then show ?case by simp
qed

lemma strip_eol_idem [simp]: "strip_eol (strip_eol s) = strip_eol s"
  by (induction s rule: rev_induct) auto

lemma strip_eol_last: "strip_eol s \<noteq> [] \<Longrightarrow> \<not> eol (last (strip_eol s))"
  by (induction s rule: rev_induct) auto

lemma strip_eol_prefix: "\<exists>t. s = strip_eol s @ t \<and> (\<forall>c \<in> set t. eol c)"
proof (induction s rule: rev_induct)
  case Nil
  show ?case by simp
next
  case (snoc c s)
  then obtain t where t: "s = strip_eol s @ t" "\<forall>c \<in> set t. eol c" by blast
  show ?case
  proof (cases "eol c")
    case True
    with t show ?thesis by (intro exI [of _ "t @ [c]"]) auto
  next
    case False
    then show ?thesis by simp
  qed
qed

lemma set_strip_eol: "set (strip_eol s) \<subseteq> set s"
  using strip_eol_prefix [of s] by (metis Un_upper1 set_append)

lemma parse_no_colon: "colon \<notin> set (strip_eol s) \<Longrightarrow> parse s = \<lparr>msg_type = strip_eol s, payload = []\<rparr>"
  using str_find_None_iff [of colon "strip_eol s"] by (simp add: parse_def)

lemma parse_colon:
  "colon \<notin> set t \<Longrightarrow> strip_eol s = t @ colon # p \<Longrightarrow> parse s = \<lparr>msg_type = t, payload = p\<rparr>"
  by (simp add: parse_def)

lemma parse_tagged:
  "colon \<notin> set t \<Longrightarrow> parse (t @ colon # p) = \<lparr>msg_type = t, payload = strip_eol p\<rparr>"
  by (rule parse_colon) (simp_all add: strip_eol_append)

lemma parse_line_nl [simp]: "parse (s @ [nl]) = parse s"
  by (simp add: parse_def)

lemma parse_type_no_colon: "colon \<notin> set (msg_type (parse s))"
  using str_find_SomeD [of colon "strip_eol s"]
  by (auto simp: parse_def Let_def str_find_None_iff split: option.splits)

lemma parse_cases:
  "(payload (parse s) = [] \<and> msg_type (parse s) = strip_eol s)
   \<or> strip_eol s = msg_type (parse s) @ colon # payload (parse s)"
proof (cases "str_find colon (strip_eol s)")
  case None
  then show ?thesis by (simp add: parse_def)
next
  case (Some k)
  from str_find_Some_split [OF this] Some show ?thesis unfolding parse_def Let_def by auto
qed

lemma set_parse:
  "set (msg_type (parse s)) \<subseteq> set s" "set (payload (parse s)) \<subseteq> set s"
  using parse_cases [of s] set_strip_eol [of s] by auto

lemma serialise_nonempty [simp]: "serialise m \<noteq> []"
  by (simp add: serialise_def)

lemma parse_serialise_gen:
  assumes "colon \<notin> set (msg_type m)" "payload m = [] \<Longrightarrow> strip_eol (msg_type m) = msg_type m"
  shows "parse (serialise m) = m\<lparr>payload := strip_eol (payload m)\<rparr>"
proof (cases "payload m = []")
  case True
  with assms show ?thesis by (simp add: serialise_def parse_no_colon)
next
  case False
  with assms parse_line_nl [of "msg_type m @ colon # payload m"]
    parse_tagged [of "msg_type m" "payload m"]
  show ?thesis by (simp add: serialise_def)
qed

text \<open>A message whose tag has no colon and whose last field does not end in a line-end
  character survives \<open>serialise\<close> and \<open>parse\<close> unchanged, whatever colons its payload holds.\<close>

theorem parse_serialise:
  assumes "colon \<notin> set (msg_type m)"
    and "strip_eol (msg_type m) = msg_type m" and "strip_eol (payload m) = payload m"
  shows "parse (serialise m) = m"
  using parse_serialise_gen [of m] assms by simp

theorem parse_serialise_witness:
  "parse (serialise \<lparr>msg_type = ''BCAST'', payload = ''[alice]: hello:world''\<rparr>)
     = \<lparr>msg_type = ''BCAST'', payload = ''[alice]: hello:world''\<rparr>"
  by (rule parse_serialise) (simp_all add: strip_eol_clean)

text \<open>One message is one line: the only newline of a frame is its last byte.\<close>

definition frame_body :: "message \<Rightarrow> string" where
  "frame_body m = msg_type m @ (if payload m \<noteq> [] then colon # payload m else [])"

lemma serialise_frame: "serialise m = frame_body m @ [nl]"
  by (simp add: serialise_def frame_body_def)

lemma nl_frame_body [simp]:
  "nl \<in> set (frame_body m) \<longleftrightarrow> nl \<in> set (msg_type m) \<or> nl \<in> set (payload m)"
  by (auto simp: frame_body_def)

lemma getlines_frames:
  "(\<And>m. m \<in> set ms \<Longrightarrow> nl \<notin> set (frame_body m)) \<Longrightarrow>
   getlines (concat (map serialise ms)) = map frame_body ms"
  by (induction ms) (auto simp: serialise_frame)

text \<open>C27: frames cannot be forged from inside a payload: a stream of serialised messages whose
  fields contain no newline splits back into exactly those messages, one per line.\<close>

theorem frame_stream_roundtrip:
  assumes "\<And>m. m \<in> set ms \<Longrightarrow> colon \<notin> set (msg_type m) \<and> nl \<notin> set (msg_type m)
      \<and> nl \<notin> set (payload m) \<and> strip_eol (msg_type m) = msg_type m
      \<and> strip_eol (payload m) = payload m"
  shows "map parse (getlines (concat (map serialise ms))) = ms"
proof -
  have "parse (frame_body m) = m" if "m \<in> set ms" for m
    using parse_serialise_gen [of m] assms [OF that] by (simp add: serialise_frame)
  moreover have "getlines (concat (map serialise ms)) = map frame_body ms"
    by (rule getlines_frames) (use assms in auto)
  ultimately show ?thesis by (simp add: map_idI)
qed

theorem frame_stream_roundtrip_witness:
  "map parse (getlines (concat (map serialise [make_ok ''Goodbye!'', make_exit])))
     = [make_ok ''Goodbye!'', make_exit]"
  by (rule frame_stream_roundtrip) (auto simp: make_defs strip_eol_clean)

end
