(* ===== verification/Ownership.thy ===== *)
theory Ownership
  imports Prelude "HOL-Library.Multiset"
begin

text \<open>
  What the RAII classes of the program share (\<open>UniqueFd\<close>, \<open>JoinableThread\<close>, \<open>ThreadGroup\<close>): an
  object that holds resources, takes some in, gives some out, and gives back the rest exactly
  once. The contract of one operation is a balance; the locale lifts it to every history of an
  object that ends with its destructor.
\<close>

fun runs :: "('op \<Rightarrow> 's \<Rightarrow> 's) \<Rightarrow> 'op list \<Rightarrow> 's \<Rightarrow> 's" where
  "runs step [] s = s"
| "runs step (x # xs) s = runs step xs (step x s)"

text \<open>What is collected along a run.\<close>

fun along :: "('op \<Rightarrow> 's \<Rightarrow> 's) \<Rightarrow> ('op \<Rightarrow> 's \<Rightarrow> 'r multiset) \<Rightarrow> 'op list \<Rightarrow> 's \<Rightarrow> 'r multiset" where
  "along step f [] s = {#}"
| "along step f (x # xs) s = f x s + along step f xs (step x s)"

lemma balance_trans:
  fixes c :: "'a multiset"
  assumes "c1 + h1 + g = c + h + t" and "c2 + h2 + gs = c1 + h1 + ts"
  shows "c2 + h2 + (g + gs) = c + h + (t + ts)"
proof -
  have "c2 + h2 + (g + gs) = (c2 + h2 + gs) + g" by (simp add: ac_simps)
  also have "\<dots> = (c1 + h1 + ts) + g" by (simp only: assms(2))
  also have "\<dots> = (c1 + h1 + g) + ts" by (simp add: ac_simps)
  also have "\<dots> = (c + h + t) + ts" by (simp only: assms(1))
  also have "\<dots> = c + h + (t + ts)" by (simp add: ac_simps)
  finally show ?thesis .
qed

locale ownership =
  fixes step :: "'op \<Rightarrow> 's \<Rightarrow> 's" and destroy :: "'s \<Rightarrow> 's"
    and freed :: "'s \<Rightarrow> 'r multiset" and held :: "'s \<Rightarrow> 'r multiset"
    and taken :: "'op \<Rightarrow> 's \<Rightarrow> 'r multiset" and given :: "'op \<Rightarrow> 's \<Rightarrow> 'r multiset"
  assumes balance: "freed (step x s) + held (step x s) + given x s = freed s + held s + taken x s"
    and last_freed: "freed (destroy s) = freed s + held s"
begin

lemma run_balance:
  "freed (runs step xs s) + held (runs step xs s) + along step given xs s
     = freed s + held s + along step taken xs s"
proof (induction xs arbitrary: s)
  case (Cons x xs)
  from balance_trans [OF balance Cons.IH] show ?case by simp
qed simp

text \<open>At the end everything ever held has been freed once or given away.\<close>

lemma freed_once:
  "freed (destroy (runs step xs s)) + along step given xs s = freed s + held s + along step taken xs s"
  by (simp add: last_freed run_balance)

end

end
