(* ===== verification/Unique_Fd.thy ===== *)
theory Unique_Fd
  imports Ownership
begin

text \<open>
  \<open>include/mpcc/core/unique_fd.h\<close>, and the part of the operating system the sources call on
  sockets. A socket is what its peer and the network will do next: the results of the coming
  \<open>recv(fd, &c, 1, 0)\<close> calls and of the coming \<open>send\<close> calls, and what it has transmitted. The
  theorems about the program hold for every such script, so for every behaviour of the network.
\<close>

subsection \<open>Sockets and the descriptor table\<close>

datatype recv_res = Got char | Recv_closed | Recv_intr | Recv_err

text \<open>
  \<open>Sent n\<close> is a \<open>send\<close> that takes \<open>n\<close> bytes (never more than it was given), \<open>Send_intr\<close> one
  that returns -1 with \<open>EINTR\<close>, \<open>Send_err\<close> -1 with another error.
\<close>

datatype send_res = Sent nat | Send_intr | Send_err

record socket =
  rx :: "recv_res list"
  sends :: "send_res list"
  tx :: string
  shut :: bool

record kernel =
  socks :: "int \<rightharpoonup> socket"
  closes :: "int list"

text \<open>
  The system calls. A script that has run out means: no more input and the peer has closed
  (\<open>recv\<close> returns 0), and every \<open>send\<close> takes all it is given. A descriptor that is not open
  is \<open>EBADF\<close>; after \<open>shutdown(SHUT_RDWR)\<close> \<open>recv\<close> returns 0 and \<open>send\<close> fails with \<open>EPIPE\<close>.
\<close>

definition sys_recv :: "int \<Rightarrow> kernel \<Rightarrow> recv_res \<times> kernel" where
  "sys_recv f k =
     (case socks k f of
        None \<Rightarrow> (Recv_err, k)
      | Some s \<Rightarrow>
          if shut s then (Recv_closed, k)
          else (case rx s of
                  [] \<Rightarrow> (Recv_closed, k)
                | e # es \<Rightarrow> (e, k\<lparr>socks := (socks k)(f \<mapsto> s\<lparr>rx := es\<rparr>)\<rparr>)))"

definition sys_send :: "int \<Rightarrow> string \<Rightarrow> kernel \<Rightarrow> send_res \<times> kernel" where
  "sys_send f data k =
     (case socks k f of
        None \<Rightarrow> (Send_err, k)
      | Some s \<Rightarrow>
          if shut s then (Send_err, k)
          else (case sends s of
                  [] \<Rightarrow> (Sent (length data), k\<lparr>socks := (socks k)(f \<mapsto> s\<lparr>tx := tx s @ data\<rparr>)\<rparr>)
                | Sent n # rs \<Rightarrow>
                    (let m = min n (length data)
                     in (Sent m, k\<lparr>socks := (socks k)(f \<mapsto> s\<lparr>sends := rs, tx := tx s @ take m data\<rparr>)\<rparr>))
                | r # rs \<Rightarrow> (r, k\<lparr>socks := (socks k)(f \<mapsto> s\<lparr>sends := rs\<rparr>)\<rparr>)))"

definition sys_shutdown :: "int \<Rightarrow> kernel \<Rightarrow> kernel" where
  "sys_shutdown f k =
     (case socks k f of None \<Rightarrow> k | Some s \<Rightarrow> k\<lparr>socks := (socks k)(f \<mapsto> s\<lparr>shut := True\<rparr>)\<rparr>)"

definition sys_close :: "int \<Rightarrow> kernel \<Rightarrow> kernel" where
  "sys_close f k = k\<lparr>socks := (socks k)(f := None), closes := closes k @ [f]\<rparr>"

text \<open>How many results are still to come on a descriptor: what the loops over them use up.\<close>

definition pending_rx :: "int \<Rightarrow> kernel \<Rightarrow> nat" where
  "pending_rx f k = (case socks k f of None \<Rightarrow> 0 | Some s \<Rightarrow> length (rx s))"

definition pending_sends :: "int \<Rightarrow> kernel \<Rightarrow> nat" where
  "pending_sends f k = (case socks k f of None \<Rightarrow> 0 | Some s \<Rightarrow> length (sends s))"

lemma sys_recv_pending:
  "sys_recv f k = (r, k') \<Longrightarrow> r = Recv_intr \<or> r = Got c \<Longrightarrow> pending_rx f k' < pending_rx f k"
  by (auto simp: sys_recv_def pending_rx_def split: option.splits if_splits list.splits)

lemma sys_recv_frame [frame_simps]:
  "closes (snd (sys_recv f k)) = closes k"
  "g \<noteq> f \<Longrightarrow> socks (snd (sys_recv f k)) g = socks k g"
  by (auto simp: sys_recv_def split: option.splits list.splits)

lemma sys_send_frame [frame_simps]:
  "closes (snd (sys_send f d k)) = closes k"
  "g \<noteq> f \<Longrightarrow> socks (snd (sys_send f d k)) g = socks k g"
  by (auto simp: sys_send_def Let_def split: option.splits list.splits send_res.splits)

lemma sys_send_pending:
  "sys_send f d k = (Send_intr, k') \<Longrightarrow> pending_sends f k' < pending_sends f k"
  "sys_send f d k = (r, k') \<Longrightarrow> pending_sends f k' \<le> pending_sends f k"
  by (auto simp: sys_send_def pending_sends_def Let_def
      split: option.splits if_splits list.splits send_res.splits)

lemma sys_send_rx: "sys_send f d k = (r, k') \<Longrightarrow> pending_rx g k' = pending_rx g k"
  by (auto simp: sys_send_def pending_rx_def Let_def
      split: option.splits if_splits list.splits send_res.splits)

subsection \<open>\<open>UniqueFd\<close>\<close>

record unique_fd =
  fd :: int

definition fd_default :: unique_fd where "fd_default = \<lparr>fd = -1\<rparr>"

definition mk_fd :: "int \<Rightarrow> unique_fd" where "mk_fd f = \<lparr>fd = f\<rparr>"

definition fd_valid :: "unique_fd \<Rightarrow> bool" where "fd_valid u \<longleftrightarrow> 0 \<le> fd u"

definition fd_release :: "unique_fd \<Rightarrow> int \<times> unique_fd" where
  "fd_release u = (let tmp = fd u in (tmp, u\<lparr>fd := -1\<rparr>))"

definition fd_reset :: "int \<Rightarrow> unique_fd \<Rightarrow> kernel \<Rightarrow> unique_fd \<times> kernel" where
  "fd_reset new_fd u k = (u\<lparr>fd := new_fd\<rparr>, if 0 \<le> fd u then sys_close (fd u) k else k)"

definition fd_shutdown_rdwr :: "unique_fd \<Rightarrow> kernel \<Rightarrow> kernel" where
  "fd_shutdown_rdwr u k = (if 0 \<le> fd u then sys_shutdown (fd u) k else k)"

definition fd_destroy :: "unique_fd \<Rightarrow> kernel \<Rightarrow> kernel" where
  "fd_destroy u k = snd (fd_reset (-1) u k)"

text \<open>Move construction, and move assignment from another object: the source is left empty.\<close>

definition fd_move :: "unique_fd \<Rightarrow> unique_fd \<times> unique_fd" where
  "fd_move other = (\<lparr>fd = fd other\<rparr>, other\<lparr>fd := -1\<rparr>)"

definition fd_move_assign ::
    "bool \<Rightarrow> unique_fd \<Rightarrow> unique_fd \<Rightarrow> kernel \<Rightarrow> unique_fd \<times> unique_fd \<times> kernel" where
  "fd_move_assign same this other k =
     (if same then (this, other, k)
      else let (this', k') = fd_reset (-1) this k
           in (this'\<lparr>fd := fd other\<rparr>, other\<lparr>fd := -1\<rparr>, k'))"

subsection \<open>Every descriptor is closed exactly once\<close>

text \<open>
  A history of one object: descriptors handed to it by \<open>reset\<close>, taken out by \<open>release\<close>,
  moved in from and out to other objects.
\<close>

datatype fd_op = Reset int | Release | Shutdown | Move_in int | Move_out

fun fd_step :: "fd_op \<Rightarrow> unique_fd \<times> kernel \<Rightarrow> unique_fd \<times> kernel" where
  "fd_step (Reset f) (u, k) = fd_reset f u k"
| "fd_step Release (u, k) = (snd (fd_release u), k)"
| "fd_step Shutdown (u, k) = (u, fd_shutdown_rdwr u k)"
| "fd_step (Move_in f) (u, k) =
     (let (u', _, k') = fd_move_assign False u (mk_fd f) k in (u', k'))"
| "fd_step Move_out (u, k) = (snd (fd_move u), k)"

definition open_fds :: "int list \<Rightarrow> int multiset" where
  "open_fds fs = mset (filter (\<lambda>f. 0 \<le> f) fs)"

fun taken_in :: "fd_op \<Rightarrow> unique_fd \<times> kernel \<Rightarrow> int multiset" where
  "taken_in (Reset f) s = open_fds [f]"
| "taken_in (Move_in f) s = open_fds [f]"
| "taken_in _ s = {#}"

fun given_out :: "fd_op \<Rightarrow> unique_fd \<times> kernel \<Rightarrow> int multiset" where
  "given_out Release (u, k) = open_fds [fd u]"
| "given_out Move_out (u, k) = open_fds [fd u]"
| "given_out _ s = {#}"

definition fd_end :: "unique_fd \<times> kernel \<Rightarrow> unique_fd \<times> kernel" where
  "fd_end s = (fst s, fd_destroy (fst s) (snd s))"

lemma open_fds_simps [simp]:
  "open_fds [] = {#}" "open_fds (a @ b) = open_fds a + open_fds b"
  "open_fds (f # fs) = (if 0 \<le> f then {#f#} else {#}) + open_fds fs"
  by (simp_all add: open_fds_def)

lemma closes_shutdown [simp]: "closes (sys_shutdown f k) = closes k"
  by (simp add: sys_shutdown_def split: option.splits)

lemma closes_close [simp]: "closes (sys_close f k) = closes k @ [f]"
  by (simp add: sys_close_def)

interpretation fd: ownership fd_step fd_end "\<lambda>s. mset (closes (snd s))" "\<lambda>s. open_fds [fd (fst s)]"
  taken_in given_out
proof unfold_locales
  fix x and s :: "unique_fd \<times> kernel"
  show "mset (closes (snd (fd_step x s))) + open_fds [fd (fst (fd_step x s))] + given_out x s
      = mset (closes (snd s)) + open_fds [fd (fst s)] + taken_in x s"
    by (cases x; cases s) (auto simp: fd_reset_def fd_release_def fd_shutdown_rdwr_def
        fd_move_assign_def fd_move_def mk_fd_def)
  show "mset (closes (snd (fd_end s))) = mset (closes (snd s)) + open_fds [fd (fst s)]"
    by (simp add: fd_end_def fd_destroy_def fd_reset_def)
qed

text \<open>Over any history of a \<open>UniqueFd\<close> that ends with its destructor, each valid
  descriptor it was ever given is closed exactly once or was handed out, and nothing else is
  closed: no leak and no double close.\<close>

theorem fd_closed_exactly_once:
  "mset (closes (snd (fd_end (runs fd_step xs (mk_fd f, k))))) + along fd_step given_out xs (mk_fd f, k)
   = mset (closes k) + open_fds [f] + along fd_step taken_in xs (mk_fd f, k)"
  using fd.freed_once [of xs "(mk_fd f, k)"] by (simp add: mk_fd_def)

end
