(* ===== verification/Session.thy ===== *)
theory Session
  imports Unique_Fd
begin

text \<open>
  \<open>include/mpcc/core/session.h\<close> and \<open>src/core/session.cpp\<close>: one client connection. The
  object owns its descriptor; its methods take the object and the descriptor table and
  return both. The \<open>Store\<close> part puts the objects on a heap, because the server's managers
  hold pointers to them: following a null or dangling pointer is undefined behaviour, and
  has the result \<open>None\<close>.
\<close>

subsection \<open>The class\<close>

record session =
  client_fd :: unique_fd
  ip_addr :: string
  username :: string
  username_set :: bool
  active :: bool

definition mk_session :: "int \<Rightarrow> string \<Rightarrow> session" where
  "mk_session cfd ip =
     \<lparr>client_fd = mk_fd cfd, ip_addr = ip, username = ''(unauthenticated)'',
      username_set = False, active = True\<rparr>"

text \<open>
  The loop of \<open>send_msg\<close>. A \<open>send\<close> that returns 0 or -1 ends it, whatever \<open>errno\<close>; each
  other call takes at least one byte, so the loop stops.
\<close>

function send_from :: "int \<Rightarrow> string \<Rightarrow> nat \<Rightarrow> kernel \<Rightarrow> bool \<times> kernel" where
  "send_from f buf tot k =
     (if tot < length buf
      then (case sys_send f (drop tot buf) k of
              (Sent (Suc n), k') \<Rightarrow> send_from f buf (tot + Suc n) k'
            | (_, k') \<Rightarrow> (False, k'))
      else (True, k))"
  by pat_completeness auto
termination
  by (relation "measure (\<lambda>(f, buf, tot, k). length buf - tot)") auto

declare send_from.simps [simp del]

definition send_msg :: "string \<Rightarrow> session \<Rightarrow> kernel \<Rightarrow> bool \<times> session \<times> kernel" where
  "send_msg msg s k =
     (if \<not> active s then (False, s, k)
      else case send_from (fd (client_fd s)) msg 0 k of
             (True, k') \<Rightarrow> (True, s, k')
           | (False, k') \<Rightarrow> (False, s\<lparr>active := False\<rparr>, k'))"

definition close_session :: "session \<Rightarrow> kernel \<Rightarrow> session \<times> kernel" where
  "close_session s k =
     (if active s
      then let k1 = fd_shutdown_rdwr (client_fd s) k;
               (u, k2) = fd_reset (-1) (client_fd s) k1
           in (s\<lparr>active := False, client_fd := u\<rparr>, k2)
      else (s, k))"

definition get_fd :: "session \<Rightarrow> int" where "get_fd s = fd (client_fd s)"
definition get_username :: "session \<Rightarrow> string" where "get_username s = username s"
definition get_ip :: "session \<Rightarrow> string" where "get_ip s = ip_addr s"
definition is_active :: "session \<Rightarrow> bool" where "is_active s = active s"

definition set_username :: "string \<Rightarrow> session \<Rightarrow> session" where
  "set_username u s = (if \<not> username_set s then s\<lparr>username := u, username_set := True\<rparr> else s)"

text \<open>The destructor: \<open>close_session\<close>, then the member \<open>UniqueFd\<close> is destroyed.\<close>

definition session_destroy :: "session \<Rightarrow> kernel \<Rightarrow> kernel" where
  "session_destroy s k = (let (s', k') = close_session s k in fd_destroy (client_fd s') k')"

subsection \<open>Sending\<close>

lemma take_drop_chunk: "take a xs @ take b (drop a xs) = take (a + b) xs"
  by (simp add: take_add)

lemma sys_send_cases:
  assumes "sys_send f d k = (r, k')"
  obtains (sent) n s where "r = Sent n" "n \<le> length d" "socks k f = Some s" "\<not> shut s"
      "socks k' f = Some (s\<lparr>sends := tl (sends s), tx := tx s @ take n d\<rparr>)"
      "closes k' = closes k" "\<And>g. g \<noteq> f \<Longrightarrow> socks k' g = socks k g"
  | (failed) "r = Send_intr \<or> r = Send_err" "closes k' = closes k"
      "\<And>g. g \<noteq> f \<Longrightarrow> socks k' g = socks k g"
      "map_option tx (socks k' f) = map_option tx (socks k f)"
      "map_option rx (socks k' f) = map_option rx (socks k f)"
      "map_option shut (socks k' f) = map_option shut (socks k f)"
proof (cases r)
  case (Sent n)
  with assms obtain s where "socks k f = Some s" by (auto simp: sys_send_def split: option.splits)
  with Sent assms show ?thesis
    by (intro sent [of n s])
       (auto simp: sys_send_def Let_def split: if_splits list.splits send_res.splits)
next
  case Send_intr
  with assms show ?thesis
    by (intro failed) (auto simp: sys_send_def Let_def
        split: option.splits if_splits list.splits send_res.splits)
next
  case Send_err
  with assms show ?thesis
    by (intro failed) (auto simp: sys_send_def Let_def
        split: option.splits if_splits list.splits send_res.splits)
qed

text \<open>What the loop transmits: all of the buffer on success, a proper prefix otherwise.\<close>

definition sent_upto :: "int \<Rightarrow> string \<Rightarrow> kernel \<Rightarrow> kernel \<Rightarrow> bool" where
  "sent_upto f d k k' \<longleftrightarrow>
     closes k' = closes k \<and> (\<forall>g. g \<noteq> f \<longrightarrow> socks k' g = socks k g)
     \<and> map_option (\<lambda>s. (rx s, shut s)) (socks k' f) = map_option (\<lambda>s. (rx s, shut s)) (socks k f)
     \<and> (d = [] \<or> socks k f \<noteq> None)
     \<and> map_option tx (socks k' f) = map_option (\<lambda>s. tx s @ d) (socks k f)"

lemma sys_send_failed_upto:
  "sys_send f d k = (r, k') \<Longrightarrow> r = Send_intr \<or> r = Send_err \<Longrightarrow> sent_upto f [] k k'"
  by (auto simp: sent_upto_def sys_send_def Let_def
      split: option.splits if_splits list.splits send_res.splits)

lemma sys_send_sent_upto:
  assumes "sys_send f (drop tot buf) k = (Sent n, k')" "tot \<le> length buf"
  shows "sent_upto f (take n (drop tot buf)) k k' \<and> tot + n \<le> length buf"
  using assms(1) by (cases rule: sys_send_cases) (use assms(2) in \<open>auto simp: sent_upto_def\<close>)

lemma sent_upto_Nil: "sent_upto f [] k k"
  by (simp add: sent_upto_def map_option_case split: option.splits)

lemma sent_upto_trans: "sent_upto f a k k1 \<Longrightarrow> sent_upto f b k1 k2 \<Longrightarrow> sent_upto f (a @ b) k k2"
  by (auto simp: sent_upto_def map_option_case split: option.splits)

text \<open>What a send loop over \<open>buf\<close> from \<open>tot\<close> on must have done when it ends with result \<open>b\<close>.\<close>

definition sends_rest :: "int \<Rightarrow> string \<Rightarrow> nat \<Rightarrow> kernel \<Rightarrow> bool \<Rightarrow> kernel \<Rightarrow> bool" where
  "sends_rest f buf tot k b k' \<longleftrightarrow> (\<exists>n. sent_upto f (take n (drop tot buf)) k k' \<and>
     (if b then n = length buf - tot else n < length buf - tot))"

lemma sends_rest_done: "\<not> tot < length buf \<Longrightarrow> sends_rest f buf tot k True k"
  by (auto simp: sends_rest_def sent_upto_Nil intro!: exI [of _ 0])

lemma sends_rest_failed: "sent_upto f [] k k' \<Longrightarrow> tot < length buf \<Longrightarrow> sends_rest f buf tot k False k'"
  by (auto simp: sends_rest_def intro!: exI [of _ 0])

lemma sends_rest_again: "sent_upto f [] k k1 \<Longrightarrow> sends_rest f buf tot k1 b k' \<Longrightarrow> sends_rest f buf tot k b k'"
  unfolding sends_rest_def by (metis append_Nil sent_upto_trans)

lemma sends_rest_more:
  assumes "sys_send f (drop tot buf) k = (Sent n, k1)" "tot < length buf"
    and "sends_rest f buf (tot + n) k1 b k'"
  shows "sends_rest f buf tot k b k'"
proof -
  have up: "sent_upto f (take n (drop tot buf)) k k1" "tot + n \<le> length buf"
    using sys_send_sent_upto [OF assms(1)] assms(2) by simp_all
  from assms(3) obtain j where j: "sent_upto f (take j (drop (tot + n) buf)) k1 k'"
    "if b then j = length buf - (tot + n) else j < length buf - (tot + n)" by (auto simp: sends_rest_def)
  have "take n (drop tot buf) @ take j (drop (tot + n) buf) = take (n + j) (drop tot buf)"
    by (metis add.commute drop_drop take_add)
  with sent_upto_trans [OF up(1) j(1)] j(2) up(2) show ?thesis
    by (auto simp: sends_rest_def intro!: exI [of _ "n + j"] split: if_splits)
qed

lemma send_from_sends: "send_from f buf tot k = (b, k') \<Longrightarrow> sends_rest f buf tot k b k'"
proof (induction f buf tot k rule: send_from.induct)
  case (1 f buf tot k)
  obtain r k1 where s: "sys_send f (drop tot buf) k = (r, k1)" by force
  show ?case
  proof (cases "tot < length buf")
    case False
    with "1.prems" sends_rest_done [OF False] show ?thesis by (simp add: send_from.simps [of f buf tot k])
  next
    case True
    show ?thesis
    proof (cases "\<exists>n. r = Sent (Suc n)")
      case True': True
      then obtain n where n: "r = Sent (Suc n)" by blast
      from "1.IH" [OF True s [symmetric] n refl] "1.prems" True s n
      have "sends_rest f buf (tot + Suc n) k1 b k'" by (simp add: send_from.simps [of f buf tot k])
      with sends_rest_more [of f tot buf k "Suc n" k1] s n True show ?thesis by simp
    next
      case False
      with s True "1.prems" have "b = False" "k' = k1"
        by (auto simp: send_from.simps [of f buf tot k] split: send_res.splits nat.splits)
      moreover have "sent_upto f [] k k1"
        using s False sys_send_sent_upto [of f tot buf k 0 k1] sys_send_failed_upto [OF s] True
        by (cases r) (auto, metis not0_implies_Suc)
      ultimately show ?thesis using sends_rest_failed True by blast
    qed
  qed
qed

text \<open>
  The contract of a send loop, which the server's \<open>send_msg\<close> and the client's \<open>send_encrypted\<close> keep:
  the buffer splits into what was handed over and a rest, which is empty exactly on success.
\<close>

locale send_loop =
  fixes loop :: "int \<Rightarrow> string \<Rightarrow> nat \<Rightarrow> kernel \<Rightarrow> bool \<times> kernel"
  assumes loop_rest: "loop f buf tot k = (b, k') \<Longrightarrow> sends_rest f buf tot k b k'"
begin

lemma split_sent:
  assumes "loop f buf 0 k = (b, k')"
  shows "\<exists>sent rest. buf = sent @ rest \<and> sent_upto f sent k k' \<and> (b \<longleftrightarrow> rest = [])"
proof -
  from loop_rest [OF assms] obtain n where n: "sent_upto f (take n buf) k k'"
    "if b then n = length buf else n < length buf" unfolding sends_rest_def diff_zero drop0 by blast
  from n(2) have "b \<longleftrightarrow> drop n buf = []" by (cases b) simp_all
  with n(1) show ?thesis by (metis append_take_drop_id)
qed

lemma keeps_closes: "closes (snd (loop f buf tot k)) = closes k"
proof -
  obtain b k' where r: "loop f buf tot k = (b, k')" by force
  from loop_rest [OF r] show ?thesis by (auto simp: sends_rest_def sent_upto_def r)
qed

end

interpretation server_send: send_loop send_from
  by unfold_locales (rule send_from_sends)

lemma send_msg_inactive [step_simps]: "\<not> active s \<Longrightarrow> send_msg msg s k = (False, s, k)"
  by (simp add: send_msg_def)

lemma send_msg_session: "send_msg msg s k = (ok, s', k') \<Longrightarrow>
    s' = (if ok then s else s\<lparr>active := False\<rparr>)"
  by (auto simp: send_msg_def split: if_splits prod.splits bool.splits)

text \<open>C18: \<open>send_msg\<close> returns true only when the whole message has been handed to the socket;
  on failure a proper prefix was, the session is marked inactive, and an inactive session
  sends nothing.\<close>

theorem send_msg_spec:
  assumes "send_msg msg s k = (ok, s', k')"
  shows "\<exists>sent rest. msg = sent @ rest
      \<and> sent_upto (get_fd s) sent k k'
      \<and> (ok = (active s \<and> rest = []))
      \<and> (\<not> active s \<longrightarrow> sent = [] \<and> k' = k)
      \<and> s' = (if ok then s else s\<lparr>active := False\<rparr>)"
proof (cases "active s")
  case False
  with assms show ?thesis
    by (intro exI [of _ "[]"] exI [of _ msg]) (auto simp: send_msg_def sent_upto_def)
next
  case True
  with assms have "send_from (get_fd s) msg 0 k = (ok, k')"
    by (auto simp: send_msg_def get_fd_def split: prod.splits bool.splits)
  from server_send.split_sent [OF this] True send_msg_session [OF assms] show ?thesis by auto
qed

theorem send_msg_spec_witness:
  "\<exists>sent rest. ''hello'' = sent @ rest
      \<and> sent_upto 7 sent
          \<lparr>socks = [7 \<mapsto> \<lparr>rx = [], sends = [Sent 2, Send_err], tx = [], shut = False\<rparr>], closes = []\<rparr>
          \<lparr>socks = [7 \<mapsto> \<lparr>rx = [], sends = [], tx = ''he'', shut = False\<rparr>], closes = []\<rparr>
      \<and> (False = (True \<and> rest = []))"
proof -
  let ?k = "\<lparr>socks = [7 \<mapsto> \<lparr>rx = [], sends = [Sent 2, Send_err], tx = [], shut = False\<rparr>], closes = []\<rparr>"
  let ?k' = "\<lparr>socks = [7 \<mapsto> \<lparr>rx = [], sends = [], tx = ''he'', shut = False\<rparr>], closes = []\<rparr>"
  have "send_msg ''hello'' (mk_session 7 ''ip'') ?k
      = (False, (mk_session 7 ''ip'')\<lparr>active := False\<rparr>, ?k')"
    by (simp add: send_msg_def mk_session_def mk_fd_def send_from.simps sys_send_def Let_def)
  from send_msg_spec [OF this] show ?thesis
    by (auto simp: get_fd_def mk_session_def mk_fd_def)
qed

subsection \<open>What the users of \<open>ISession\<close> rely on\<close>

datatype session_op = Op_set string | Op_send string | Op_close

fun run_ops :: "('op \<Rightarrow> 'o \<Rightarrow> bool \<times> 'o) \<Rightarrow> 'op list \<Rightarrow> 'o \<Rightarrow> bool list \<times> 'o" where
  "run_ops step [] ob = ([], ob)"
| "run_ops step (x # xs) ob =
     (let (r, ob') = step x ob; (rs, ob'') = run_ops step xs ob' in (r # rs, ob''))"

text \<open>
  The contract of \<open>ISession\<close>: the name can be set once, an inactive session stays inactive
  and never reports a successful send. The managers of the server file sessions under their
  names and skip inactive ones, which is only sound with these laws.
\<close>

locale session_object =
  fixes step :: "session_op \<Rightarrow> 'o \<Rightarrow> bool \<times> 'o"
    and uname :: "'o \<Rightarrow> string" and named :: "'o \<Rightarrow> bool" and act :: "'o \<Rightarrow> bool"
  assumes set_first: "\<not> named ob \<Longrightarrow> uname (snd (step (Op_set u) ob)) = u"
    and set_named: "named (snd (step (Op_set u) ob))"
    and keep_named: "named ob \<Longrightarrow> named (snd (step x ob)) \<and> uname (snd (step x ob)) = uname ob"
    and send_inactive: "\<not> act ob \<Longrightarrow> \<not> fst (step (Op_send m) ob)"
    and keep_inactive: "\<not> act ob \<Longrightarrow> \<not> act (snd (step x ob))"
    and close_inactive: "\<not> act (snd (step Op_close ob))"
begin

lemma run_named: "named ob \<Longrightarrow>
    named (snd (run_ops step xs ob)) \<and> uname (snd (run_ops step xs ob)) = uname ob"
proof (induction xs arbitrary: ob)
  case (Cons x xs)
  from Cons.prems keep_named [of ob x] Cons.IH [of "snd (step x ob)"] show ?case
    by (auto simp: Let_def split: prod.splits)
qed simp

lemma run_inactive: "\<not> act ob \<Longrightarrow> \<not> act (snd (run_ops step xs ob))
    \<and> (\<forall>i < length xs. (\<exists>m. xs ! i = Op_send m) \<longrightarrow> \<not> fst (run_ops step xs ob) ! i)"
proof (induction xs arbitrary: ob)
  case (Cons x xs)
  obtain r ob' where s: "step x ob = (r, ob')" by force
  obtain rs ob'' where t: "run_ops step xs ob' = (rs, ob'')" by force
  from Cons.prems keep_inactive [of ob x] s have "\<not> act ob'" by auto
  with Cons.IH [of ob'] t have IH: "\<not> act ob''"
    "\<forall>i < length xs. (\<exists>m. xs ! i = Op_send m) \<longrightarrow> \<not> rs ! i" by auto
  have "\<not> r" if "x = Op_send m" for m
    using that send_inactive [OF Cons.prems, of m] s by auto
  with IH s t show ?case by (auto simp: less_Suc_eq_0_disj)
qed simp

text \<open>Once named, always so named; once closed, never active and no send succeeds.\<close>

lemma name_is_final:
  "uname (snd (run_ops step xs (snd (step (Op_set u) ob)))) = uname (snd (step (Op_set u) ob))"
  using run_named [OF set_named] by blast

lemma closed_is_final: "\<not> act (snd (run_ops step xs (snd (step Op_close ob))))"
  using run_inactive [OF close_inactive] by blast

end

fun session_step :: "session_op \<Rightarrow> session \<times> kernel \<Rightarrow> bool \<times> session \<times> kernel" where
  "session_step (Op_set u) (s, k) = (True, set_username u s, k)"
| "session_step (Op_send m) (s, k) = send_msg m s k"
| "session_step Op_close (s, k) = (True, close_session s k)"

interpretation sess: session_object session_step "get_username \<circ> fst" "username_set \<circ> fst"
  "is_active \<circ> fst"
proof unfold_locales
  show "\<not> (is_active \<circ> fst) ob \<Longrightarrow> \<not> (is_active \<circ> fst) (snd (session_step x ob))" for ob x
    by (cases ob; cases x) (auto simp: is_active_def set_username_def close_session_def send_msg_def)
  show "(username_set \<circ> fst) ob \<Longrightarrow> (username_set \<circ> fst) (snd (session_step x ob))
      \<and> (get_username \<circ> fst) (snd (session_step x ob)) = (get_username \<circ> fst) ob" for ob x
    by (cases ob; cases x) (auto simp: get_username_def set_username_def close_session_def Let_def
        send_msg_def split: prod.splits bool.splits)
qed (auto simp: set_username_def get_username_def is_active_def send_msg_def close_session_def
      Let_def split: prod.splits if_splits)

text \<open>The name a session is given first is its name ever after, whatever is called on it.\<close>

theorem username_immutable:
  assumes "\<not> username_set s"
  shows "get_username (fst (snd (run_ops session_step xs (set_username u s, k)))) = u"
proof -
  have "(get_username \<circ> fst) (snd (session_step (Op_set u) (s, k))) = u"
    by (rule sess.set_first) (use assms in simp)
  with sess.name_is_final [of xs u "(s, k)"] show ?thesis by simp
qed

theorem username_immutable_witness:
  "get_username (fst (snd (run_ops session_step [Op_set ''mallory'', Op_close, Op_set ''eve'']
      (set_username ''alice'' (mk_session 5 ''127.0.0.1''), \<lparr>socks = Map.empty, closes = []\<rparr>))))
   = ''alice''"
  by (rule username_immutable) (simp add: mk_session_def)

subsection \<open>The descriptor of a session\<close>

definition owned_fd :: "session \<Rightarrow> int list" where
  "owned_fd s = (if 0 \<le> get_fd s then [get_fd s] else [])"

lemma send_from_closes: "send_from f d t k = (ok, k') \<Longrightarrow> closes k' = closes k"
proof (induction f d t k rule: send_from.induct)
  case (1 f buf t k)
  obtain r k1 where s: "sys_send f (drop t buf) k = (r, k1)" by force
  then have "closes k1 = closes k" using sys_send_frame(1) [of f "drop t buf" k] by simp
  with 1 s show ?case
    by (subst (asm) (2) send_from.simps)
       (auto split: if_splits send_res.splits nat.splits)
qed

lemma session_step_closes:
  "session_step x (s, k) = (r, s', k') \<Longrightarrow> closes k' @ owned_fd s' = closes k @ owned_fd s"
  by (cases x) (auto simp: set_username_def send_msg_def close_session_def owned_fd_def get_fd_def
      fd_reset_def fd_shutdown_rdwr_def Let_def dest: send_from_closes
      split: if_splits prod.splits bool.splits)

lemma session_run_closes:
  "run_ops session_step xs (s, k) = (rs, s', k') \<Longrightarrow>
   closes k' @ owned_fd s' = closes k @ owned_fd s"
proof (induction xs arbitrary: s k rs)
  case (Cons x xs)
  obtain r s1 k1 where st: "session_step x (s, k) = (r, s1, k1)" by (metis prod_cases3)
  obtain rs1 where "run_ops session_step xs (s1, k1) = (rs1, s', k')"
    using Cons.prems st by (auto simp: Let_def split: prod.splits)
  from Cons.IH [OF this] session_step_closes [OF st] show ?case by simp
qed simp

lemma session_destroy_closes: "closes (session_destroy s k) = closes k @ owned_fd s"
  by (auto simp: session_destroy_def close_session_def fd_destroy_def fd_reset_def owned_fd_def
      get_fd_def fd_shutdown_rdwr_def Let_def)

text \<open>C20: whatever is called on a session, when it is destroyed its descriptor has been closed
  exactly once; in particular a failed \<open>send\<close>, after which \<open>close_session\<close> does nothing,
  leaks nothing and a closed session is not closed again.\<close>

theorem session_closes_fd_once:
  assumes "0 \<le> cfd"
    and "run_ops session_step xs (mk_session cfd ip, k) = (rs, s', k')"
  shows "closes (session_destroy s' k') = closes k @ [cfd]"
  using session_run_closes [OF assms(2)] assms(1)
  by (simp add: session_destroy_closes owned_fd_def get_fd_def mk_session_def mk_fd_def)

theorem session_closes_fd_once_witness:
  "closes (session_destroy ((mk_session 4 ''ip'')\<lparr>active := False\<rparr>)
      \<lparr>socks = [4 \<mapsto> \<lparr>rx = [], sends = [], tx = [], shut = False\<rparr>], closes = [9]\<rparr>) = [9] @ [4]"
proof -
  have "run_ops session_step [Op_send ''x'', Op_close] (mk_session 4 ''ip'',
      \<lparr>socks = [4 \<mapsto> \<lparr>rx = [], sends = [Send_err], tx = [], shut = False\<rparr>], closes = [9]\<rparr>)
    = ([False, True], (mk_session 4 ''ip'')\<lparr>active := False\<rparr>,
      \<lparr>socks = [4 \<mapsto> \<lparr>rx = [], sends = [], tx = [], shut = False\<rparr>], closes = [9]\<rparr>)"
    by (simp add: send_msg_def mk_session_def mk_fd_def send_from.simps sys_send_def Let_def
        close_session_def)
  from session_closes_fd_once [OF _ this] show ?thesis by simp
qed

end
