(* ===== verification/Session_Store.thy ===== *)
theory Session_Store
  imports Session
begin

text \<open>
  The heap of \<open>Session\<close> objects. The server's managers and handlers hold \<open>ISession*\<close>
  pointers; a method call through one follows it into the heap. Following a null or dangling
  pointer is undefined behaviour, and has the result \<open>None\<close>; the safety theorems of the
  other theories say where it cannot happen.
\<close>

type_synonym ptr = nat

abbreviation (input) nullptr :: ptr where "nullptr \<equiv> 0"

record store =
  kern :: kernel
  heap :: "ptr \<rightharpoonup> session"

definition live :: "store \<Rightarrow> ptr \<Rightarrow> bool" where
  "live st p \<longleftrightarrow> heap st p \<noteq> None"

subsection \<open>Method calls through a pointer\<close>

definition call_send_msg :: "ptr \<Rightarrow> string \<Rightarrow> store \<Rightarrow> (bool \<times> store) option" where
  "call_send_msg p msg st = do {
     s \<leftarrow> heap st p;
     let (ok, s', k') = send_msg msg s (kern st);
     Some (ok, st\<lparr>kern := k', heap := (heap st)(p \<mapsto> s')\<rparr>)
   }"

definition call_close :: "ptr \<Rightarrow> store \<Rightarrow> store option" where
  "call_close p st = do {
     s \<leftarrow> heap st p;
     let (s', k') = close_session s (kern st);
     Some (st\<lparr>kern := k', heap := (heap st)(p \<mapsto> s')\<rparr>)
   }"

definition call_set_username :: "ptr \<Rightarrow> string \<Rightarrow> store \<Rightarrow> store option" where
  "call_set_username p u st = do {
     s \<leftarrow> heap st p;
     Some (st\<lparr>heap := (heap st)(p \<mapsto> set_username u s)\<rparr>)
   }"

definition call_get_username :: "ptr \<Rightarrow> store \<Rightarrow> string option" where
  "call_get_username p st = map_option get_username (heap st p)"

definition call_get_ip :: "ptr \<Rightarrow> store \<Rightarrow> string option" where
  "call_get_ip p st = map_option get_ip (heap st p)"

definition call_get_fd :: "ptr \<Rightarrow> store \<Rightarrow> int option" where
  "call_get_fd p st = map_option get_fd (heap st p)"

definition call_is_active :: "ptr \<Rightarrow> store \<Rightarrow> bool option" where
  "call_is_active p st = map_option is_active (heap st p)"

text \<open>\<open>new Session(...)\<close> at a fresh address, and \<open>delete\<close> (of a null pointer: nothing).\<close>

definition new_session :: "ptr \<Rightarrow> int \<Rightarrow> string \<Rightarrow> store \<Rightarrow> store" where
  "new_session p cfd ip st = st\<lparr>heap := (heap st)(p \<mapsto> mk_session cfd ip)\<rparr>"

definition delete_session :: "ptr \<Rightarrow> store \<Rightarrow> store option" where
  "delete_session p st =
     (if p = nullptr then Some st
      else do {
        s \<leftarrow> heap st p;
        Some (st\<lparr>kern := session_destroy s (kern st), heap := (heap st)(p := None)\<rparr>)
      })"

lemmas call_defs = call_send_msg_def call_close_def call_set_username_def call_get_username_def
  call_get_ip_def call_get_fd_def call_is_active_def

subsection \<open>The calls on a live pointer\<close>

lemma call_send_msg_live: "live st p \<Longrightarrow> \<exists>ok st'. call_send_msg p msg st = Some (ok, st')"
  by (auto simp: live_def call_send_msg_def split: prod.splits)

lemma call_close_live: "live st p \<Longrightarrow> \<exists>st'. call_close p st = Some st'"
  by (auto simp: live_def call_close_def split: prod.splits)

lemma call_set_username_live: "live st p \<Longrightarrow> \<exists>st'. call_set_username p u st = Some st'"
  by (auto simp: live_def call_set_username_def)

lemma call_dangling [simp]:
  "heap st p = None \<Longrightarrow> call_send_msg p msg st = None"
  "heap st p = None \<Longrightarrow> call_close p st = None"
  "heap st p = None \<Longrightarrow> call_get_username p st = None"
  "heap st p = None \<Longrightarrow> call_is_active p st = None"
  by (simp_all add: call_defs)

text \<open>
  What a call leaves as it was. \<open>same_ids\<close> relates two stores with the same live pointers,
  descriptors, addresses and names, where no inactive session has become active: every
  \<open>send_msg\<close> keeps it.
\<close>

definition same_id :: "session \<Rightarrow> session \<Rightarrow> bool" where
  "same_id s s' \<longleftrightarrow> client_fd s' = client_fd s \<and> ip_addr s' = ip_addr s \<and> username s' = username s
     \<and> username_set s' = username_set s \<and> (active s' \<longrightarrow> active s)"

definition same_ids :: "store \<Rightarrow> store \<Rightarrow> bool" where
  "same_ids st st' \<longleftrightarrow> (\<forall>p. rel_option same_id (heap st p) (heap st' p))"

lemma same_id_refl [simp]: "same_id s s"
  by (simp add: same_id_def)

lemma same_id_trans: "same_id a b \<Longrightarrow> same_id b c \<Longrightarrow> same_id a c"
  by (simp add: same_id_def)

lemma same_ids_refl [simp]: "same_ids st st"
  by (simp add: same_ids_def option.rel_refl)

lemma rel_same_id_trans:
  "rel_option same_id x y \<Longrightarrow> rel_option same_id y z \<Longrightarrow> rel_option same_id x z"
  by (cases x; cases y; cases z) (auto intro: same_id_trans)

lemma same_ids_trans: "same_ids a b \<Longrightarrow> same_ids b c \<Longrightarrow> same_ids a c"
  unfolding same_ids_def by (blast intro: rel_same_id_trans)

lemma same_ids_at: "same_ids st st' \<Longrightarrow> rel_option same_id (heap st p) (heap st' p)"
  by (simp add: same_ids_def)

lemma same_ids_live: "same_ids st st' \<Longrightarrow> live st' p = live st p"
  using same_ids_at [of st st' p] by (cases "heap st p"; cases "heap st' p") (auto simp: live_def)

lemma same_ids_heap:
  "same_ids st st' \<Longrightarrow> heap st p = Some s \<Longrightarrow> \<exists>s'. heap st' p = Some s' \<and> same_id s s'"
  using same_ids_at [of st st' p] by (cases "heap st' p") auto

lemma same_ids_get:
  assumes "same_ids st st'"
  shows "call_get_username p st' = call_get_username p st"
    and "call_get_ip p st' = call_get_ip p st" and "call_get_fd p st' = call_get_fd p st"
proof -
  from assms have r: "rel_option same_id (heap st p) (heap st' p)"
    by (rule same_ids_at)
  then show "call_get_username p st' = call_get_username p st"
    "call_get_ip p st' = call_get_ip p st" "call_get_fd p st' = call_get_fd p st"
    by (cases "heap st p"; cases "heap st' p";
        auto simp: call_defs same_id_def get_username_def get_ip_def get_fd_def)+
qed

lemma same_ids_upd:
  "heap st p = Some s \<Longrightarrow> same_id s s' \<Longrightarrow> same_ids st (st\<lparr>kern := k, heap := (heap st)(p \<mapsto> s')\<rparr>)"
  by (simp add: same_ids_def option.rel_refl)

lemma send_msg_same_id: "send_msg msg s k = (ok, s', k') \<Longrightarrow> same_id s s'"
  by (drule send_msg_session) (simp add: same_id_def)

lemma call_send_msg_SomeE:
  assumes "call_send_msg p msg st = Some (ok, st')"
  obtains s s' k' where "heap st p = Some s" "send_msg msg s (kern st) = (ok, s', k')"
    "st' = st\<lparr>kern := k', heap := (heap st)(p \<mapsto> s')\<rparr>"
proof -
  from assms obtain s where s: "heap st p = Some s" by (auto simp: call_send_msg_def bind_Some_iff)
  obtain ok' s' k' where "send_msg msg s (kern st) = (ok', s', k')" by (metis prod_cases3)
  with s assms show thesis by (intro that [of s s' k']) (auto simp: call_send_msg_def)
qed

lemma call_send_msg_same_ids: "call_send_msg p msg st = Some (ok, st') \<Longrightarrow> same_ids st st'"
  by (erule call_send_msg_SomeE) (auto intro: same_ids_upd send_msg_same_id)

subsection \<open>Two users\<close>

text \<open>A concrete store: alice at address 1 on descriptor 4, bob at 2 on 5, a newcomer at 3 on 6.\<close>

definition open_socket :: "string \<Rightarrow> socket" where
  "open_socket input = \<lparr>rx = map Got input, sends = [], tx = [], shut = False\<rparr>"

definition demo_kernel :: kernel where
  "demo_kernel = \<lparr>socks = [4 \<mapsto> open_socket [], 5 \<mapsto> open_socket [], 6 \<mapsto> open_socket []], closes = []\<rparr>"

definition demo_store :: store where
  "demo_store = \<lparr>kern = demo_kernel,
     heap = [1 \<mapsto> set_username ''alice'' (mk_session 4 ''10.0.0.1''),
             2 \<mapsto> set_username ''bob'' (mk_session 5 ''10.0.0.2''),
             3 \<mapsto> mk_session 6 ''10.0.0.3'']\<rparr>"

lemma demo_kern: "kern demo_store = demo_kernel"
  by (simp add: demo_store_def)

lemma demo_sessions:
  "heap demo_store (Suc 0) = Some \<lparr>client_fd = \<lparr>fd = 4\<rparr>, ip_addr = ''10.0.0.1'', username = ''alice'',
     username_set = True, active = True\<rparr>"
  "heap demo_store 2 = Some \<lparr>client_fd = \<lparr>fd = 5\<rparr>, ip_addr = ''10.0.0.2'', username = ''bob'',
     username_set = True, active = True\<rparr>"
  "heap demo_store 3 = Some \<lparr>client_fd = \<lparr>fd = 6\<rparr>, ip_addr = ''10.0.0.3'',
     username = ''(unauthenticated)'', username_set = False, active = True\<rparr>"
  "p \<noteq> Suc 0 \<Longrightarrow> p \<noteq> 2 \<Longrightarrow> p \<noteq> 3 \<Longrightarrow> heap demo_store p = None"
  by (simp_all add: demo_store_def set_username_def mk_session_def mk_fd_def)

lemma demo_live [simp]: "live demo_store p \<longleftrightarrow> p = Suc 0 \<or> p = 2 \<or> p = 3"
  by (cases "p = Suc 0 \<or> p = 2 \<or> p = 3") (auto simp: live_def demo_sessions)

lemma demo_calls [simp]:
  "call_get_username (Suc 0) demo_store = Some ''alice''" "call_get_username 2 demo_store = Some ''bob''"
  "call_get_username 3 demo_store = Some ''(unauthenticated)''"
  "call_get_fd (Suc 0) demo_store = Some 4" "call_get_fd 2 demo_store = Some 5"
  "call_get_fd 3 demo_store = Some 6"
  "call_is_active (Suc 0) demo_store = Some True" "call_is_active 2 demo_store = Some True"
  "call_is_active 3 demo_store = Some True"
  by (simp_all add: call_defs demo_sessions get_username_def get_fd_def is_active_def)

end
