(* ===== verification/Broadcast_Manager.thy ===== *)
theory Broadcast_Manager
  imports Cipher Message Session_Store
begin

text \<open>
  \<open>include/mpcc/server/broadcast_manager.h\<close> and \<open>src/server/broadcast_manager.cpp\<close>: the
  registry of active sessions and the delivery of messages. The methods run under the
  manager's mutex, except the sends, which follow a snapshot taken under it. A method that
  follows a dead pointer has the result \<open>None\<close>.
\<close>

subsection \<open>The class\<close>

record broadcast_manager =
  clients :: "ptr list"
  by_name :: "string \<rightharpoonup> ptr"

definition mk_broadcast_manager :: broadcast_manager where
  "mk_broadcast_manager = \<lparr>clients = [], by_name = Map.empty\<rparr>"

definition add_client :: "ptr \<Rightarrow> store \<Rightarrow> broadcast_manager \<Rightarrow> broadcast_manager option" where
  "add_client p st bm =
     (let bm1 = bm\<lparr>clients := clients bm @ [p]\<rparr> in
      if p \<noteq> nullptr then do {
        u \<leftarrow> call_get_username p st;
        Some (bm1\<lparr>by_name := (by_name bm1)(u \<mapsto> p)\<rparr>)
      } else Some bm1)"

definition remove_client :: "ptr \<Rightarrow> store \<Rightarrow> broadcast_manager \<Rightarrow> broadcast_manager option" where
  "remove_client p st bm =
     (let bm1 = bm\<lparr>clients := filter (\<lambda>q. q \<noteq> p) (clients bm)\<rparr> in
      if p \<noteq> nullptr then do {
        u \<leftarrow> call_get_username p st;
        Some (if by_name bm1 u = Some p then bm1\<lparr>by_name := (by_name bm1)(u := None)\<rparr> else bm1)
      } else Some bm1)"

text \<open>The snapshot loop of \<open>broadcast\<close>: active sessions whose name is not the sender's.\<close>

fun snapshot :: "store \<Rightarrow> string \<Rightarrow> ptr list \<Rightarrow> ptr list option" where
  "snapshot st sender [] = Some []"
| "snapshot st sender (p # ps) = do {
     a \<leftarrow> call_is_active p st;
     u \<leftarrow> call_get_username p st;
     rest \<leftarrow> snapshot st sender ps;
     Some (if a \<and> u \<noteq> sender then p # rest else rest)
   }"

fun send_each :: "cipher \<Rightarrow> string \<Rightarrow> ptr list \<Rightarrow> store \<Rightarrow> store option" where
  "send_each c wire_plain [] st = Some st"
| "send_each c wire_plain (p # ps) st = do {
     let wire_enc = encrypt c wire_plain;
     (ok, st') \<leftarrow> call_send_msg p wire_enc st;
     send_each c wire_plain ps st'
   }"

definition broadcast ::
    "cipher \<Rightarrow> string \<Rightarrow> string \<Rightarrow> broadcast_manager \<Rightarrow> store \<Rightarrow> store option" where
  "broadcast c sender msg bm st = do {
     let wire_plain = serialise (make_bcast sender msg);
     snap \<leftarrow> snapshot st sender (clients bm);
     send_each c wire_plain snap st
   }"

definition pm_text :: "string \<Rightarrow> string \<Rightarrow> string" where
  "pm_text from msg = ''[PM from '' @ from @ '']: '' @ msg"

definition send_private ::
    "cipher \<Rightarrow> string \<Rightarrow> string \<Rightarrow> string \<Rightarrow> broadcast_manager \<Rightarrow> store \<Rightarrow> store option" where
  "send_private c from dest msg bm st =
     (case by_name bm dest of
        None \<Rightarrow> Some st
      | Some p \<Rightarrow>
          if p = nullptr then Some st
          else do {
            a \<leftarrow> call_is_active p st;
            if \<not> a then Some st
            else do {
              let wire_plain = serialise (make_bcast from (pm_text from msg));
              let wire_enc = encrypt c wire_plain;
              (ok, st') \<leftarrow> call_send_msg p wire_enc st;
              Some st'
            }
          })"

fun deliver :: "string \<Rightarrow> string \<Rightarrow> ptr list \<Rightarrow> store \<Rightarrow> store option" where
  "deliver wire_enc sender [] st = Some st"
| "deliver wire_enc sender (p # ps) st =
     (if p = nullptr then deliver wire_enc sender ps st
      else do {
        a \<leftarrow> call_is_active p st;
        u \<leftarrow> call_get_username p st;
        if \<not> a \<or> u = sender then deliver wire_enc sender ps st
        else do {
          (ok, st') \<leftarrow> call_send_msg p wire_enc st;
          deliver wire_enc sender ps st'
        }
      })"

definition broadcast_to_recipients ::
    "cipher \<Rightarrow> string \<Rightarrow> string \<Rightarrow> ptr list \<Rightarrow> store \<Rightarrow> store option" where
  "broadcast_to_recipients c sender msg recipients st =
     (let wire_plain = serialise (make_bcast sender msg);
          wire_enc = encrypt c wire_plain
      in deliver wire_enc sender recipients st)"

definition client_count :: "broadcast_manager \<Rightarrow> nat" where
  "client_count bm = length (clients bm)"

fun close_each :: "ptr list \<Rightarrow> store \<Rightarrow> store option" where
  "close_each [] st = Some st"
| "close_each (p # ps) st =
     (if p = nullptr then close_each ps st
      else do {
        a \<leftarrow> call_is_active p st;
        st' \<leftarrow> (if a then call_close p st else Some st);
        close_each ps st'
      })"

definition shutdown_all ::
    "broadcast_manager \<Rightarrow> store \<Rightarrow> (broadcast_manager \<times> store) option" where
  "shutdown_all bm st = do {
     st' \<leftarrow> close_each (clients bm) st;
     Some (bm\<lparr>clients := [], by_name := Map.empty\<rparr>, st')
   }"

subsection \<open>The invariant\<close>

text \<open>
  Every registered pointer is live, none is registered twice, and the name index leads to
  registered sessions under their own, already fixed, names.
\<close>

definition store_wf :: "store \<Rightarrow> bool" where
  "store_wf st \<longleftrightarrow> heap st nullptr = None"

definition bm_wf :: "broadcast_manager \<Rightarrow> store \<Rightarrow> bool" where
  "bm_wf bm st \<longleftrightarrow>
     (\<forall>p \<in> set (clients bm). live st p) \<and> distinct (clients bm)
     \<and> (\<forall>n p. by_name bm n = Some p \<longrightarrow> p \<in> set (clients bm) \<and> call_get_username p st = Some n)"

lemma bm_wf_mk [simp]: "bm_wf mk_broadcast_manager st"
  by (simp add: bm_wf_def mk_broadcast_manager_def)

lemma bm_wf_same_ids [wf_intros]: "bm_wf bm st \<Longrightarrow> same_ids st st' \<Longrightarrow> bm_wf bm st'"
  by (simp add: bm_wf_def same_ids_live same_ids_get)

lemma live_get: "live st p \<Longrightarrow> \<exists>u. call_get_username p st = Some u"
  "live st p \<Longrightarrow> \<exists>a. call_is_active p st = Some a"
  by (auto simp: live_def call_defs)

lemma store_wf_live: "store_wf st \<Longrightarrow> live st p \<Longrightarrow> p \<noteq> nullptr"
  by (cases "p = nullptr") (auto simp: store_wf_def live_def)

lemma add_client_wf:
  assumes "bm_wf bm st" "store_wf st" "live st p" "p \<notin> set (clients bm)"
  shows "\<exists>bm' u. call_get_username p st = Some u \<and> add_client p st bm = Some bm' \<and> bm_wf bm' st
      \<and> clients bm' = clients bm @ [p] \<and> by_name bm' = (by_name bm)(u \<mapsto> p)"
  using assms live_get(1) [OF assms(3)] store_wf_live [OF assms(2,3)]
  by (auto simp: add_client_def bm_wf_def)

lemma remove_client_wf:
  assumes "bm_wf bm st" "store_wf st" "live st p"
  shows "\<exists>bm'. remove_client p st bm = Some bm' \<and> bm_wf bm' st
      \<and> set (clients bm') = set (clients bm) - {p} \<and> p \<notin> ran (by_name bm')
      \<and> (\<forall>n q. q \<noteq> p \<longrightarrow> (by_name bm' n = Some q) = (by_name bm n = Some q))"
proof -
  obtain u where u: "call_get_username p st = Some u" using live_get(1) [OF assms(3)] by blast
  let ?cs = "filter (\<lambda>q. q \<noteq> p) (clients bm)"
  let ?bn = "if by_name bm u = Some p then (by_name bm)(u := None) else by_name bm"
  let ?bm' = "bm\<lparr>clients := ?cs, by_name := ?bn\<rparr>"
  have r: "remove_client p st bm = Some ?bm'"
    using u store_wf_live [OF assms(2,3)] by (cases bm) (simp add: remove_client_def Let_def)
  have bn: "?bn n = Some q \<longleftrightarrow> q \<noteq> p \<and> by_name bm n = Some q" for n q
    using assms(1) u by (cases "n = u") (auto simp: bm_wf_def)
  have "bm_wf ?bm' st"
    using assms(1) bn unfolding bm_wf_def by (simp, blast)
  with r bn show ?thesis by (intro exI [of _ ?bm']) (simp add: ran_def, blast)
qed

subsection \<open>What a send through a pointer does\<close>

text \<open>
  \<open>fd_of\<close> is the descriptor a pointer's session owns, \<open>out_of\<close> what has been transmitted on a
  descriptor. \<open>got\<close>: after the step, \<open>p\<close>'s descriptor has been sent a prefix of the frame,
  and all of it if the session is still active.
\<close>

definition fd_of :: "store \<Rightarrow> ptr \<Rightarrow> int option" where
  "fd_of st p = call_get_fd p st"

definition out_of :: "store \<Rightarrow> int \<Rightarrow> string option" where
  "out_of st f = map_option tx (socks (kern st) f)"

definition got :: "string \<Rightarrow> store \<Rightarrow> ptr \<Rightarrow> store \<Rightarrow> bool" where
  "got frame st p st' \<longleftrightarrow>
     (\<exists>f sent rest. fd_of st p = Some f \<and> frame = sent @ rest
        \<and> out_of st' f = map_option (\<lambda>t. t @ sent) (out_of st f)
        \<and> (call_is_active p st' = Some True \<longrightarrow> rest = []))"

text \<open>Which sessions a delivery reaches: the active ones under another name than the sender's.\<close>

definition wants :: "store \<Rightarrow> string \<Rightarrow> ptr \<Rightarrow> bool" where
  "wants st sender p \<longleftrightarrow>
     (\<exists>s. heap st p = Some s \<and> active s \<and> username s \<noteq> sender)"

text \<open>No two active sessions share a descriptor.\<close>

definition fds_distinct :: "store \<Rightarrow> bool" where
  "fds_distinct st \<longleftrightarrow>
     (\<forall>p q f. call_is_active p st = Some True \<and> call_is_active q st = Some True
        \<and> fd_of st p = Some f \<and> fd_of st q = Some f \<longrightarrow> p = q)"

lemma fd_of_same_ids: "same_ids st st' \<Longrightarrow> fd_of st' p = fd_of st p"
  by (simp add: fd_of_def same_ids_get)

lemma same_ids_active:
  "same_ids st st' \<Longrightarrow> call_is_active p st' = Some True \<Longrightarrow> call_is_active p st = Some True"
  using same_ids_at [of st st' p]
  by (cases "heap st p"; cases "heap st' p") (auto simp: call_is_active_def is_active_def same_id_def)

lemma fds_distinct_same_ids [wf_intros]: "fds_distinct st \<Longrightarrow> same_ids st st' \<Longrightarrow> fds_distinct st'"
  unfolding fds_distinct_def fd_of_same_ids by (blast dest: same_ids_active)

lemma store_wf_same_ids [wf_intros]: "store_wf st \<Longrightarrow> same_ids st st' \<Longrightarrow> store_wf st'"
  using same_ids_live [of st st' nullptr] by (simp add: store_wf_def live_def)

lemma sent_upto_out:
  "sent_upto f d k k' \<Longrightarrow> map_option tx (socks k' f) = map_option (\<lambda>t. t @ d) (map_option tx (socks k f))"
  by (simp add: sent_upto_def option.map_comp o_def)

lemma send_msg_sent:
  assumes "send_msg msg s k = (ok, s', k')"
  obtains sent rest where "msg = sent @ rest" "sent_upto (fd (client_fd s)) sent k k'"
    "active s' \<longrightarrow> active s \<and> rest = []"
proof (cases "active s")
  case False
  with assms show ?thesis
    by (intro that [of "[]" msg]) (auto simp: send_msg_def sent_upto_def)
next
  case True
  with assms have "send_from (fd (client_fd s)) msg 0 k = (ok, k')"
    and s': "s' = (if ok then s else s\<lparr>active := False\<rparr>)"
    by (auto simp: send_msg_def split: prod.splits bool.splits)
  from server_send.split_sent [OF this(1)] obtain sent rest
    where "msg = sent @ rest" "sent_upto (fd (client_fd s)) sent k k'" "ok \<longleftrightarrow> rest = []" by blast
  with s' True show ?thesis by (intro that [of sent rest]) auto
qed

lemma call_send_msg_got:
  assumes "call_send_msg p msg st = Some (ok, st')"
  shows "got msg st p st'"
    and "fd_of st p \<noteq> Some f \<Longrightarrow> out_of st' f = out_of st f"
    and "q \<noteq> p \<Longrightarrow> heap st' q = heap st q"
proof -
  from assms obtain s s' k' where s: "heap st p = Some s" "send_msg msg s (kern st) = (ok, s', k')"
    "st' = st\<lparr>kern := k', heap := (heap st)(p \<mapsto> s')\<rparr>" by (rule call_send_msg_SomeE)
  from s(2) obtain sent rest where u: "msg = sent @ rest"
    "sent_upto (fd (client_fd s)) sent (kern st) k'" "active s' \<longrightarrow> active s \<and> rest = []"
    by (rule send_msg_sent)
  have f: "fd_of st p = Some (fd (client_fd s))"
    using s(1) by (simp add: fd_of_def call_get_fd_def get_fd_def)
  show "got msg st p st'"
    unfolding got_def using f u s(3) sent_upto_out [OF u(2)]
    by (intro exI [of _ "fd (client_fd s)"] exI [of _ sent] exI [of _ rest])
       (auto simp: out_of_def call_is_active_def is_active_def)
  show "out_of st' f = out_of st f" if "fd_of st p \<noteq> Some f"
    using that f u(2) s(3) by (simp add: out_of_def sent_upto_def)
  show "heap st' q = heap st q" if "q \<noteq> p" using that s(3) by simp
qed

text \<open>One frame delivered to a set of sessions, and to nobody else.\<close>

definition delivery :: "string \<Rightarrow> store \<Rightarrow> ptr set \<Rightarrow> store \<Rightarrow> bool" where
  "delivery frame st R st' \<longleftrightarrow>
     same_ids st st' \<and> (\<forall>p \<in> R. got frame st p st')
     \<and> (\<forall>f. (\<forall>p \<in> R. fd_of st p \<noteq> Some f) \<longrightarrow> out_of st' f = out_of st f)
     \<and> (\<forall>q. q \<notin> R \<longrightarrow> heap st' q = heap st q)"

lemma delivery_none [simp]: "delivery frame st {} st"
  by (simp add: delivery_def)

lemma delivery_one:
  "call_send_msg p frame st = Some (ok, st') \<Longrightarrow> delivery frame st {p} st'"
  using call_send_msg_same_ids [of p frame st ok st'] call_send_msg_got [of p frame st ok st']
  by (auto simp: delivery_def)

lemma wants_live: "wants st sender p \<Longrightarrow> live st p \<and> call_is_active p st = Some True"
  by (auto simp: wants_def live_def call_is_active_def is_active_def)

lemma wants_heap: "heap st' p = heap st p \<Longrightarrow> wants st' sender p = wants st sender p"
  by (simp add: wants_def)

lemma delivery_two:
  assumes d1: "delivery frame st {p} st1" and d2: "delivery frame st1 R st2" and "p \<notin> R"
    and apart: "\<And>q f. q \<in> R \<Longrightarrow> fd_of st p = Some f \<Longrightarrow> fd_of st q \<noteq> Some f"
  shows "delivery frame st (insert p R) st2"
proof -
  have ids: "same_ids st st1" "same_ids st st2"
    using d1 d2 same_ids_trans by (auto simp: delivery_def)
  have fds: "fd_of st1 q = fd_of st q" for q by (rule fd_of_same_ids [OF ids(1)])
  have "got frame st p st2"
  proof -
    from d1 obtain f sent rest where g: "fd_of st p = Some f" "frame = sent @ rest"
      "out_of st1 f = map_option (\<lambda>t. t @ sent) (out_of st f)"
      "call_is_active p st1 = Some True \<longrightarrow> rest = []" by (auto simp: delivery_def got_def)
    from apart [OF _ g(1)] d2 have "out_of st2 f = out_of st1 f" by (auto simp: delivery_def fds)
    moreover from d2 \<open>p \<notin> R\<close> have "heap st2 p = heap st1 p" by (auto simp: delivery_def)
    ultimately show ?thesis using g
      by (intro got_def [THEN iffD2] exI [of _ f] exI [of _ sent] exI [of _ rest])
         (simp add: call_is_active_def)
  qed
  moreover have "got frame st q st2" if "q \<in> R" for q
  proof -
    from d2 that have "got frame st1 q st2" by (simp add: delivery_def)
    then obtain f sent rest where g: "fd_of st q = Some f" "frame = sent @ rest"
      "out_of st2 f = map_option (\<lambda>t. t @ sent) (out_of st1 f)"
      "call_is_active q st2 = Some True \<longrightarrow> rest = []" unfolding got_def fds by blast
    from apart [OF that] g(1) d1 have "out_of st1 f = out_of st f" by (auto simp: delivery_def)
    with g show ?thesis by (auto simp: got_def)
  qed
  moreover have "out_of st2 f = out_of st f" if "\<forall>q \<in> insert p R. fd_of st q \<noteq> Some f" for f
    using that d1 d2 fds by (auto simp: delivery_def)
  ultimately show ?thesis using ids d1 d2 by (auto simp: delivery_def)
qed

lemma apart_of_active:
  assumes "fds_distinct st" "call_is_active p st = Some True"
    "\<And>q. q \<in> R \<Longrightarrow> call_is_active q st = Some True" "p \<notin> R"
  shows "q \<in> R \<Longrightarrow> fd_of st p = Some f \<Longrightarrow> fd_of st q \<noteq> Some f"
  using assms unfolding fds_distinct_def by metis

lemma send_each_delivery:
  "distinct ps \<Longrightarrow> fds_distinct st \<Longrightarrow> (\<And>p. p \<in> set ps \<Longrightarrow> wants st sender p) \<Longrightarrow>
   \<exists>st'. send_each c w ps st = Some st' \<and> delivery (encrypt c w) st (set ps) st'"
proof (induction ps arbitrary: st)
  case (Cons p ps)
  have act: "q \<in> set (p # ps) \<Longrightarrow> call_is_active q st = Some True" for q
    using Cons.prems(3) wants_live by blast
  have "live st p" using wants_live [OF Cons.prems(3) [of p]] by simp
  then obtain ok st1 where s: "call_send_msg p (encrypt c w) st = Some (ok, st1)"
    using call_send_msg_live by blast
  note d1 = delivery_one [OF s]
  have w1: "wants st1 sender q" if "q \<in> set ps" for q
  proof -
    from that Cons.prems(1) have "q \<noteq> p" by auto
    then have "heap st1 q = heap st q" using call_send_msg_got(3) [OF s] by simp
    from wants_heap [OF this] show ?thesis using Cons.prems(3) [of q] that by simp
  qed
  have "fds_distinct st1"
    using Cons.prems(2) call_send_msg_same_ids [OF s] by (rule fds_distinct_same_ids)
  from Cons.IH [OF _ this w1] Cons.prems(1) obtain st2
    where r: "send_each c w ps st1 = Some st2" and d2: "delivery (encrypt c w) st1 (set ps) st2"
    by auto
  have "p \<notin> set ps" using Cons.prems(1) by simp
  have "delivery (encrypt c w) st (insert p (set ps)) st2"
    by (rule delivery_two [OF d1 d2 \<open>p \<notin> set ps\<close>])
       (rule apart_of_active [OF Cons.prems(2) act act], use \<open>p \<notin> set ps\<close> in auto)
  with s r show ?case by simp
qed simp

lemma snapshot_filter:
  "(\<And>p. p \<in> set ps \<Longrightarrow> live st p) \<Longrightarrow> snapshot st sender ps = Some (filter (wants st sender) ps)"
proof (induction ps)
  case (Cons p ps)
  then have "live st p" by simp
  then obtain s where "heap st p = Some s" by (auto simp: live_def)
  with Cons show ?case
    by (auto simp: call_defs wants_def is_active_def get_username_def)
qed simp

lemma broadcast_delivery:
  assumes "bm_wf bm st" "fds_distinct st"
  shows "\<exists>st'. broadcast c sender msg bm st = Some st'
    \<and> delivery (encrypt c (serialise (make_bcast sender msg))) st
        {p \<in> set (clients bm). wants st sender p} st'"
proof -
  let ?w = "serialise (make_bcast sender msg)" and ?ps = "filter (wants st sender) (clients bm)"
  have "snapshot st sender (clients bm) = Some ?ps"
    by (rule snapshot_filter) (use assms(1) in \<open>auto simp: bm_wf_def\<close>)
  moreover have "\<exists>st'. send_each c ?w ?ps st = Some st' \<and> delivery (encrypt c ?w) st (set ?ps) st'"
    by (rule send_each_delivery [where sender = sender]) (use assms in \<open>auto simp: bm_wf_def\<close>)
  ultimately show ?thesis by (auto simp: broadcast_def)
qed

lemma deliver_delivery:
  "distinct ps \<Longrightarrow> fds_distinct st \<Longrightarrow> store_wf st \<Longrightarrow>
   (\<And>p. p \<in> set ps \<Longrightarrow> p = nullptr \<or> live st p) \<Longrightarrow>
   \<exists>st'. deliver frame sender ps st = Some st' \<and>
     delivery frame st {p \<in> set ps. wants st sender p} st'"
proof (induction ps arbitrary: st)
  case (Cons p ps)
  show ?case
  proof (cases "wants st sender p")
    case False
    then have "{q \<in> set (p # ps). wants st sender q} = {q \<in> set ps. wants st sender q}" by auto
    moreover have "deliver frame sender (p # ps) st = deliver frame sender ps st"
    proof (cases "p = nullptr")
      case False
      with Cons.prems(4) obtain s where "heap st p = Some s" by (auto simp: live_def)
      with False \<open>\<not> wants st sender p\<close> show ?thesis
        by (simp add: call_defs wants_def is_active_def get_username_def)
    qed simp
    moreover have "\<exists>st'. deliver frame sender ps st = Some st' \<and>
        delivery frame st {q \<in> set ps. wants st sender q} st'"
      by (rule Cons.IH) (use Cons.prems in auto)
    ultimately show ?thesis by simp
  next
    case True
    with Cons.prems(3) have p: "p \<noteq> nullptr" "p \<notin> set ps"
      using wants_live store_wf_live Cons.prems(1) by auto
    obtain ok st1 where s: "call_send_msg p frame st = Some (ok, st1)"
      using call_send_msg_live wants_live [OF True] by blast
    note ids = call_send_msg_same_ids [OF s]
    have h: "heap st1 q = heap st q" if "q \<in> set ps" for q
      using call_send_msg_got(3) [OF s] that p(2) by metis
    let ?R = "{q \<in> set ps. wants st sender q}"
    have R: "{q \<in> set ps. wants st1 sender q} = ?R"
      using wants_heap [OF h] by blast
    have "\<exists>st'. deliver frame sender ps st1 = Some st' \<and>
        delivery frame st1 {q \<in> set ps. wants st1 sender q} st'"
      by (rule Cons.IH)
         (use Cons.prems ids in \<open>auto simp: same_ids_live intro: fds_distinct_same_ids store_wf_same_ids\<close>)
    then obtain st2 where r: "deliver frame sender ps st1 = Some st2"
      and d2: "delivery frame st1 ?R st2" unfolding R by blast
    have act: "call_is_active p st = Some True" "\<And>q. q \<in> ?R \<Longrightarrow> call_is_active q st = Some True"
      using wants_live True by auto
    have "p \<notin> ?R" using p(2) by simp
    have "delivery frame st (insert p ?R) st2"
      by (rule delivery_two [OF delivery_one [OF s] d2 \<open>p \<notin> ?R\<close>])
         (rule apart_of_active [OF Cons.prems(2) act \<open>p \<notin> ?R\<close>])
    moreover have "insert p ?R = {q \<in> set (p # ps). wants st sender q}" using True by auto
    moreover have "deliver frame sender (p # ps) st = Some st2"
    proof -
      from True obtain x where "heap st p = Some x" "active x" "username x \<noteq> sender"
        by (auto simp: wants_def)
      with s r p(1) show ?thesis by (simp add: call_defs(4,7) is_active_def get_username_def)
    qed
    ultimately show ?thesis by auto
  qed
qed simp

text \<open>C15: a broadcast follows no dead pointer; every registered active session whose user is not
  the sender is sent the encrypted frame (a prefix if its connection fails, and then it is
  marked inactive), and every other active session, the sender's own included, nothing.\<close>

theorem broadcast_reaches_the_others:
  assumes "bm_wf bm st" and "fds_distinct st"
  shows "\<exists>st'. broadcast c sender msg bm st = Some st'
    \<and> (\<forall>p \<in> set (clients bm). wants st sender p \<longrightarrow>
          got (encrypt c (serialise (make_bcast sender msg))) st p st')
    \<and> (\<forall>p f. call_is_active p st = Some True \<and> fd_of st p = Some f
          \<and> \<not> (p \<in> set (clients bm) \<and> wants st sender p) \<longrightarrow> out_of st' f = out_of st f)
    \<and> same_ids st st'"
proof -
  from broadcast_delivery [OF assms] obtain st' where b: "broadcast c sender msg bm st = Some st'"
    and d: "delivery (encrypt c (serialise (make_bcast sender msg))) st
        {p \<in> set (clients bm). wants st sender p} st'" by blast
  have "out_of st' f = out_of st f"
    if "call_is_active p st = Some True" "fd_of st p = Some f"
      "\<not> (p \<in> set (clients bm) \<and> wants st sender p)" for p f
  proof -
    have "fd_of st q \<noteq> Some f" if q: "q \<in> set (clients bm)" "wants st sender q" for q
      using assms(2) wants_live [OF q(2)] q \<open>call_is_active p st = Some True\<close>
        \<open>fd_of st p = Some f\<close> \<open>\<not> (p \<in> set (clients bm) \<and> wants st sender p)\<close>
      unfolding fds_distinct_def by metis
    with d show ?thesis by (auto simp: delivery_def)
  qed
  with b d show ?thesis by (auto simp: delivery_def)
qed

lemma send_private_delivery:
  assumes "bm_wf bm st"
  shows "\<exists>st'. send_private c from dest msg bm st = Some st'
    \<and> delivery (encrypt c (serialise (make_bcast from (pm_text from msg)))) st
        {p. by_name bm dest = Some p \<and> p \<noteq> nullptr \<and> call_is_active p st = Some True} st'"
proof (cases "by_name bm dest")
  case None
  then show ?thesis by (simp add: send_private_def)
next
  case (Some p)
  with assms have "live st p" by (auto simp: bm_wf_def)
  then obtain a where a: "call_is_active p st = Some a" using live_get(2) by blast
  show ?thesis
  proof (cases "p \<noteq> nullptr \<and> a")
    case False
    with Some a have none:
      "{q. by_name bm dest = Some q \<and> q \<noteq> nullptr \<and> call_is_active q st = Some True} = {}" by auto
    from False Some a show ?thesis unfolding none by (auto simp: send_private_def)
  next
    case True
    let ?w = "encrypt c (serialise (make_bcast from (pm_text from msg)))"
    obtain ok st' where s: "call_send_msg p ?w st = Some (ok, st')"
      using call_send_msg_live [OF \<open>live st p\<close>] by blast
    have "{q. by_name bm dest = Some q \<and> q \<noteq> nullptr \<and> call_is_active q st = Some True} = {p}"
      using Some True a by auto
    moreover have "send_private c from dest msg bm st = Some st'"
      using Some True a s by (simp add: send_private_def)
    ultimately show ?thesis using delivery_one [OF s] by auto
  qed
qed

text \<open>C30: a private message goes to the session the name index holds for its target, if that is
  active, and to no other connection; what the target's client receives carries the sender
  twice, as the payload \<open>[from]: [PM from from]: msg\<close>.\<close>

theorem send_private_reaches_only_target:
  assumes "bm_wf bm st" and "nl \<notin> set from" and "nl \<notin> set msg" and "strip_eol msg = msg"
    and "msg \<noteq> []"
  shows "\<exists>st'. send_private c from dest msg bm st = Some st'
    \<and> (\<forall>p. by_name bm dest = Some p \<and> p \<noteq> nullptr \<and> call_is_active p st = Some True \<longrightarrow>
          got (encrypt c (serialise (make_bcast from (pm_text from msg)))) st p st')
    \<and> (\<forall>f. (\<forall>p. by_name bm dest = Some p \<longrightarrow> fd_of st p \<noteq> Some f) \<longrightarrow> out_of st' f = out_of st f)
    \<and> parse (decrypt c (encrypt c (serialise (make_bcast from (pm_text from msg)))))
        = \<lparr>msg_type = ''BCAST'', payload = ''['' @ from @ '']: [PM from '' @ from @ '']: '' @ msg\<rparr>"
proof -
  have e: "strip_eol (x @ msg) = x @ msg" for x
    using assms(4,5) strip_eol_last [of msg] by (intro strip_eol_clean) auto
  have "strip_eol (''['' @ from @ '']: [PM from '' @ from @ '']: '' @ msg)
      = ''['' @ from @ '']: [PM from '' @ from @ '']: '' @ msg"
    using e [of "''['' @ from @ '']: [PM from '' @ from @ '']: ''"] by simp
  then have "parse (serialise (make_bcast from (pm_text from msg)))
      = \<lparr>msg_type = ''BCAST'', payload = ''['' @ from @ '']: [PM from '' @ from @ '']: '' @ msg\<rparr>"
    using parse_serialise_gen [of "make_bcast from (pm_text from msg)"]
    by (simp add: make_bcast_def pm_text_def)
  with send_private_delivery [OF assms(1), of c "from" dest msg] show ?thesis
    by (auto simp: delivery_def)
qed

text \<open>The name index holds one session per name. When the same user is logged in twice and
  the later session leaves, the index entry goes with it, and private messages to the user are
  dropped although the earlier session is still registered and active.\<close>

theorem private_lost_after_second_session_leaves:
  assumes "call_get_username p st = Some n" and "call_get_username q st = Some n"
    and "p \<noteq> q" and "q \<noteq> nullptr" and "q \<notin> set (clients bm)"
    and "add_client p st bm = Some bm1" and "add_client q st bm1 = Some bm2"
    and "remove_client q st bm2 = Some bm3"
  shows "p \<in> set (clients bm3) \<and> by_name bm3 n = None
    \<and> send_private c from n msg bm3 st = Some st"
  using assms by (auto simp: add_client_def remove_client_def send_private_def Let_def
      bind_Some_iff split: if_splits)

subsection \<open>What sending leaves unchanged\<close>

text \<open>Sends change what has been transmitted and may mark sessions inactive; input, descriptors
  and the identity of the sessions stay.\<close>

definition sent_only :: "store \<Rightarrow> store \<Rightarrow> bool" where
  "sent_only st st' \<longleftrightarrow> same_ids st st' \<and> closes (kern st') = closes (kern st)
     \<and> (\<forall>f. map_option (\<lambda>s. (rx s, shut s)) (socks (kern st') f)
          = map_option (\<lambda>s. (rx s, shut s)) (socks (kern st) f))"

lemma sent_only_refl [simp]: "sent_only st st"
  by (simp add: sent_only_def)

lemma sent_only_trans: "sent_only a b \<Longrightarrow> sent_only b c \<Longrightarrow> sent_only a c"
  by (auto simp: sent_only_def intro: same_ids_trans)

lemma sent_only_same_ids: "sent_only st st' \<Longrightarrow> same_ids st st'"
  by (simp add: sent_only_def)

lemma call_send_msg_sent_only:
  assumes "call_send_msg p msg st = Some (ok, st')"
  shows "sent_only st st'"
proof -
  from assms obtain s s' k' where s: "heap st p = Some s" "send_msg msg s (kern st) = (ok, s', k')"
    "st' = st\<lparr>kern := k', heap := (heap st)(p \<mapsto> s')\<rparr>" by (rule call_send_msg_SomeE)
  from s(2) obtain sent rest where u: "sent_upto (fd (client_fd s)) sent (kern st) k'"
    by (rule send_msg_sent)
  have "map_option (\<lambda>s. (rx s, shut s)) (socks k' f)
      = map_option (\<lambda>s. (rx s, shut s)) (socks (kern st) f)" for f
    using u by (cases "f = fd (client_fd s)") (auto simp: sent_upto_def)
  with call_send_msg_same_ids [OF assms] u s(3) show ?thesis
    by (simp add: sent_only_def sent_upto_def)
qed

lemma send_each_sent_only: "send_each c w ps st = Some st' \<Longrightarrow> sent_only st st'"
proof (induction ps arbitrary: st)
  case (Cons p ps)
  then obtain ok st1 where "call_send_msg p (encrypt c w) st = Some (ok, st1)"
    "send_each c w ps st1 = Some st'" by (auto simp: bind_Some_iff)
  then show ?case using Cons.IH call_send_msg_sent_only sent_only_trans by blast
qed simp

lemma deliver_sent_only: "deliver w sender ps st = Some st' \<Longrightarrow> sent_only st st'"
proof (induction ps arbitrary: st)
  case (Cons p ps)
  show ?case
  proof (cases "deliver w sender ps st = Some st'")
    case True
    then show ?thesis by (rule Cons.IH)
  next
    case False
    with Cons.prems obtain ok st1 where "call_send_msg p w st = Some (ok, st1)"
      "deliver w sender ps st1 = Some st'" by (auto simp: bind_Some_iff split: if_splits)
    then show ?thesis using Cons.IH call_send_msg_sent_only sent_only_trans by blast
  qed
qed simp

lemma broadcast_sent_only: "broadcast c sender msg bm st = Some st' \<Longrightarrow> sent_only st st'"
  by (auto simp: broadcast_def bind_Some_iff dest: send_each_sent_only)

lemma broadcast_to_recipients_sent_only:
  "broadcast_to_recipients c sender msg ps st = Some st' \<Longrightarrow> sent_only st st'"
  by (auto simp: broadcast_to_recipients_def Let_def dest: deliver_sent_only)

lemma send_private_sent_only: "send_private c from dest msg bm st = Some st' \<Longrightarrow> sent_only st st'"
  by (auto simp: send_private_def bind_Some_iff Let_def dest: call_send_msg_sent_only
      split: option.splits if_splits)

subsection \<open>Shutting down\<close>

definition active_fds :: "store \<Rightarrow> ptr list \<Rightarrow> int list" where
  "active_fds st ps = concat (map (\<lambda>p. case heap st p of None \<Rightarrow> []
     | Some s \<Rightarrow> if active s then owned_fd s else []) ps)"

lemma close_session_closes:
  "active s \<Longrightarrow> closes (snd (close_session s k)) = closes k @ owned_fd s"
  by (auto simp: close_session_def owned_fd_def get_fd_def fd_reset_def fd_shutdown_rdwr_def Let_def)

lemma close_session_inactive: "\<not> active (fst (close_session s k))"
  by (auto simp: close_session_def Let_def split: prod.splits)

lemma call_close_Some:
  assumes "heap st p = Some s"
  shows "call_close p st = Some (st\<lparr>kern := snd (close_session s (kern st)),
      heap := (heap st)(p \<mapsto> fst (close_session s (kern st)))\<rparr>)"
  using assms by (simp add: call_close_def case_prod_beta)

lemma active_fds_heap:
  "(\<And>q. q \<in> set ps \<Longrightarrow> heap st' q = heap st q) \<Longrightarrow> active_fds st' ps = active_fds st ps"
  unfolding active_fds_def by (auto intro!: arg_cong [of _ _ concat] split: option.splits)

lemma close_each_spec:
  "distinct ps \<Longrightarrow> store_wf st \<Longrightarrow> (\<And>p. p \<in> set ps \<Longrightarrow> live st p) \<Longrightarrow>
   \<exists>st'. close_each ps st = Some st'
     \<and> (\<forall>p \<in> set ps. call_is_active p st' = Some False)
     \<and> (\<forall>q. q \<notin> set ps \<longrightarrow> heap st' q = heap st q)
     \<and> closes (kern st') = closes (kern st) @ active_fds st ps
     \<and> (\<forall>q. call_get_username q st' = call_get_username q st)"
proof (induction ps arbitrary: st)
  case Nil
  show ?case by (simp add: active_fds_def)
next
  case (Cons p ps)
  from Cons.prems(3) obtain s where s: "heap st p = Some s" by (auto simp: live_def)
  have p: "p \<noteq> nullptr" "p \<notin> set ps"
    using Cons.prems(1) store_wf_live [OF Cons.prems(2), of p] s by (auto simp: live_def)
  define st1 where "st1 = (if active s then the (call_close p st) else st)"
  have st1: "heap st1 q = heap st q" if "q \<noteq> p" for q
    using that s by (simp add: st1_def call_close_Some)
  have act1: "call_is_active p st1 = Some False"
    using s close_session_inactive [of s "kern st"]
    by (simp add: st1_def call_close_Some call_is_active_def is_active_def)
  have name1: "call_get_username q st1 = call_get_username q st" for q
    using s by (simp add: st1_def call_close_Some call_get_username_def get_username_def
        close_session_def Let_def case_prod_unfold)
  have cl1: "closes (kern st1) = closes (kern st) @ (if active s then owned_fd s else [])"
    using s by (simp add: st1_def call_close_Some close_session_closes)
  have step: "close_each (p # ps) st = close_each ps st1"
    using p s by (simp add: st1_def call_close_Some call_is_active_def is_active_def)
  have "store_wf st1" using Cons.prems(2) st1 [of nullptr] p by (simp add: store_wf_def)
  moreover have "live st1 q" if "q \<in> set ps" for q
    using that Cons.prems(3) [of q] st1 [of q] p(2) by (cases "q = p") (auto simp: live_def)
  ultimately obtain st' where r: "close_each ps st1 = Some st'"
    "\<forall>q \<in> set ps. call_is_active q st' = Some False" "\<forall>q. q \<notin> set ps \<longrightarrow> heap st' q = heap st1 q"
    "closes (kern st') = closes (kern st1) @ active_fds st1 ps"
    "\<forall>q. call_get_username q st' = call_get_username q st1"
    using Cons.IH [of st1] Cons.prems(1) by auto
  have "active_fds st1 ps = active_fds st ps"
    by (rule active_fds_heap) (use st1 p(2) in metis)
  moreover have "active_fds st (p # ps) = (if active s then owned_fd s else []) @ active_fds st ps"
    using s by (simp add: active_fds_def)
  moreover have "call_is_active p st' = Some False"
    using r(3) p(2) act1 by (simp add: call_is_active_def)
  moreover have "heap st' q = heap st q" if "q \<notin> set (p # ps)" for q
    using that r(3) st1 by simp
  ultimately show ?case using r step cl1 name1 by auto
qed

text \<open>C29: \<open>shutdown_all\<close> empties the registry, leaves every session that was registered
  inactive, and closes the descriptor of each of them that was active, once.\<close>

theorem shutdown_all_closes_every_client:
  assumes "bm_wf bm st" and "store_wf st"
  shows "\<exists>bm' st'. shutdown_all bm st = Some (bm', st') \<and> client_count bm' = 0
    \<and> by_name bm' = Map.empty
    \<and> (\<forall>p \<in> set (clients bm). call_is_active p st' = Some False)
    \<and> closes (kern st') = closes (kern st) @ active_fds st (clients bm)"
  using close_each_spec [of "clients bm" st] assms
  by (auto simp: shutdown_all_def bm_wf_def client_count_def)

subsection \<open>What the users of \<open>IBroadcast\<close> rely on\<close>

text \<open>
  \<open>RoomManager\<close> hands \<open>broadcast_to_recipients\<close> a list of session pointers. It relies on this:
  given live (or null) pointers the call is defined, it touches no connection outside the
  list, and it keeps the identity of all sessions, so that the registries stay well-formed.
\<close>

locale recipient_broadcast =
  fixes bcast :: "string \<Rightarrow> string \<Rightarrow> ptr list \<Rightarrow> store \<Rightarrow> store option"
    and frame :: "string \<Rightarrow> string \<Rightarrow> string"
  assumes bcast_delivers: "distinct ps \<Longrightarrow> fds_distinct st \<Longrightarrow> store_wf st \<Longrightarrow>
      (\<And>p. p \<in> set ps \<Longrightarrow> p = nullptr \<or> live st p) \<Longrightarrow>
      \<exists>st'. bcast sender msg ps st = Some st'
        \<and> delivery (frame sender msg) st {p \<in> set ps. wants st sender p} st'"
begin

text \<open>Nobody outside the list is sent anything, and the sender is not sent the own message.\<close>

lemma outsiders_untouched:
  assumes "distinct ps" "fds_distinct st" "store_wf st"
    "\<And>p. p \<in> set ps \<Longrightarrow> p = nullptr \<or> live st p"
    and "call_is_active q st = Some True" "fd_of st q = Some f"
    and "q \<notin> set ps \<or> call_get_username q st = Some sender"
  shows "\<exists>st'. bcast sender msg ps st = Some st' \<and> out_of st' f = out_of st f \<and> same_ids st st'"
proof -
  obtain st' where b: "bcast sender msg ps st = Some st'"
    and d: "delivery (frame sender msg) st {p \<in> set ps. wants st sender p} st'"
    using bcast_delivers [OF assms(1-4)] by blast
  have nq: "\<not> (q \<in> set ps \<and> wants st sender q)"
    using assms(7) by (auto simp: wants_def call_get_username_def get_username_def)
  have "fd_of st p \<noteq> Some f" if p: "p \<in> set ps" "wants st sender p" for p
    using assms(2,5,6) wants_live [OF p(2)] nq p unfolding fds_distinct_def by metis
  with b d show ?thesis by (auto simp: delivery_def)
qed

end

interpretation bm: recipient_broadcast "broadcast_to_recipients c"
  "\<lambda>sender msg. encrypt c (serialise (make_bcast sender msg))" for c :: cipher
  by unfold_locales (simp add: broadcast_to_recipients_def deliver_delivery)

subsection \<open>The manager at work\<close>

definition demo_bm :: broadcast_manager where
  "demo_bm = \<lparr>clients = [1, 2], by_name = [''alice'' \<mapsto> 1, ''bob'' \<mapsto> 2]\<rparr>"

lemma demo_store_wf: "store_wf demo_store"
  using demo_sessions(4) [of nullptr] by (simp add: store_wf_def)

lemma demo_active: "call_is_active p demo_store = Some True \<Longrightarrow> p = Suc 0 \<or> p = 2 \<or> p = 3"
  by (rule demo_live [THEN iffD1]) (auto simp: call_is_active_def live_def)

lemma demo_fds_distinct: "fds_distinct demo_store"
  by (auto simp: fds_distinct_def fd_of_def dest!: demo_active)

lemma demo_bm_wf: "bm_wf demo_bm demo_store"
  by (auto simp: bm_wf_def demo_bm_def split: if_splits)

lemma demo_wants [simp]:
  "wants demo_store s (Suc 0) \<longleftrightarrow> s \<noteq> ''alice''" "wants demo_store s 2 \<longleftrightarrow> s \<noteq> ''bob''"
  by (auto simp: wants_def demo_sessions)

theorem broadcast_reaches_the_others_witness:
  "\<exists>st'. broadcast default_cipher ''alice'' ''hi'' demo_bm demo_store = Some st'
    \<and> got (encrypt default_cipher (serialise (make_bcast ''alice'' ''hi''))) demo_store 2 st'
    \<and> out_of st' 4 = out_of demo_store 4"
proof -
  from broadcast_reaches_the_others [OF demo_bm_wf demo_fds_distinct, of default_cipher "''alice''" "''hi''"]
  obtain st' where b: "broadcast default_cipher ''alice'' ''hi'' demo_bm demo_store = Some st'"
    "\<forall>p \<in> set (clients demo_bm). wants demo_store ''alice'' p \<longrightarrow>
        got (encrypt default_cipher (serialise (make_bcast ''alice'' ''hi''))) demo_store p st'"
    "\<forall>p f. call_is_active p demo_store = Some True \<and> fd_of demo_store p = Some f
        \<and> \<not> (p \<in> set (clients demo_bm) \<and> wants demo_store ''alice'' p) \<longrightarrow> out_of st' f = out_of demo_store f"
    by blast
  from b(2) [rule_format, of 2] b(3) [rule_format, of 1 4] b(1) show ?thesis
    by (simp add: demo_bm_def fd_of_def)
qed

theorem send_private_reaches_only_target_witness:
  "\<exists>st'. send_private default_cipher ''alice'' ''bob'' ''psst'' demo_bm demo_store = Some st'
    \<and> got (encrypt default_cipher (serialise (make_bcast ''alice'' (pm_text ''alice'' ''psst''))))
          demo_store 2 st'
    \<and> out_of st' 4 = out_of demo_store 4"
proof -
  obtain st' where b: "send_private default_cipher ''alice'' ''bob'' ''psst'' demo_bm demo_store = Some st'"
    "\<forall>p. by_name demo_bm ''bob'' = Some p \<and> p \<noteq> nullptr \<and> call_is_active p demo_store = Some True \<longrightarrow>
        got (encrypt default_cipher (serialise (make_bcast ''alice'' (pm_text ''alice'' ''psst''))))
          demo_store p st'"
    "\<forall>f. (\<forall>p. by_name demo_bm ''bob'' = Some p \<longrightarrow> fd_of demo_store p \<noteq> Some f) \<longrightarrow>
        out_of st' f = out_of demo_store f"
    using send_private_reaches_only_target [OF demo_bm_wf, of "''alice''" "''psst''" default_cipher "''bob''"]
    by (auto simp: strip_eol_clean)
  from b(2) [rule_format, of 2] b(3) [rule_format, of 4] b(1) show ?thesis
    by (simp add: demo_bm_def fd_of_def)
qed

theorem private_lost_after_second_session_leaves_witness:
  "send_private default_cipher ''bob'' ''alice'' ''hi'' \<lparr>clients = [1], by_name = Map.empty\<rparr>
     (demo_store\<lparr>heap := (heap demo_store)(3 := heap demo_store 1)\<rparr>)
   = Some (demo_store\<lparr>heap := (heap demo_store)(3 := heap demo_store 1)\<rparr>)"
proof -
  define st where "st = demo_store\<lparr>heap := (heap demo_store)(3 := heap demo_store 1)\<rparr>"
  have n: "call_get_username (Suc 0) st = Some ''alice''" "call_get_username 3 st = Some ''alice''"
    by (simp_all add: st_def call_get_username_def get_username_def demo_sessions)
  have "1 \<in> set (clients \<lparr>clients = [1], by_name = Map.empty\<rparr>)
      \<and> by_name \<lparr>clients = [1], by_name = Map.empty\<rparr> ''alice'' = None
      \<and> send_private default_cipher ''bob'' ''alice'' ''hi'' \<lparr>clients = [1], by_name = Map.empty\<rparr> st = Some st"
    by (rule private_lost_after_second_session_leaves
          [of 1 st "''alice''" 3 mk_broadcast_manager
              "\<lparr>clients = [1], by_name = [''alice'' \<mapsto> 1]\<rparr>" "\<lparr>clients = [1, 3], by_name = [''alice'' \<mapsto> 3]\<rparr>"])
       (simp_all add: n mk_broadcast_manager_def add_client_def remove_client_def Let_def)
  then show ?thesis unfolding st_def by blast
qed

theorem shutdown_all_closes_every_client_witness:
  "\<exists>bm' st'. shutdown_all demo_bm demo_store = Some (bm', st') \<and> client_count bm' = 0
     \<and> call_is_active 2 st' = Some False \<and> closes (kern st') = [4, 5]"
  using shutdown_all_closes_every_client [OF demo_bm_wf demo_store_wf]
  by (auto simp: demo_bm_def active_fds_def demo_sessions owned_fd_def get_fd_def demo_kern demo_kernel_def)

end
