(* ===== verification/Room_Manager.thy ===== *)
theory Room_Manager
  imports Broadcast_Manager
begin

text \<open>
  \<open>include/mpcc/server/room_manager.h\<close> and \<open>src/server/room_manager.cpp\<close>: who is in which
  room. A room is a \<open>std::unordered_set\<close> of session pointers, modelled as the distinct list
  of its elements in iteration order. An insertion may reorder the set in any way (a rehash
  does): \<open>place\<close> is where the implementation puts the new element, and all theorems hold for
  every \<open>place\<close> that only permutes. Erasing keeps the order of the rest. The room table
  itself is an \<open>unordered_map\<close>; only \<open>leave_all\<close> walks it, visiting each room once, and its
  result does not depend on the order.
\<close>

subsection \<open>The class\<close>

type_synonym placement = "ptr list \<Rightarrow> ptr \<Rightarrow> ptr list"

record room_manager =
  rooms :: "string \<rightharpoonup> ptr list"

definition mk_room_manager :: room_manager where
  "mk_room_manager = \<lparr>rooms = Map.empty\<rparr>"

definition set_insert :: "placement \<Rightarrow> ptr \<Rightarrow> ptr list \<Rightarrow> ptr list" where
  "set_insert place p S = (if p \<in> set S then S else place S p)"

definition set_erase :: "ptr \<Rightarrow> ptr list \<Rightarrow> ptr list" where
  "set_erase p S = filter (\<lambda>q. q \<noteq> p) S"

definition join_room :: "placement \<Rightarrow> string \<Rightarrow> ptr \<Rightarrow> room_manager \<Rightarrow> room_manager" where
  "join_room place room p rm =
     (if p = nullptr then rm
      else let S = (case rooms rm room of None \<Rightarrow> [] | Some S \<Rightarrow> S)
           in rm\<lparr>rooms := (rooms rm)(room \<mapsto> set_insert place p S)\<rparr>)"

definition leave_room :: "string \<Rightarrow> ptr \<Rightarrow> room_manager \<Rightarrow> room_manager" where
  "leave_room room p rm =
     (if p = nullptr then rm
      else case rooms rm room of
             None \<Rightarrow> rm
           | Some S \<Rightarrow>
               (let S' = set_erase p S in
                if S' = [] then rm\<lparr>rooms := (rooms rm)(room := None)\<rparr>
                else rm\<lparr>rooms := (rooms rm)(room \<mapsto> S')\<rparr>))"

definition leave_all :: "ptr \<Rightarrow> room_manager \<Rightarrow> room_manager" where
  "leave_all p rm =
     (if p = nullptr then rm
      else rm\<lparr>rooms := (\<lambda>room. case rooms rm room of
                None \<Rightarrow> None
              | Some S \<Rightarrow> (let S' = set_erase p S in if S' = [] then None else Some S'))\<rparr>)"

definition room_tag :: "string \<Rightarrow> string \<Rightarrow> string" where
  "room_tag room msg = ''['' @ room @ ''] '' @ msg"

definition broadcast_to_room ::
    "cipher \<Rightarrow> string \<Rightarrow> string \<Rightarrow> string \<Rightarrow> room_manager \<Rightarrow> store \<Rightarrow> store option" where
  "broadcast_to_room c room sender msg rm st =
     (case rooms rm room of
        None \<Rightarrow> Some st
      | Some S \<Rightarrow>
          let room_members = S;
              room_prefixed = room_tag room msg
          in broadcast_to_recipients c sender room_prefixed room_members st)"

subsection \<open>The abstract membership relation\<close>

text \<open>What the rooms are for: a relation between room names and sessions.\<close>

definition members :: "room_manager \<Rightarrow> (string \<times> ptr) set" where
  "members rm = {(room, p). \<exists>S. rooms rm room = Some S \<and> p \<in> set S}"

definition place_ok :: "placement \<Rightarrow> bool" where
  "place_ok place \<longleftrightarrow>
     (\<forall>S p. p \<notin> set S \<longrightarrow> set (place S p) = insert p (set S) \<and> (distinct S \<longrightarrow> distinct (place S p)))"

text \<open>No room is empty, no session is twice in one, and every member is a live session.\<close>

definition rm_wf :: "room_manager \<Rightarrow> store \<Rightarrow> bool" where
  "rm_wf rm st \<longleftrightarrow>
     (\<forall>room S. rooms rm room = Some S \<longrightarrow> S \<noteq> [] \<and> distinct S \<and> (\<forall>p \<in> set S. live st p))"

lemma rm_wf_mk [simp]: "rm_wf mk_room_manager st" "members mk_room_manager = {}"
  by (simp_all add: rm_wf_def mk_room_manager_def members_def)

lemma rm_wf_same_ids [wf_intros]: "rm_wf rm st \<Longrightarrow> same_ids st st' \<Longrightarrow> rm_wf rm st'"
  by (simp add: rm_wf_def same_ids_live)

lemma set_erase_set [simp]: "set (set_erase p S) = set S - {p}"
  by (auto simp: set_erase_def)

lemma distinct_erase [simp]: "distinct S \<Longrightarrow> distinct (set_erase p S)"
  by (simp add: set_erase_def)

lemma set_insert_set: "place_ok place \<Longrightarrow> set (set_insert place p S) = insert p (set S)"
  by (auto simp: set_insert_def place_ok_def)

lemma distinct_insert: "place_ok place \<Longrightarrow> distinct S \<Longrightarrow> distinct (set_insert place p S)"
  by (auto simp: set_insert_def place_ok_def)

lemma members_join:
  "place_ok place \<Longrightarrow> p \<noteq> nullptr \<Longrightarrow> members (join_room place room p rm) = insert (room, p) (members rm)"
  by (auto simp: members_def join_room_def set_insert_set split: if_splits option.splits)

lemma members_leave: "p \<noteq> nullptr \<Longrightarrow> members (leave_room room p rm) = members rm - {(room, p)}"
proof -
  assume p: "p \<noteq> nullptr"
  show ?thesis
  proof (cases "rooms rm room")
    case None
    with p show ?thesis by (auto simp: members_def leave_room_def)
  next
    case (Some S)
    have "set_erase p S = [] \<longleftrightarrow> set S - {p} = {}" by (metis set_erase_set set_empty)
    with p Some show ?thesis
      by (auto simp: members_def leave_room_def Let_def split: if_splits)
  qed
qed

lemma members_leave_all: "p \<noteq> nullptr \<Longrightarrow> members (leave_all p rm) = members rm - UNIV \<times> {p}"
proof -
  assume p: "p \<noteq> nullptr"
  have e: "set_erase p S = [] \<longleftrightarrow> set S - {p} = {}" for S by (metis set_erase_set set_empty)
  from p show ?thesis
    by (auto simp: members_def leave_all_def Let_def e split: option.splits if_splits)
qed

lemma rm_wf_join:
  assumes "place_ok place" "rm_wf rm st" "live st p"
  shows "rm_wf (join_room place room p rm) st"
proof -
  have ne: "set_insert place p S \<noteq> []" for S
    using set_insert_set [OF assms(1), of p S] by auto
  have new: "set_insert place p (case rooms rm room of None \<Rightarrow> [] | Some S \<Rightarrow> S) = S \<Longrightarrow>
      S \<noteq> [] \<and> distinct S \<and> (\<forall>q \<in> set S. live st q)" for S
    using assms ne by (cases "rooms rm room") (auto simp: rm_wf_def set_insert_set distinct_insert)
  show ?thesis
    using assms(2) new by (auto simp: rm_wf_def join_room_def Let_def split: if_splits)
qed

lemma rm_wf_leave: "rm_wf rm st \<Longrightarrow> rm_wf (leave_room room p rm) st"
  by (auto simp: rm_wf_def leave_room_def Let_def split: option.splits if_splits)

lemma rm_wf_leave_all: "rm_wf rm st \<Longrightarrow> rm_wf (leave_all p rm) st"
  by (auto simp: rm_wf_def leave_all_def Let_def split: option.splits if_splits)

subsection \<open>Refinement\<close>

lemma rooms_null [simp]:
  "join_room place room nullptr rm = rm" "leave_room room nullptr rm = rm" "leave_all nullptr rm = rm"
  by (simp_all add: join_room_def leave_room_def leave_all_def)

datatype room_op = Join string ptr | Leave string ptr | Leave_all ptr

fun room_step :: "placement \<Rightarrow> room_op \<Rightarrow> room_manager \<Rightarrow> room_manager" where
  "room_step place (Join room p) rm = join_room place room p rm"
| "room_step place (Leave room p) rm = leave_room room p rm"
| "room_step place (Leave_all p) rm = leave_all p rm"

fun abs_step :: "room_op \<Rightarrow> (string \<times> ptr) set \<Rightarrow> (string \<times> ptr) set" where
  "abs_step (Join room p) M = (if p = nullptr then M else insert (room, p) M)"
| "abs_step (Leave room p) M = (if p = nullptr then M else M - {(room, p)})"
| "abs_step (Leave_all p) M = (if p = nullptr then M else {(room, q) \<in> M. q \<noteq> p})"

text \<open>C16: the room table refines a plain membership relation: over any sequence of joins and
  leaves, whatever the hash sets do with their order, the members are those of the relation,
  and a room exists exactly while it has a member.\<close>

theorem rooms_refine_membership:
  fixes ops :: "room_op list"
  assumes "place_ok place"
  defines "rm \<equiv> fold (room_step place) ops mk_room_manager"
  shows "members rm = fold abs_step ops {} \<and> dom (rooms rm) = fst ` members rm"
proof -
  have step: "members (room_step place x rm) = abs_step x (members rm)" for x rm
  proof (cases x)
    case (Join room p)
    then show ?thesis by (cases "p = nullptr") (simp_all add: members_join [OF assms(1)])
  next
    case (Leave room p)
    then show ?thesis by (cases "p = nullptr") (simp_all add: members_leave)
  next
    case (Leave_all p)
    then show ?thesis by (cases "p = nullptr") (auto simp: members_leave_all)
  qed
  have "members (fold (room_step place) ops rm) = fold abs_step ops (members rm)" for rm
    by (induction ops arbitrary: rm) (simp_all add: step)
  then have m: "members rm = fold abs_step ops {}" by (simp add: rm_def)
  have ne_step: "(\<And>r. rooms rm r \<noteq> Some []) \<Longrightarrow> rooms (room_step place x rm) r \<noteq> Some []" for x rm r
  proof (cases x)
    case (Join room p)
    have "set_insert place p S \<noteq> []" for S
      using set_insert_set [OF assms(1), of p S] by auto
    with Join show "(\<And>r. rooms rm r \<noteq> Some []) \<Longrightarrow> ?thesis" by (auto simp: join_room_def Let_def)
  qed (auto simp: leave_room_def leave_all_def Let_def split: option.splits if_splits)
  have "(\<And>r. rooms rm r \<noteq> Some []) \<Longrightarrow> rooms (fold (room_step place) ops rm) r \<noteq> Some []" for rm r
    by (induction ops arbitrary: rm) (use ne_step in auto)
  then have "rooms rm r \<noteq> Some []" for r by (simp add: rm_def mk_room_manager_def)
  then have "dom (rooms rm) = fst ` members rm"
    by (auto simp: members_def image_iff) (metis last_in_set)
  with m show ?thesis by blast
qed

text \<open>
  What \<open>ClientHandler\<close> relies on of \<open>IRooms\<close>: joining and leaving change one membership,
  \<open>leave_all\<close> ends all memberships of a session. From it: a handler that leaves its room before it
  joins the next is always in exactly one.
\<close>

locale room_membership =
  fixes join leave :: "string \<Rightarrow> 'p \<Rightarrow> 's \<Rightarrow> 's" and leave_every :: "'p \<Rightarrow> 's \<Rightarrow> 's"
    and isin :: "'s \<Rightarrow> string \<Rightarrow> 'p \<Rightarrow> bool" and ok :: "'p \<Rightarrow> bool"
  assumes isin_join: "ok p \<Longrightarrow> isin (join r p s) r' q \<longleftrightarrow> (r' = r \<and> q = p) \<or> isin s r' q"
    and isin_leave: "ok p \<Longrightarrow> isin (leave r p s) r' q \<longleftrightarrow> \<not> (r' = r \<and> q = p) \<and> isin s r' q"
    and isin_leave_every: "ok p \<Longrightarrow> isin (leave_every p s) r' q \<longleftrightarrow> q \<noteq> p \<and> isin s r' q"
begin

lemma switch_room:
  assumes "ok p" "\<And>r. isin s r p \<Longrightarrow> r = cur"
  shows "isin (join new p (leave cur p s)) r p \<longleftrightarrow> r = new"
    and "q \<noteq> p \<Longrightarrow> isin (join new p (leave cur p s)) r q = isin s r q"
  using assms by (auto simp: isin_join isin_leave)

lemma leave_last:
  assumes "ok p" "\<And>r. isin s r p \<Longrightarrow> r = cur"
  shows "\<not> isin (leave cur p s) r p"
  using assms by (auto simp: isin_leave)

end

definition in_room :: "room_manager \<Rightarrow> string \<Rightarrow> ptr \<Rightarrow> bool" where
  "in_room rm room p \<longleftrightarrow> (room, p) \<in> members rm"

definition append_place :: placement where
  "append_place S p = S @ [p]"

lemma place_ok_append [simp]: "place_ok append_place"
  by (simp add: place_ok_def append_place_def)

lemma room_membership_model:
  "place_ok place \<Longrightarrow> room_membership (join_room place) leave_room leave_all in_room (\<lambda>p. p \<noteq> nullptr)"
  by unfold_locales (auto simp: in_room_def members_join members_leave members_leave_all)

lemmas rooms_switch = room_membership.switch_room [OF room_membership_model]
lemmas rooms_leave_last = room_membership.leave_last [OF room_membership_model]

interpretation rooms: room_membership "join_room append_place" leave_room leave_all in_room
  "\<lambda>p. p \<noteq> nullptr"
  by (rule room_membership_model) simp

subsection \<open>Broadcasting to a room\<close>

lemma broadcast_to_room_delivery:
  assumes "rm_wf rm st" "fds_distinct st" "store_wf st"
  shows "\<exists>st'. broadcast_to_room c room sender msg rm st = Some st'
    \<and> delivery (encrypt c (serialise (make_bcast sender (room_tag room msg)))) st
        {p. in_room rm room p \<and> wants st sender p} st'"
proof (cases "rooms rm room")
  case None
  then have none: "{p. in_room rm room p \<and> wants st sender p} = {}"
    by (simp add: in_room_def members_def)
  from None show ?thesis unfolding none by (simp add: broadcast_to_room_def)
next
  case (Some S)
  then have "{p. in_room rm room p \<and> wants st sender p} = {p \<in> set S. wants st sender p}"
    by (auto simp: in_room_def members_def)
  moreover have "\<exists>st'. broadcast_to_recipients c sender (room_tag room msg) S st = Some st'
    \<and> delivery (encrypt c (serialise (make_bcast sender (room_tag room msg)))) st
        {p \<in> set S. wants st sender p} st'"
    by (rule bm.bcast_delivers) (use Some assms in \<open>auto simp: rm_wf_def\<close>)
  ultimately show ?thesis using Some by (simp add: broadcast_to_room_def)
qed

text \<open>A room broadcast reaches the active members of that room under another name than the
  sender's, and no connection of a session outside the room.\<close>

theorem room_broadcast_stays_in_room:
  assumes "rm_wf rm st" and "fds_distinct st" and "store_wf st"
  shows "\<exists>st'. broadcast_to_room c room sender msg rm st = Some st'
    \<and> (\<forall>p. in_room rm room p \<and> wants st sender p \<longrightarrow>
          got (encrypt c (serialise (make_bcast sender (room_tag room msg)))) st p st')
    \<and> (\<forall>q f. call_is_active q st = Some True \<and> fd_of st q = Some f \<and> \<not> in_room rm room q
          \<longrightarrow> out_of st' f = out_of st f)"
proof -
  from broadcast_to_room_delivery [OF assms, of c room sender msg] obtain st'
    where b: "broadcast_to_room c room sender msg rm st = Some st'"
      and d: "delivery (encrypt c (serialise (make_bcast sender (room_tag room msg)))) st
        {p. in_room rm room p \<and> wants st sender p} st'" by blast
  have "out_of st' f = out_of st f"
    if q: "call_is_active q st = Some True" "fd_of st q = Some f" "\<not> in_room rm room q" for q f
  proof -
    have "fd_of st p \<noteq> Some f" if p: "in_room rm room p" "wants st sender p" for p
      using assms(2) wants_live [OF p(2)] q p(1) unfolding fds_distinct_def by metis
    with d show ?thesis by (auto simp: delivery_def)
  qed
  with b d show ?thesis by (auto simp: delivery_def)
qed

lemma broadcast_to_room_sent_only:
  "broadcast_to_room c room sender msg rm st = Some st' \<Longrightarrow> sent_only st st'"
  by (auto simp: broadcast_to_room_def Let_def dest: broadcast_to_recipients_sent_only
      split: option.splits)

subsection \<open>The rooms at work\<close>

definition demo_rm :: room_manager where
  "demo_rm = \<lparr>rooms = [''lobby'' \<mapsto> [1], ''dev'' \<mapsto> [2]]\<rparr>"

lemma demo_rm_wf: "rm_wf demo_rm demo_store"
  by (auto simp: rm_wf_def demo_rm_def split: if_splits)

theorem rooms_refine_membership_witness:
  "members (fold (room_step append_place) [Join ''lobby'' 1, Join ''dev'' 2, Leave ''lobby'' 1] mk_room_manager)
     = {(''dev'', 2)}"
  using rooms_refine_membership [of append_place "[Join ''lobby'' 1, Join ''dev'' 2, Leave ''lobby'' 1]"]
  by auto

theorem room_broadcast_stays_in_room_witness:
  "\<exists>st'. broadcast_to_room default_cipher ''dev'' ''alice'' ''hi'' demo_rm demo_store = Some st'
    \<and> got (encrypt default_cipher (serialise (make_bcast ''alice'' (room_tag ''dev'' ''hi'')))) demo_store 2 st'
    \<and> out_of st' 4 = out_of demo_store 4"
proof -
  have i: "in_room demo_rm ''dev'' p \<longleftrightarrow> p = 2" for p
    by (auto simp: in_room_def members_def demo_rm_def)
  from room_broadcast_stays_in_room [OF demo_rm_wf demo_fds_distinct demo_store_wf,
      of default_cipher "''dev''" "''alice''" "''hi''"]
  obtain st' where b:
    "broadcast_to_room default_cipher ''dev'' ''alice'' ''hi'' demo_rm demo_store = Some st'"
    "\<forall>p. in_room demo_rm ''dev'' p \<and> wants demo_store ''alice'' p \<longrightarrow>
        got (encrypt default_cipher (serialise (make_bcast ''alice'' (room_tag ''dev'' ''hi'')))) demo_store p st'"
    "\<forall>q f. call_is_active q demo_store = Some True \<and> fd_of demo_store q = Some f
        \<and> \<not> in_room demo_rm ''dev'' q \<longrightarrow> out_of st' f = out_of demo_store f" by blast
  from b(2) [rule_format, of 2] b(3) [rule_format, of 1 4] b(1) show ?thesis
    by (simp add: i fd_of_def)
qed

end
