(* ===== verification/File_IO.thy ===== *)
theory File_IO
  imports Prelude
begin

text \<open>
  \<open>include/mpcc/core/file_io.h\<close> and \<open>src/core/file_io.cpp\<close>. The file system is the contents
  of the files and the \<open>mkdir\<close> calls made so far; what the operating system answers during
  one call of this code (each \<open>mkdir\<close>, the \<open>open\<close> of the temporary file, how many bytes the
  device takes, the \<open>rename\<close>) is a record \<open>io_env\<close>, over which the theorems quantify. A
  \<open>std::ofstream\<close> has a buffer of \<open>bufsz\<close> characters that it empties when an insertion does
  not fit and when it is closed; that last write happens in the destructor, whose failure
  nobody sees.
\<close>

subsection \<open>The file system and one call's environment\<close>

record filesystem =
  files :: "string \<rightharpoonup> string"
  mkdirs :: "string list"

datatype mkdir_res = Mk_ok | Mk_exists | Mk_failed

record io_env =
  mkdir_rc :: "string \<Rightarrow> mkdir_res"
  open_ok :: bool
  bufsz :: nat
  space :: nat
  rename_ok :: bool

subsection \<open>Directories\<close>

definition parent_dir :: "string \<Rightarrow> string" where
  "parent_dir path =
     (case str_rfind slash path of
        None \<Rightarrow> []
      | Some k \<Rightarrow> if k = 0 then [slash] else take k path)"

definition mkdir_one :: "io_env \<Rightarrow> string \<Rightarrow> filesystem \<Rightarrow> bool \<times> filesystem" where
  "mkdir_one env dir fs =
     (if dir = [] then (True, fs)
      else (mkdir_rc env dir = Mk_ok \<or> mkdir_rc env dir = Mk_exists,
            fs\<lparr>mkdirs := mkdirs fs @ [dir]\<rparr>))"

text \<open>The loop over the characters of the path; \<open>cur\<close> is the part already passed.\<close>

fun mkdir_prefixes :: "io_env \<Rightarrow> string \<Rightarrow> string \<Rightarrow> filesystem \<Rightarrow> bool \<times> filesystem" where
  "mkdir_prefixes env cur [] fs = mkdir_one env cur fs"
| "mkdir_prefixes env cur (ch # rest) fs =
     (if ch = slash
      then let (ok, fs') = mkdir_one env cur fs
           in if \<not> ok then (False, fs') else mkdir_prefixes env (cur @ [ch]) rest fs'
      else mkdir_prefixes env (cur @ [ch]) rest fs)"

definition ensure_dir_recursive :: "io_env \<Rightarrow> string \<Rightarrow> filesystem \<Rightarrow> bool \<times> filesystem" where
  "ensure_dir_recursive env dir fs =
     (if dir = [] then (True, fs)
      else if dir = [slash] then (True, fs)
      else if hd dir = slash then mkdir_prefixes env [slash] (tl dir) fs
      else mkdir_prefixes env [] dir fs)"

definition ensure_parent_dir :: "io_env \<Rightarrow> string \<Rightarrow> filesystem \<Rightarrow> bool \<times> filesystem" where
  "ensure_parent_dir env path fs =
     (let parent = parent_dir path in
      if parent = [] then (True, fs) else ensure_dir_recursive env parent fs)"

subsection \<open>Reading and writing lines\<close>

text \<open>A file that cannot be opened reads as no lines at all.\<close>

definition read_all_lines :: "bool \<Rightarrow> string \<Rightarrow> filesystem \<Rightarrow> string list" where
  "read_all_lines opens path fs =
     (case files fs path of
        None \<Rightarrow> []
      | Some content \<Rightarrow> if opens then getlines content else [])"

record ofstream =
  o_buf :: string
  o_dev :: string
  o_good :: bool

definition ofs_open :: ofstream where
  "ofs_open = \<lparr>o_buf = [], o_dev = [], o_good = True\<rparr>"

definition dev_write :: "io_env \<Rightarrow> string \<Rightarrow> ofstream \<Rightarrow> ofstream" where
  "dev_write env b ofs =
     (let n = space env - length (o_dev ofs) in
      if length b \<le> n then ofs\<lparr>o_dev := o_dev ofs @ b, o_buf := []\<rparr>
      else ofs\<lparr>o_dev := o_dev ofs @ take n b, o_buf := drop n b, o_good := False\<rparr>)"

definition ofs_put :: "io_env \<Rightarrow> string \<Rightarrow> ofstream \<Rightarrow> ofstream" where
  "ofs_put env s ofs =
     (if \<not> o_good ofs then ofs
      else let b = o_buf ofs @ s in
           if length b \<le> bufsz env then ofs\<lparr>o_buf := b\<rparr> else dev_write env b ofs)"

definition ofs_close :: "io_env \<Rightarrow> ofstream \<Rightarrow> string" where
  "ofs_close env ofs = o_dev (dev_write env (o_buf ofs) ofs)"

fun put_lines :: "io_env \<Rightarrow> string list \<Rightarrow> ofstream \<Rightarrow> ofstream" where
  "put_lines env [] ofs = ofs"
| "put_lines env (l # ls) ofs = put_lines env ls (ofs_put env [nl] (ofs_put env l ofs))"

definition tmp_path :: "string \<Rightarrow> string" where
  "tmp_path path = path @ ''.tmp''"

definition atomic_write_lines ::
    "io_env \<Rightarrow> string \<Rightarrow> string list \<Rightarrow> filesystem \<Rightarrow> bool \<times> filesystem" where
  "atomic_write_lines env path lines fs =
     (let (ok, fs1) = ensure_parent_dir env path fs in
      if \<not> ok then (False, fs1)
      else if \<not> open_ok env then (False, fs1)
      else
        let ofs = put_lines env lines ofs_open;
            fs2 = fs1\<lparr>files := (files fs1)(tmp_path path \<mapsto> ofs_close env ofs)\<rparr>
        in if \<not> o_good ofs then (False, fs2)
           else if \<not> rename_ok env then (False, fs2)
           else (True, fs2\<lparr>files := (files fs2)(path := files fs2 (tmp_path path), tmp_path path := None)\<rparr>))"

subsection \<open>Directories: which \<open>mkdir\<close> calls are made\<close>

lemma parent_dir_split:
  assumes "str_rfind slash path = Some k"
  shows "path = take k path @ slash # drop (Suc k) path" "slash \<notin> set (drop (Suc k) path)"
proof -
  obtain j where j: "str_find slash (rev path) = Some j" "k = length path - 1 - j"
    using assms by (auto simp: str_rfind_def)
  from str_find_SomeD [OF j(1)] have jd: "j < length path" "slash \<notin> set (take j (rev path))"
    and at: "rev path ! j = slash" by auto
  from jd at j(2) have "k < length path" "path ! k = slash"
    by (auto simp: rev_nth)
  then show "path = take k path @ slash # drop (Suc k) path"
    using id_take_nth_drop [of k path] by simp
  have "length path - j = Suc k" using jd j(2) by simp
  then show "slash \<notin> set (drop (Suc k) path)" using jd(2) by (simp add: take_rev)
qed

lemma mkdir_one_files [simp]: "files (snd (mkdir_one env d fs)) = files fs"
  by (simp add: mkdir_one_def)

lemma mkdir_prefixes_files [simp]: "files (snd (mkdir_prefixes env cur rest fs)) = files fs"
proof (induction env cur rest fs rule: mkdir_prefixes.induct)
  case (2 env cur ch rest fs)
  obtain ok fs' where m: "mkdir_one env cur fs = (ok, fs')" by force
  then have "files fs' = files fs" using mkdir_one_files [of env cur fs] by simp
  with 2 m show ?case by (cases "ch = slash") auto
qed simp

lemma ensure_parent_dir_files [simp]: "files (snd (ensure_parent_dir env path fs)) = files fs"
  by (simp add: ensure_parent_dir_def ensure_dir_recursive_def Let_def)

text \<open>The directories a path passes through: its non-empty prefixes that end before a slash,
  and the path itself.\<close>

fun dirs_on :: "string \<Rightarrow> string \<Rightarrow> string list" where
  "dirs_on cur [] = [cur]"
| "dirs_on cur (ch # rest) =
     (if ch = slash \<and> cur \<noteq> [] then [cur] else []) @ dirs_on (cur @ [ch]) rest"

fun mkdir_all :: "io_env \<Rightarrow> string list \<Rightarrow> filesystem \<Rightarrow> bool \<times> filesystem" where
  "mkdir_all env [] fs = (True, fs)"
| "mkdir_all env (d # ds) fs =
     (let (ok, fs') = mkdir_one env d fs in if ok then mkdir_all env ds fs' else (False, fs'))"

lemma mkdir_prefixes_all: "mkdir_prefixes env cur rest fs = mkdir_all env (dirs_on cur rest) fs"
proof (induction env cur rest fs rule: mkdir_prefixes.induct)
  case (1 env cur fs)
  then show ?case by (cases "mkdir_one env cur fs") simp
next
  case (2 env cur ch rest fs)
  obtain ok fs' where m: "mkdir_one env cur fs = (ok, fs')" by force
  show ?case
  proof (cases "ch = slash")
    case True
    have "cur = [] \<Longrightarrow> ok \<and> fs' = fs" using m by (simp add: mkdir_one_def)
    with 2 m True show ?thesis by auto
  next
    case False
    with 2 show ?thesis by simp
  qed
qed

lemma mkdir_all_spec:
  "[] \<notin> set ds \<Longrightarrow>
   fst (mkdir_all env ds fs) = (\<forall>d \<in> set ds. mkdir_rc env d \<noteq> Mk_failed)
   \<and> (fst (mkdir_all env ds fs) \<longrightarrow> mkdirs (snd (mkdir_all env ds fs)) = mkdirs fs @ ds)
   \<and> files (snd (mkdir_all env ds fs)) = files fs"
proof (induction ds arbitrary: fs)
  case (Cons d ds)
  have "mkdir_one env d fs = (mkdir_rc env d \<noteq> Mk_failed, fs\<lparr>mkdirs := mkdirs fs @ [d]\<rparr>)"
    using Cons.prems by (cases "mkdir_rc env d") (auto simp: mkdir_one_def)
  with Cons.IH [of "fs\<lparr>mkdirs := mkdirs fs @ [d]\<rparr>"] Cons.prems show ?case by simp
qed simp

lemma dirs_on_nonempty: "cur \<noteq> [] \<or> rest \<noteq> [] \<Longrightarrow> [] \<notin> set (dirs_on cur rest)"
  by (induction cur rest rule: dirs_on.induct) auto

text \<open>\<open>ensure_dir_recursive\<close> succeeds exactly when no directory on the path fails to exist
  after its \<open>mkdir\<close>, and then it has tried all of them, parents first.\<close>

theorem ensure_dir_recursive_spec:
  assumes "dir \<noteq> []" and "dir \<noteq> [slash]"
    and "ensure_dir_recursive env dir fs = (ok, fs')"
  defines "ds \<equiv> (if hd dir = slash then dirs_on [slash] (tl dir) else dirs_on [] dir)"
  shows "(ok \<longleftrightarrow> (\<forall>d \<in> set ds. mkdir_rc env d \<noteq> Mk_failed))
    \<and> (ok \<longrightarrow> mkdirs fs' = mkdirs fs @ ds) \<and> files fs' = files fs"
proof -
  have "ensure_dir_recursive env dir fs = mkdir_all env ds fs"
    using assms(1,2) by (simp add: ensure_dir_recursive_def ds_def mkdir_prefixes_all)
  with assms(3) have "mkdir_all env ds fs = (ok, fs')" by simp
  moreover have "[] \<notin> set ds"
    using assms(1) by (simp add: ds_def dirs_on_nonempty)
  ultimately show ?thesis using mkdir_all_spec [of ds env fs] by simp
qed

theorem ensure_dir_recursive_spec_witness:
  "mkdirs (snd (ensure_dir_recursive \<lparr>mkdir_rc = (\<lambda>_. Mk_ok), open_ok = True, bufsz = 8,
      space = 8, rename_ok = True\<rparr> ''a/b'' \<lparr>files = Map.empty, mkdirs = []\<rparr>)) = [''a'', ''a/b'']"
  using ensure_dir_recursive_spec [of "''a/b''" "\<lparr>mkdir_rc = (\<lambda>_. Mk_ok), open_ok = True,
      bufsz = 8, space = 8, rename_ok = True\<rparr>" "\<lparr>files = Map.empty, mkdirs = []\<rparr>"]
  by (auto simp: prod_eq_iff)

subsection \<open>Writing lines\<close>

text \<open>While the stream is good, device and buffer together hold all that was inserted.\<close>

definition ofs_holds :: "io_env \<Rightarrow> string \<Rightarrow> ofstream \<Rightarrow> bool" where
  "ofs_holds env t ofs \<longleftrightarrow>
     length (o_dev ofs) \<le> space env \<and> (o_good ofs \<longrightarrow> o_dev ofs @ o_buf ofs = t)"

lemma dev_write_holds:
  "o_good ofs \<Longrightarrow> length (o_dev ofs) \<le> space env \<Longrightarrow>
   ofs_holds env (o_dev ofs @ b) (dev_write env b ofs)"
  by (auto simp: ofs_holds_def dev_write_def Let_def)

lemma ofs_put_holds: "ofs_holds env t ofs \<Longrightarrow> ofs_holds env (t @ s) (ofs_put env s ofs)"
  using dev_write_holds [of ofs env "o_buf ofs @ s"]
  by (auto simp: ofs_put_def Let_def) (auto simp: ofs_holds_def)

lemma put_lines_holds: "ofs_holds env t ofs \<Longrightarrow> ofs_holds env (t @ unlines ls) (put_lines env ls ofs)"
proof (induction ls arbitrary: t ofs)
  case (Cons l ls)
  from Cons.IH [OF ofs_put_holds [OF ofs_put_holds [OF Cons.prems, of l], of "[nl]"]]
  show ?case by simp
qed simp

lemma ofs_close_take:
  "ofs_holds env t ofs \<Longrightarrow> o_good ofs \<Longrightarrow> ofs_close env ofs = take (space env) t"
  by (auto simp: ofs_holds_def ofs_close_def dev_write_def Let_def)

lemma dev_write_good: "length (o_dev ofs @ b) \<le> space env \<Longrightarrow> o_good (dev_write env b ofs) = o_good ofs"
  by (auto simp: dev_write_def Let_def)

lemma ofs_put_good:
  "ofs_holds env t ofs \<Longrightarrow> o_good ofs \<Longrightarrow> length (t @ s) \<le> space env \<Longrightarrow> o_good (ofs_put env s ofs)"
  by (auto simp: ofs_put_def Let_def ofs_holds_def dev_write_good)

lemma put_lines_good:
  "ofs_holds env t ofs \<Longrightarrow> o_good ofs \<Longrightarrow> length (t @ unlines ls) \<le> space env \<Longrightarrow>
   o_good (put_lines env ls ofs)"
proof (induction ls arbitrary: t ofs)
  case (Cons l ls)
  let ?o = "ofs_put env [nl] (ofs_put env l ofs)"
  have 1: "o_good (ofs_put env l ofs)"
    by (rule ofs_put_good [OF Cons.prems(1,2)]) (use Cons.prems(3) in simp)
  have 2: "o_good ?o"
    by (rule ofs_put_good [OF ofs_put_holds [OF Cons.prems(1)] 1]) (use Cons.prems(3) in simp)
  show ?case
    using Cons.IH [OF ofs_put_holds [OF ofs_put_holds [OF Cons.prems(1)]] 2] Cons.prems(3) by simp
qed simp

lemma ofs_open_holds [simp]: "ofs_holds env [] ofs_open" "o_good ofs_open"
  by (simp_all add: ofs_holds_def ofs_open_def)

lemma tmp_path_neq [simp]: "tmp_path path \<noteq> path" "path \<noteq> tmp_path path"
  by (simp_all add: tmp_path_def)

text \<open>What \<open>atomic_write_lines\<close> does to the files.\<close>

lemma atomic_write_files:
  assumes "atomic_write_lines env path lines fs = (ok, fs')"
  shows "(ok \<longrightarrow> files fs' =
            (files fs)(path \<mapsto> take (space env) (unlines lines), tmp_path path := None))
       \<and> (\<not> ok \<longrightarrow> (\<forall>q. q \<noteq> tmp_path path \<longrightarrow> files fs' q = files fs q))"
proof -
  let ?ofs = "put_lines env lines ofs_open"
  obtain ok1 fs1 where e: "ensure_parent_dir env path fs = (ok1, fs1)" by force
  then have f1: "files fs1 = files fs" using ensure_parent_dir_files [of env path fs] by simp
  have close: "o_good ?ofs \<Longrightarrow> ofs_close env ?ofs = take (space env) (unlines lines)"
    using ofs_close_take [OF put_lines_holds [OF ofs_open_holds(1)]] by simp
  show ?thesis
  proof (cases "ok1 \<and> open_ok env \<and> o_good ?ofs \<and> rename_ok env")
    case True
    with assms e f1 close show ?thesis
      by (auto simp: atomic_write_lines_def fun_eq_iff Let_def)
  next
    case False
    with assms e f1 show ?thesis
      by (auto simp: atomic_write_lines_def Let_def split: if_splits)
  qed
qed

text \<open>C21: whatever the operating system does, \<open>atomic_write_lines\<close> leaves the target file
  either as it was (and reports failure) or replaced in one step (and reports success); no
  file but the target and its temporary file is ever touched. The new content is what the
  device took of the lines.\<close>

theorem atomic_write_all_or_nothing:
  assumes "atomic_write_lines env path lines fs = (ok, fs')"
  shows "files fs' path = (if ok then Some (take (space env) (unlines lines)) else files fs path)
    \<and> (\<forall>q. q \<noteq> path \<and> q \<noteq> tmp_path path \<longrightarrow> files fs' q = files fs q)"
  using atomic_write_files [OF assms] by auto

theorem atomic_write_all_or_nothing_witness:
  "files \<lparr>files = [''u'' \<mapsto> ''old'', ''u.tmp'' \<mapsto> ''new'' @ [nl]], mkdirs = []\<rparr> ''u''
    = (if False then Some (take 100 (unlines [''new''])) else Some ''old'')"
proof -
  have "atomic_write_lines \<lparr>mkdir_rc = (\<lambda>_. Mk_ok), open_ok = True, bufsz = 8, space = 100,
      rename_ok = False\<rparr> ''u'' [''new''] \<lparr>files = [''u'' \<mapsto> ''old''], mkdirs = []\<rparr>
    = (False, \<lparr>files = [''u'' \<mapsto> ''old'', ''u.tmp'' \<mapsto> ''new'' @ [nl]], mkdirs = []\<rparr>)"
    by (simp add: atomic_write_lines_def ensure_parent_dir_def parent_dir_def str_rfind_def
        ofs_open_def ofs_put_def ofs_close_def dev_write_def tmp_path_def)
  from atomic_write_all_or_nothing [OF this] show ?thesis by simp
qed

lemma atomic_write_read_back:
  assumes "atomic_write_lines env path lines fs = (True, fs')"
    and "length (unlines lines) \<le> space env" and "\<And>l. l \<in> set lines \<Longrightarrow> nl \<notin> set l"
  shows "read_all_lines True path fs' = lines"
  using atomic_write_files [OF assms(1)] assms(2,3) by (simp add: read_all_lines_def)

text \<open>The last write happens when the stream is closed, after \<open>good()\<close> was asked: lines
  that fit the stream's buffer but not the device are cut off, the cut file replaces the
  target, and the caller is told that the write succeeded.\<close>

theorem atomic_write_silent_truncation:
  assumes "length (unlines lines) \<le> bufsz env" and "open_ok env" and "rename_ok env"
    and "fst (ensure_parent_dir env path fs)"
  shows "fst (atomic_write_lines env path lines fs)
    \<and> files (snd (atomic_write_lines env path lines fs)) path
        = Some (take (space env) (unlines lines))"
proof -
  have put: "o_good ofs \<Longrightarrow> length (o_buf ofs @ unlines ls) \<le> bufsz env \<Longrightarrow> o_good (put_lines env ls ofs)"
    for ls ofs
    by (induction ls arbitrary: ofs) (auto simp: ofs_put_def Let_def)
  have "o_good (put_lines env lines ofs_open)"
    by (rule put) (use assms(1) in \<open>simp_all add: ofs_open_def\<close>)
  with assms(2-4) have "fst (atomic_write_lines env path lines fs)"
    by (auto simp: atomic_write_lines_def Let_def split: prod.splits)
  moreover from this atomic_write_files [of env path lines fs] have
    "files (snd (atomic_write_lines env path lines fs)) path = Some (take (space env) (unlines lines))"
    by (cases "atomic_write_lines env path lines fs") auto
  ultimately show ?thesis by blast
qed

theorem atomic_write_silent_truncation_witness:
  "let env = \<lparr>mkdir_rc = (\<lambda>_. Mk_exists), open_ok = True, bufsz = 8191, space = 10, rename_ok = True\<rparr>;
       (ok, fs') = atomic_write_lines env ''./data/u.dat'' [''alice:3A'', ''bob:3B'']
         \<lparr>files = [''./data/u.dat'' \<mapsto> ''alice:3A'' @ [nl]], mkdirs = []\<rparr>
   in ok \<and> files fs' ''./data/u.dat'' = Some (''alice:3A'' @ [nl] @ ''b'')"
proof -
  let ?env = "\<lparr>mkdir_rc = (\<lambda>_. Mk_exists), open_ok = True, bufsz = 8191, space = 10, rename_ok = True\<rparr>"
  let ?fs = "\<lparr>files = [''./data/u.dat'' \<mapsto> ''alice:3A'' @ [nl]], mkdirs = []\<rparr>"
  have "fst (ensure_parent_dir ?env ''./data/u.dat'' ?fs)"
    by (simp add: ensure_parent_dir_def parent_dir_def str_rfind_def ensure_dir_recursive_def
        mkdir_one_def)
  from atomic_write_silent_truncation [OF _ _ _ this, of "[''alice:3A'', ''bob:3B'']"]
  show ?thesis by (auto simp: Let_def split: prod.splits)
qed

subsection \<open>What the users of a line file rely on\<close>

text \<open>
  A store that is rewritten as a whole: a successful write that fits is read back, a failed
  one changes nothing. \<open>fits env ls\<close> says that the environment takes all of \<open>ls\<close>.
\<close>

locale line_file =
  fixes rd :: "'s \<Rightarrow> string list" and wr :: "'e \<Rightarrow> string list \<Rightarrow> 's \<Rightarrow> bool \<times> 's"
    and fits :: "'e \<Rightarrow> string list \<Rightarrow> bool" and clean :: "string \<Rightarrow> bool"
  assumes wr_ok: "wr e ls s = (True, s') \<Longrightarrow> fits e ls \<Longrightarrow> (\<And>l. l \<in> set ls \<Longrightarrow> clean l) \<Longrightarrow> rd s' = ls"
    and wr_failed: "wr e ls s = (False, s') \<Longrightarrow> rd s' = rd s"
    and rd_clean: "l \<in> set (rd s) \<Longrightarrow> clean l"
begin

text \<open>Appending a line by rewriting the file adds the line or changes nothing.\<close>

lemma append_line:
  assumes "wr e (rd s @ [l]) s = (ok, s')" "fits e (rd s @ [l])" "clean l"
  shows "rd s' = (if ok then rd s @ [l] else rd s)"
  using assms wr_ok [of e "rd s @ [l]" s s'] wr_failed [of e "rd s @ [l]" s s'] rd_clean [of _ s]
  by (cases ok) auto

lemma rewrite_lines:
  assumes "wr e ls s = (ok, s')" "fits e ls" "\<And>l. l \<in> set ls \<Longrightarrow> clean l"
  shows "rd s' = (if ok then ls else rd s)"
  using assms wr_ok [of e ls s s'] wr_failed [of e ls s s'] by (cases ok) auto

end

interpretation disk: line_file "read_all_lines True path" "\<lambda>env. atomic_write_lines env path"
  "\<lambda>env ls. length (unlines ls) \<le> space env" "\<lambda>l. nl \<notin> set l" for path :: string
proof unfold_locales
  show "read_all_lines True path fs' = read_all_lines True path fs"
    if "atomic_write_lines env path ls fs = (False, fs')" for env ls fs fs'
    using atomic_write_files [OF that] by (simp add: read_all_lines_def)
  show "nl \<notin> set l" if "l \<in> set (read_all_lines True path fs)" for l fs
    using that by (auto simp: read_all_lines_def dest: getlines_no_nl split: option.splits)
qed (rule atomic_write_read_back)

end
