(* ===== verification/Logger.thy ===== *)
theory Logger
  imports File_IO
begin

text \<open>
  \<open>include/mpcc/util/logger.h\<close> and \<open>src/util/logger.cpp\<close>: the logger behind \<open>ILog\<close>. Its
  state is the log file (opened for appending, or not open) and what it has written to the
  two console streams. The clock and \<open>pthread_self()\<close> are outside: a call takes the
  timestamp (which \<open>current_timestamp\<close> makes of the calendar time) and the thread id it prints. The other components log through \<open>ILog\<close>; their
  models record the calls they make as a list of \<open>(level, message)\<close>, and \<open>log_all\<close> is what the
  logger does with such a list.
\<close>

datatype log_level = FATAL | WARNING | INFO | DEBUG

type_synonym log_call = "log_level \<times> string"

fun level_num :: "log_level \<Rightarrow> int" where
  "level_num FATAL = 0"
| "level_num WARNING = 1"
| "level_num INFO = 2"
| "level_num DEBUG = 3"

text \<open>The order of the enumeration: \<open>FATAL\<close> is the least level, the most severe one.\<close>

instantiation log_level :: linorder
begin

definition less_eq_log_level: "a \<le> b \<longleftrightarrow> level_num a \<le> level_num b"

definition less_log_level: "(a :: log_level) < b \<longleftrightarrow> level_num a < level_num b"

instance
proof
  fix a b :: log_level
  show "a \<le> b \<Longrightarrow> b \<le> a \<Longrightarrow> a = b" by (cases a; cases b) (simp_all add: less_eq_log_level)
qed (auto simp: less_eq_log_level less_log_level)

end

fun level_to_str :: "log_level \<Rightarrow> string" where
  "level_to_str FATAL = ''FATAL  ''"
| "level_to_str WARNING = ''WARNING''"
| "level_to_str INFO = ''INFO   ''"
| "level_to_str DEBUG = ''DEBUG  ''"

text \<open>The UTF-8 bytes of the dash the log messages use.\<close>

definition endash :: string where
  "endash = [CHR 0xE2, CHR 0x80, CHR 0x93]"

record logger =
  min_level :: log_level
  file_open :: bool
  log_file :: string
  con_out :: string
  con_err :: string

text \<open>The constructor: \<open>content\<close> is what the file held, \<open>opens\<close> whether it could be opened,
  \<open>errtext\<close> what \<open>strerror(errno)\<close> says when it could not.\<close>

definition mk_logger :: "io_env \<Rightarrow> bool \<Rightarrow> string \<Rightarrow> string \<Rightarrow> log_level \<Rightarrow> filesystem \<Rightarrow> logger \<times> filesystem" where
  "mk_logger env opens errtext path lvl fs =
     (let (_, fs') = ensure_parent_dir env path fs;
          content = (case files fs path of None \<Rightarrow> [] | Some c \<Rightarrow> c)
      in (\<lparr>min_level = lvl, file_open = opens, log_file = (if opens then content else []),
           con_out = [],
           con_err = (if opens then []
                      else ''[FATAL] Logger: cannot open log file: '' @ path @ '' '' @ endash @ '' ''
                           @ errtext @ [nl])\<rparr>, fs'))"

definition log_entry :: "string \<Rightarrow> string \<Rightarrow> log_level \<Rightarrow> string \<Rightarrow> string" where
  "log_entry timestamp tid lvl msg =
     ''['' @ level_to_str lvl @ '']['' @ timestamp @ '']['' @ tid @ ''] '' @ msg @ [nl]"

definition log_msg :: "string \<Rightarrow> string \<Rightarrow> log_level \<Rightarrow> string \<Rightarrow> logger \<Rightarrow> logger" where
  "log_msg timestamp tid lvl msg lg =
     (if level_num (min_level lg) < level_num lvl then lg
      else
        let entry = log_entry timestamp tid lvl msg;
            lg1 = (if file_open lg then lg\<lparr>log_file := log_file lg @ entry\<rparr> else lg)
        in if lvl = FATAL \<or> lvl = WARNING then lg1\<lparr>con_err := con_err lg1 @ entry\<rparr>
           else lg1\<lparr>con_out := con_out lg1 @ entry\<rparr>)"

definition log_fatal :: "string \<Rightarrow> string \<Rightarrow> string \<Rightarrow> logger \<Rightarrow> logger" where
  "log_fatal ts tid msg = log_msg ts tid FATAL msg"

definition log_warning :: "string \<Rightarrow> string \<Rightarrow> string \<Rightarrow> logger \<Rightarrow> logger" where
  "log_warning ts tid msg = log_msg ts tid WARNING msg"

definition log_info :: "string \<Rightarrow> string \<Rightarrow> string \<Rightarrow> logger \<Rightarrow> logger" where
  "log_info ts tid msg = log_msg ts tid INFO msg"

definition log_debug :: "string \<Rightarrow> string \<Rightarrow> string \<Rightarrow> logger \<Rightarrow> logger" where
  "log_debug ts tid msg = log_msg ts tid DEBUG msg"

text \<open>A sequence of calls, each at its own time and on its own thread.\<close>

fun log_all :: "(string \<times> string \<times> log_call) list \<Rightarrow> logger \<Rightarrow> logger" where
  "log_all [] lg = lg"
| "log_all ((ts, tid, lvl, msg) # xs) lg = log_all xs (log_msg ts tid lvl msg lg)"

definition entry_of :: "string \<times> string \<times> log_call \<Rightarrow> string" where
  "entry_of x = (case x of (ts, tid, lvl, msg) \<Rightarrow> log_entry ts tid lvl msg)"

definition level_of :: "string \<times> string \<times> log_call \<Rightarrow> log_level" where
  "level_of x = fst (snd (snd x))"

definition emitted :: "log_level \<Rightarrow> (string \<times> string \<times> log_call) list \<Rightarrow> (string \<times> string \<times> log_call) list" where
  "emitted lvl xs = filter (\<lambda>x. level_of x \<le> lvl) xs"

definition is_error :: "string \<times> string \<times> log_call \<Rightarrow> bool" where
  "is_error x \<longleftrightarrow> level_of x \<le> WARNING"

lemma is_error_iff: "is_error x \<longleftrightarrow> level_of x = FATAL \<or> level_of x = WARNING"
  by (cases "level_of x") (auto simp: is_error_def less_eq_log_level)

lemma log_msg_min_level [simp]: "min_level (log_msg ts tid lvl msg lg) = min_level lg"
  by (simp add: log_msg_def Let_def)

lemma log_msg_file_open [simp]: "file_open (log_msg ts tid lvl msg lg) = file_open lg"
  by (simp add: log_msg_def Let_def)

lemma log_msg_emit:
  assumes "\<not> level_num (min_level lg) < level_num lvl"
  shows "log_msg ts tid lvl msg lg = lg\<lparr>
     log_file := log_file lg @ (if file_open lg then log_entry ts tid lvl msg else []),
     con_err := con_err lg @ (if lvl = FATAL \<or> lvl = WARNING then log_entry ts tid lvl msg else []),
     con_out := con_out lg @ (if lvl = FATAL \<or> lvl = WARNING then [] else log_entry ts tid lvl msg)\<rparr>"
  using assms by (cases lg) (simp add: log_msg_def Let_def)

text \<open>The log file gains exactly the entries at or above the configured severity, in call
  order, and each of them is mirrored to exactly one console stream: \<open>FATAL\<close> and \<open>WARNING\<close>
  to the error stream, the rest to the output stream.\<close>

theorem logger_output:
  "log_all xs lg = lg\<lparr>
     log_file := log_file lg @
       (if file_open lg then concat (map entry_of (emitted (min_level lg) xs)) else []),
     con_err := con_err lg @ concat (map entry_of (filter is_error (emitted (min_level lg) xs))),
     con_out := con_out lg @ concat (map entry_of (filter (\<lambda>x. \<not> is_error x) (emitted (min_level lg) xs)))\<rparr>"
proof (induction xs arbitrary: lg)
  case Nil
  show ?case by (simp add: emitted_def)
next
  case (Cons x xs)
  obtain ts tid lvl msg where x: "x = (ts, tid, lvl, msg)" by (cases x) auto
  have lv: "level_of x = lvl" and en: "entry_of x = log_entry ts tid lvl msg"
    by (simp_all add: x level_of_def entry_of_def)
  show ?case
  proof (cases "level_num (min_level lg) < level_num lvl")
    case True
    then have "log_msg ts tid lvl msg lg = lg" by (simp add: log_msg_def)
    with Cons.IH [of lg] True lv show ?thesis by (simp add: x emitted_def less_eq_log_level)
  next
    case False
    then have e: "emitted (min_level lg) (x # xs) = x # emitted (min_level lg) xs"
      using lv by (simp add: emitted_def less_eq_log_level)
    have r: "log_all (x # xs) lg = log_all xs (log_msg ts tid lvl msg lg)" by (simp add: x)
    show ?thesis
      unfolding e r Cons.IH using en lv is_error_iff [of x] by (simp add: log_msg_emit [OF False])
  qed
qed

subsection \<open>The clock and the destructor\<close>

text \<open>What \<open>localtime_r\<close> fills in: years since 1900, months since January.\<close>

record tm =
  tm_year :: int
  tm_mon :: int
  tm_mday :: int
  tm_hour :: int
  tm_min :: int
  tm_sec :: int

definition pad2 :: "int \<Rightarrow> string" where
  "pad2 n = (if length (to_string n) < 2 then CHR ''0'' # to_string n else to_string n)"

text \<open>\<open>strftime\<close> with its format, into 32 bytes; none when the text and its terminator do not fit, in
  which case the contents of the buffer are undefined.\<close>

definition current_timestamp :: "tm \<Rightarrow> string option" where
  "current_timestamp t =
     (let ts = to_string (1900 + tm_year t) @ ''-'' @ pad2 (tm_mon t + 1) @ ''-'' @ pad2 (tm_mday t) @ '' ''
            @ pad2 (tm_hour t) @ [colon] @ pad2 (tm_min t) @ [colon] @ pad2 (tm_sec t)
      in if length ts < 32 then Some ts else None)"

definition tm_ok :: "tm \<Rightarrow> bool" where
  "tm_ok t \<longleftrightarrow> - (2 ^ 31) \<le> tm_year t \<and> tm_year t < 2 ^ 31 \<and> 0 \<le> tm_mon t \<and> tm_mon t < 12
     \<and> 1 \<le> tm_mday t \<and> tm_mday t \<le> 31 \<and> 0 \<le> tm_hour t \<and> tm_hour t < 24
     \<and> 0 \<le> tm_min t \<and> tm_min t < 60 \<and> 0 \<le> tm_sec t \<and> tm_sec t \<le> 60"

lemma length_nat_digits: "n < 10 ^ Suc k \<Longrightarrow> length (nat_digits n) \<le> Suc k"
proof (induction k arbitrary: n)
  case 0
  then show ?case by (simp add: nat_digits.simps [of n])
next
  case (Suc k)
  show ?case
  proof (cases "n < 10")
    case False
    moreover have "n div 10 < 10 ^ Suc k" using Suc.prems by simp
    ultimately show ?thesis using Suc.IH [of "n div 10"] by (simp add: nat_digits.simps [of n])
  qed (simp add: nat_digits.simps [of n])
qed

lemma pad2_length: "0 \<le> n \<Longrightarrow> n < 100 \<Longrightarrow> length (pad2 n) = 2"
proof -
  assume "0 \<le> n" "n < 100"
  moreover then have "nat n < 10 ^ Suc 1" by simp
  then have "length (nat_digits (nat n)) \<le> 2" using length_nat_digits [of "nat n" 1] by simp
  moreover then have "length (nat_digits (nat n)) = 1 \<or> length (nat_digits (nat n)) = 2"
    using length_greater_0_conv [THEN iffD2, OF nat_digits_nonempty, of "nat n"] by linarith
  ultimately show ?thesis by (auto simp: pad2_def to_string_def)
qed

lemma year_length: "- (2 ^ 31) \<le> y \<Longrightarrow> y < 2 ^ 31 \<Longrightarrow> length (to_string (1900 + y)) \<le> 11"
proof -
  assume "- (2 ^ 31) \<le> y" "y < 2 ^ 31"
  then have "nat (1900 + y) < 10 ^ Suc 9" "nat (- (1900 + y)) < 10 ^ Suc 9" by simp_all
  from this [THEN length_nat_digits] show ?thesis by (simp add: to_string_def)
qed

text \<open>The buffer is large enough for every time there is, and the timestamp is part of one line.\<close>

theorem timestamp_fits:
  assumes "tm_ok t"
  shows "\<exists>ts. current_timestamp t = Some ts \<and> nl \<notin> set ts"
proof -
  have p: "length (pad2 (tm_mon t + 1)) = 2" "length (pad2 (tm_mday t)) = 2" "length (pad2 (tm_hour t)) = 2"
    "length (pad2 (tm_min t)) = 2" "length (pad2 (tm_sec t)) = 2"
    using assms by (simp_all add: tm_ok_def pad2_length)
  have "length (to_string (1900 + tm_year t)) \<le> 11" using assms by (simp add: tm_ok_def year_length)
  moreover have "nl \<notin> set (to_string n)" "nl \<notin> set (pad2 n)" for n
    using set_to_string [of nl n] by (auto simp: pad2_def)
  ultimately show ?thesis using p by (auto simp: current_timestamp_def Let_def)
qed

text \<open>The destructor flushes the file and closes it; the stream is flushed after every entry, so the file
  keeps all that was logged.\<close>

definition logger_destroy :: "logger \<Rightarrow> logger" where
  "logger_destroy lg = (if file_open lg then lg\<lparr>file_open := False\<rparr> else lg)"

lemma log_file_complete:
  "file_open lg \<Longrightarrow> log_file (logger_destroy (log_all xs lg))
     = log_file lg @ concat (map entry_of (emitted (min_level lg) xs))"
  by (simp add: logger_destroy_def logger_output)

end
