(* ===== verification/User_Registry.thy ===== *)
theory User_Registry
  imports Logger
begin

text \<open>
  \<open>include/mpcc/server/user_registry.h\<close> and \<open>src/server/user_registry.cpp\<close>: the flat-file
  user store. The object has no state of its own but its file path and its ban list; the
  users are in the file, re-read on every call and rewritten as a whole on registration.
\<close>

subsection \<open>Hexadecimal\<close>

definition hex_digit :: "nat \<Rightarrow> char" where
  "hex_digit d = (if d < 10 then char_of (48 + d) else char_of (55 + d))"

definition hex_byte :: "char \<Rightarrow> string" where
  "hex_byte c = (let n = (of_char c :: nat) in [hex_digit (n div 16), hex_digit (n mod 16)])"

definition to_hex :: "string \<Rightarrow> string" where
  "to_hex raw = concat (map hex_byte raw)"

text \<open>
  \<open>istringstream(s) >> hex >> byte\<close> into an \<open>unsigned\<close>: white space, an optional sign, an
  optional \<open>0x\<close>, then hexadecimal digits; no digits leaves 0, a minus sign negates modulo
  $2^{32}$. \<open>from_hex\<close> applies it to pairs of characters and keeps the low byte.
\<close>

definition is_hex :: "char \<Rightarrow> bool" where
  "is_hex c \<longleftrightarrow> isdigit c \<or> (65 \<le> (of_char c :: nat) \<and> (of_char c :: nat) \<le> 70)
     \<or> (97 \<le> (of_char c :: nat) \<and> (of_char c :: nat) \<le> 102)"

definition hex_val :: "char \<Rightarrow> nat" where
  "hex_val c = (let n = (of_char c :: nat) in
     if isdigit c then n - 48 else if n \<le> 70 then n - 55 else n - 87)"

definition scan_hex :: "string \<Rightarrow> 32 word" where
  "scan_hex s =
     (let s1 = dropWhile isspace s;
          neg = (s1 \<noteq> [] \<and> hd s1 = CHR ''-'');
          s2 = (if s1 \<noteq> [] \<and> (hd s1 = CHR ''-'' \<or> hd s1 = CHR ''+'') then tl s1 else s1);
          s3 = (if take 2 s2 = ''0x'' \<or> take 2 s2 = ''0X'' then drop 2 s2 else s2);
          v = foldl (\<lambda>a d. 16 * a + of_nat (hex_val d)) 0 (takeWhile is_hex s3)
      in if neg then - v else v)"

fun from_hex :: "string \<Rightarrow> string" where
  "from_hex (a # b # rest) = char_of (unat (scan_hex [a, b]) :: nat) # from_hex rest"
| "from_hex _ = []"

lemma hex_digit_ok:
  assumes "d < 16"
  shows "is_hex (hex_digit d)" "hex_val (hex_digit d) = d" "\<not> isspace (hex_digit d)"
    "hex_digit d \<noteq> CHR ''-''" "hex_digit d \<noteq> CHR ''+''" "hex_digit d \<noteq> CHR ''x''"
    "hex_digit d \<noteq> CHR ''X''" "hex_digit d \<noteq> nl" "hex_digit d \<noteq> colon"
proof -
  have n: "(of_char (hex_digit d) :: nat) = (if d < 10 then 48 + d else 55 + d)"
    using assms by (simp add: hex_digit_def)
  show "is_hex (hex_digit d)" "hex_val (hex_digit d) = d"
    unfolding is_hex_def hex_val_def isdigit_def n Let_def using assms by auto
  have ne: "hex_digit d \<noteq> c" if "(of_char c :: nat) < 48 \<or> 70 < (of_char c :: nat)
      \<or> (57 < (of_char c :: nat) \<and> (of_char c :: nat) < 65)" for c
    using that n assms by (cases "d < 10") auto
  show "hex_digit d \<noteq> CHR ''-''" "hex_digit d \<noteq> CHR ''+''" "hex_digit d \<noteq> CHR ''x''"
    "hex_digit d \<noteq> CHR ''X''" "hex_digit d \<noteq> nl" "hex_digit d \<noteq> colon"
    by (rule ne, simp)+
  have "hex_digit d \<noteq> CHR '' ''" by (rule ne) simp
  then show "\<not> isspace (hex_digit d)"
    unfolding isspace_def n by auto
qed

lemma scan_hex_digits:
  assumes "a < 16" "b < 16"
  shows "scan_hex [hex_digit a, hex_digit b] = of_nat (16 * a + b)"
  using hex_digit_ok [OF assms(1)] hex_digit_ok [OF assms(2)]
  by (simp add: scan_hex_def Let_def)

lemma nibbles: "(of_char c :: nat) div 16 < 16" "(of_char c :: nat) mod 16 < 16"
  using of_char_less [of c] by (simp_all add: less_mult_imp_div_less)

lemma from_hex_byte: "from_hex (hex_byte c @ s) = c # from_hex s"
proof -
  have lt: "(of_char c :: nat) < 2 ^ 32" by (rule less_le_trans [OF of_char_less]) simp
  have "scan_hex (hex_byte c) = of_nat (16 * (of_char c div 16) + of_char c mod 16)"
    unfolding hex_byte_def Let_def by (rule scan_hex_digits) (rule nibbles)+
  also have "16 * (of_char c div 16) + of_char c mod 16 = (of_char c :: nat)" by presburger
  finally have "scan_hex (hex_byte c) = of_nat (of_char c)" .
  then have "unat (scan_hex (hex_byte c)) = of_char c"
    using lt by (simp only: unat_of_nat) (simp add: mod_less)
  then show ?thesis by (simp add: hex_byte_def Let_def)
qed

lemma hex_roundtrip [simp]: "from_hex (to_hex raw) = raw"
  by (induction raw) (simp_all add: to_hex_def from_hex_byte)

text \<open>Decoding an encoded password gives the password back, whatever bytes it has.\<close>

theorem from_hex_to_hex: "from_hex (to_hex raw) = raw"
  by (rule hex_roundtrip)

lemma set_to_hex: "c \<in> set (to_hex raw) \<Longrightarrow> c \<noteq> nl \<and> c \<noteq> colon"
  using hex_digit_ok(8,9) [OF nibbles(1)] hex_digit_ok(8,9) [OF nibbles(2)]
  by (auto simp: to_hex_def hex_byte_def Let_def)

subsection \<open>Records\<close>

type_synonym user_record = "string \<times> string"

fun parse_records :: "string list \<Rightarrow> user_record list" where
  "parse_records [] = []"
| "parse_records (line # lines) =
     (if line = [] then parse_records lines
      else case str_find colon line of
             None \<Rightarrow> parse_records lines
           | Some k \<Rightarrow> (take k line, drop (k + 1) line) # parse_records lines)"

definition load_records :: "bool \<Rightarrow> string \<Rightarrow> filesystem \<Rightarrow> user_record list" where
  "load_records opens path fs = parse_records (read_all_lines opens path fs)"

definition record_line :: "user_record \<Rightarrow> string" where
  "record_line r = fst r @ '':'' @ snd r"

definition save_records ::
    "io_env \<Rightarrow> string \<Rightarrow> user_record list \<Rightarrow> filesystem \<Rightarrow> bool \<times> filesystem" where
  "save_records env path records fs =
     (let lines = map record_line records in atomic_write_lines env path lines fs)"

subsection \<open>The class\<close>

text \<open>What the operating system does during one registration: whether the two reads could
  open the file, how the write went, and the \<open>errno\<close> it left.\<close>

record reg_io =
  find_opens :: bool
  load_opens :: bool
  write_env :: io_env
  errno :: int

record user_registry =
  filepath :: string
  has_logger :: bool
  banned :: "string set"

definition mk_registry :: "io_env \<Rightarrow> string \<Rightarrow> bool \<Rightarrow> filesystem \<Rightarrow> user_registry \<times> filesystem" where
  "mk_registry env path lg fs =
     (let (_, fs') = ensure_parent_dir env path fs
      in (\<lparr>filepath = path, has_logger = lg, banned = {}\<rparr>, fs'))"

text \<open>The linear search: the password field of the first record with this name.\<close>

fun find_record :: "string \<Rightarrow> user_record list \<Rightarrow> string option" where
  "find_record u [] = None"
| "find_record u (r # rs) = (if fst r = u then Some (snd r) else find_record u rs)"

definition find_user_locked ::
    "bool \<Rightarrow> user_registry \<Rightarrow> string \<Rightarrow> filesystem \<Rightarrow> string option" where
  "find_user_locked opens r u fs = find_record u (load_records opens (filepath r) fs)"

definition register_user ::
    "reg_io \<Rightarrow> user_registry \<Rightarrow> string \<Rightarrow> string \<Rightarrow> filesystem \<Rightarrow> bool \<times> filesystem \<times> log_call list" where
  "register_user io r u enc fs =
     (if find_user_locked (find_opens io) r u fs \<noteq> None then (False, fs, [])
      else
        let records = load_records (load_opens io) (filepath r) fs @ [(u, to_hex enc)];
            (success, fs') = save_records (write_env io) (filepath r) records fs
        in (success, fs',
            if \<not> success \<and> has_logger r
            then [(WARNING, ''UserRegistry::register_user - Failed to save user '' @ u @ '' to ''
                     @ filepath r @ '' (errno='' @ to_string (errno io) @ '')'')]
            else []))"

definition authenticate ::
    "bool \<Rightarrow> user_registry \<Rightarrow> string \<Rightarrow> string \<Rightarrow> filesystem \<Rightarrow> bool" where
  "authenticate opens r u enc fs =
     (case find_user_locked opens r u fs of
        None \<Rightarrow> False
      | Some stored_hex \<Rightarrow>
          if from_hex stored_hex \<noteq> enc then False else u \<notin> banned r)"

definition user_exists :: "bool \<Rightarrow> user_registry \<Rightarrow> string \<Rightarrow> filesystem \<Rightarrow> bool" where
  "user_exists opens r u fs \<longleftrightarrow> find_user_locked opens r u fs \<noteq> None"

subsection \<open>Records and lines\<close>

definition name_ok :: "string \<Rightarrow> bool" where
  "name_ok u \<longleftrightarrow> colon \<notin> set u \<and> nl \<notin> set u"

definition record_ok :: "user_record \<Rightarrow> bool" where
  "record_ok r \<longleftrightarrow> name_ok (fst r) \<and> nl \<notin> set (snd r)"

lemma parse_record_line: "name_ok (fst r) \<Longrightarrow> parse_records (record_line r # ls) = r # parse_records ls"
  by (cases r) (simp add: name_ok_def record_line_def)

lemma parse_record_lines:
  "(\<And>r. r \<in> set rs \<Longrightarrow> record_ok r) \<Longrightarrow> parse_records (map record_line rs) = rs"
proof (induction rs)
  case (Cons r rs)
  then have "name_ok (fst r)" by (simp add: record_ok_def)
  with Cons show ?case by (simp add: parse_record_line del: parse_records.simps)
qed simp

lemma parse_records_ok:
  "(\<And>l. l \<in> set ls \<Longrightarrow> nl \<notin> set l) \<Longrightarrow> r \<in> set (parse_records ls) \<Longrightarrow> record_ok r"
proof (induction ls rule: parse_records.induct)
  case (2 line lines)
  show ?case
  proof (cases "r \<in> set (parse_records lines)")
    case True
    with 2 show ?thesis by (auto split: option.splits if_splits)
  next
    case False
    with "2.prems" obtain k where k: "str_find colon line = Some k"
      and r: "r = (take k line, drop (k + 1) line)" by (auto split: option.splits if_splits)
    have "nl \<notin> set line" using "2.prems" by simp
    with str_find_SomeD [OF k] r show ?thesis
      by (auto simp: record_ok_def name_ok_def dest: in_set_takeD in_set_dropD)
  qed
qed simp

lemma load_records_ok: "r \<in> set (load_records opens path fs) \<Longrightarrow> record_ok r"
  unfolding load_records_def
  by (erule parse_records_ok [rotated])
     (auto simp: read_all_lines_def dest: getlines_no_nl split: option.splits if_splits)

lemma nl_record_line: "record_ok r \<Longrightarrow> nl \<notin> set (record_line r)"
  by (simp add: record_ok_def name_ok_def record_line_def)

definition recs_fit :: "io_env \<Rightarrow> user_record list \<Rightarrow> bool" where
  "recs_fit env rs \<longleftrightarrow> length (unlines (map record_line rs)) \<le> space env"

text \<open>Saving well-formed records and loading them again, through the line-file contract.\<close>

lemma save_load_records:
  assumes "save_records env path rs fs = (ok, fs')" "recs_fit env rs"
    and "\<And>r. r \<in> set rs \<Longrightarrow> record_ok r"
  shows "load_records True path fs' = (if ok then rs else load_records True path fs)"
proof -
  have "atomic_write_lines env path (map record_line rs) fs = (ok, fs')"
    using assms(1) by (simp add: save_records_def)
  then have "read_all_lines True path fs' = (if ok then map record_line rs else read_all_lines True path fs)"
    by (rule disk.rewrite_lines) (use assms(2,3) in \<open>auto simp: recs_fit_def dest: nl_record_line\<close>)
  then show ?thesis using assms(3) by (simp add: load_records_def parse_record_lines)
qed

lemma find_record_append:
  "find_record u (rs @ qs) = (case find_record u rs of None \<Rightarrow> find_record u qs | Some x \<Rightarrow> Some x)"
  by (induction rs) auto

subsection \<open>The abstract user table\<close>

text \<open>What the store promises: a partial map from user names to encrypted passwords.\<close>

definition users :: "user_registry \<Rightarrow> filesystem \<Rightarrow> (string \<rightharpoonup> string)" where
  "users r fs u = map_option from_hex (find_user_locked True r u fs)"

definition reliable :: "reg_io \<Rightarrow> user_registry \<Rightarrow> string \<Rightarrow> string \<Rightarrow> filesystem \<Rightarrow> bool" where
  "reliable io r u enc fs \<longleftrightarrow> find_opens io \<and> load_opens io
     \<and> recs_fit (write_env io) (load_records True (filepath r) fs @ [(u, to_hex enc)])"

lemma authenticate_users: "authenticate True r u enc fs \<longleftrightarrow> users r fs u = Some enc \<and> u \<notin> banned r"
  by (auto simp: authenticate_def users_def split: option.splits)

lemma user_exists_users: "user_exists True r u fs \<longleftrightarrow> u \<in> dom (users r fs)"
  by (auto simp: user_exists_def users_def)

lemma register_known: "u \<in> dom (users r fs) \<Longrightarrow> find_opens io \<Longrightarrow> register_user io r u enc fs = (False, fs, [])"
  by (auto simp: register_user_def users_def)

lemma record_ok_new: "name_ok u \<Longrightarrow> record_ok (u, to_hex enc)"
  using set_to_hex by (auto simp: record_ok_def)

lemma register_records:
  assumes "register_user io r u enc fs = (ok, fs', logs)" "reliable io r u enc fs" "name_ok u"
  shows "load_records True (filepath r) fs' =
      (if ok then load_records True (filepath r) fs @ [(u, to_hex enc)]
       else load_records True (filepath r) fs)"
    and "ok \<Longrightarrow> find_user_locked True r u fs = None"
proof -
  show "ok \<Longrightarrow> find_user_locked True r u fs = None"
    using assms(1,2) by (auto simp: register_user_def reliable_def split: if_splits)
  show "load_records True (filepath r) fs' =
      (if ok then load_records True (filepath r) fs @ [(u, to_hex enc)]
       else load_records True (filepath r) fs)"
  proof (cases "find_user_locked True r u fs = None")
    case False
    with assms(1,2) show ?thesis by (auto simp: register_user_def reliable_def)
  next
    case True
    let ?rs = "load_records True (filepath r) fs @ [(u, to_hex enc)]"
    have "save_records (write_env io) (filepath r) ?rs fs = (ok, fs')"
      using True assms(1,2) by (auto simp: register_user_def reliable_def split: prod.splits)
    then show ?thesis
      by (rule save_load_records)
         (use assms(2,3) in \<open>auto simp: reliable_def dest: load_records_ok intro: record_ok_new\<close>)
  qed
qed

lemma register_refines:
  assumes "register_user io r u enc fs = (ok, fs', logs)"
    and "reliable io r u enc fs" and "name_ok u"
  shows "users r fs' = (if ok then (users r fs)(u \<mapsto> enc) else users r fs)
    \<and> (ok \<longrightarrow> u \<notin> dom (users r fs))"
proof -
  note recs = register_records [OF assms]
  have "users r fs' v = (if ok then (users r fs)(u \<mapsto> enc) else users r fs) v" for v
    using recs by (auto simp: users_def find_user_locked_def find_record_append split: option.splits)
  then have "users r fs' = (if ok then (users r fs)(u \<mapsto> enc) else users r fs)" by (rule ext)
  with recs(2) show ?thesis by (auto simp: users_def)
qed


subsection \<open>What the users of \<open>IUserStore\<close> rely on\<close>

fun reg_run :: "('io \<Rightarrow> string \<Rightarrow> string \<Rightarrow> 's \<Rightarrow> bool \<times> 's) \<Rightarrow> ('io \<times> string \<times> string) list \<Rightarrow> 's \<Rightarrow> 's" where
  "reg_run reg [] s = s"
| "reg_run reg ((io, u, p) # xs) s = reg_run reg xs (snd (reg io u p s))"

fun reg_run_ok :: "('io \<Rightarrow> string \<Rightarrow> string \<Rightarrow> 's \<Rightarrow> bool \<times> 's) \<Rightarrow>
    ('io \<Rightarrow> string \<Rightarrow> string \<Rightarrow> 's \<Rightarrow> bool) \<Rightarrow> ('io \<times> string \<times> string) list \<Rightarrow> 's \<Rightarrow> bool" where
  "reg_run_ok reg good [] s = True"
| "reg_run_ok reg good ((io, u, p) # xs) s \<longleftrightarrow>
     good io u p s \<and> reg_run_ok reg good xs (snd (reg io u p s))"

text \<open>
  The contract of \<open>IUserStore\<close>, under a condition \<open>good\<close> on a registration (a well-formed
  name, and an environment in which the store can do its work): a successful registration
  makes one new account with one password, a failed one makes none.
\<close>

locale user_store =
  fixes reg :: "'io \<Rightarrow> string \<Rightarrow> string \<Rightarrow> 's \<Rightarrow> bool \<times> 's"
    and auth :: "string \<Rightarrow> string \<Rightarrow> 's \<Rightarrow> bool" and ex :: "string \<Rightarrow> 's \<Rightarrow> bool"
    and barred :: "string \<Rightarrow> bool"
    and good :: "'io \<Rightarrow> string \<Rightarrow> string \<Rightarrow> 's \<Rightarrow> bool"
  assumes reg_new: "good io u p s \<Longrightarrow> fst (reg io u p s) \<Longrightarrow>
      \<not> ex u s \<and> ex u (snd (reg io u p s)) \<and> (\<forall>q. auth u q (snd (reg io u p s)) \<longleftrightarrow> q = p \<and> \<not> barred u)"
    and reg_other: "good io u p s \<Longrightarrow> \<not> fst (reg io u p s) \<or> v \<noteq> u \<Longrightarrow>
      ex v (snd (reg io u p s)) = ex v s \<and> auth v q (snd (reg io u p s)) = auth v q s"
begin

text \<open>No later registration, successful or not, touches an existing account.\<close>

lemma account_kept:
  "ex v s \<Longrightarrow> reg_run_ok reg good xs s \<Longrightarrow>
   ex v (reg_run reg xs s) \<and> (\<forall>q. auth v q (reg_run reg xs s) = auth v q s)"
proof (induction xs arbitrary: s)
  case (Cons x xs)
  obtain io u p where x: "x = (io, u, p)" by (cases x) auto
  with Cons.prems have g: "good io u p s" by simp
  have "\<not> fst (reg io u p s) \<or> v \<noteq> u" using reg_new [OF g] Cons.prems(1) by blast
  then have "ex v (snd (reg io u p s)) \<and> (\<forall>q. auth v q (snd (reg io u p s)) = auth v q s)"
    using reg_other [OF g] Cons.prems(1) by blast
  with Cons x show ?case by simp
qed simp

text \<open>After a registration its password, and no other, opens the account for good.\<close>

lemma registered_password:
  assumes "good io u p s" "fst (reg io u p s)" "reg_run_ok reg good xs (snd (reg io u p s))"
  shows "auth u q (reg_run reg xs (snd (reg io u p s))) \<longleftrightarrow> q = p \<and> \<not> barred u"
  using account_kept [OF _ assms(3), of u] reg_new [OF assms(1,2)] by blast

end

definition register_call ::
    "user_registry \<Rightarrow> reg_io \<Rightarrow> string \<Rightarrow> string \<Rightarrow> filesystem \<Rightarrow> bool \<times> filesystem" where
  "register_call r io u enc fs = (let (ok, fs', _) = register_user io r u enc fs in (ok, fs'))"

definition good_call :: "user_registry \<Rightarrow> reg_io \<Rightarrow> string \<Rightarrow> string \<Rightarrow> filesystem \<Rightarrow> bool" where
  "good_call r io u enc fs \<longleftrightarrow> name_ok u \<and> reliable io r u enc fs"

lemma register_call_users:
  assumes "good_call r io u enc fs"
  shows "users r (snd (register_call r io u enc fs)) =
      (if fst (register_call r io u enc fs) then (users r fs)(u \<mapsto> enc) else users r fs)
    \<and> (fst (register_call r io u enc fs) \<longrightarrow> u \<notin> dom (users r fs))"
proof -
  obtain ok fs' logs where reg: "register_user io r u enc fs = (ok, fs', logs)" by (metis prod_cases3)
  with register_refines [OF reg] assms show ?thesis
    by (simp add: register_call_def good_call_def)
qed

interpretation registry: user_store "register_call r" "\<lambda>u q. authenticate True r u q"
  "\<lambda>u. user_exists True r u" "\<lambda>u. u \<in> banned r" "good_call r" for r :: user_registry
proof unfold_locales
  fix io u p fs v q
  assume g: "good_call r io u p fs"
  note upd = register_call_users [OF g]
  show "fst (register_call r io u p fs) \<Longrightarrow>
      \<not> user_exists True r u fs \<and> user_exists True r u (snd (register_call r io u p fs))
      \<and> (\<forall>q. authenticate True r u q (snd (register_call r io u p fs)) \<longleftrightarrow> q = p \<and> \<not> u \<in> banned r)"
    using upd by (auto simp: authenticate_users user_exists_users)
  show "\<not> fst (register_call r io u p fs) \<or> v \<noteq> u \<Longrightarrow>
      user_exists True r v (snd (register_call r io u p fs)) = user_exists True r v fs
      \<and> authenticate True r v q (snd (register_call r io u p fs)) = authenticate True r v q fs"
    using upd by (auto simp: authenticate_users user_exists_users)
qed


text \<open>A data file that exists but cannot be opened reads as an empty one, so a registration
  made then (the name is not found, the records are none) replaces the whole file by the one
  new record: every other account is gone.\<close>

theorem register_unreadable_drops_users:
  assumes "\<not> find_opens io" and "\<not> load_opens io"
    and "recs_fit (write_env io) [(u, to_hex enc)]" and "name_ok u"
    and "register_user io r u enc fs = (True, fs', logs)"
  shows "users r fs' = [u \<mapsto> enc]"
proof -
  have none: "load_records False (filepath r) fs = []"
    by (simp add: load_records_def read_all_lines_def split: option.splits)
  have "save_records (write_env io) (filepath r) [(u, to_hex enc)] fs = (True, fs')"
    using assms(1,2,5) none
    by (auto simp: register_user_def find_user_locked_def split: prod.splits)
  from save_load_records [OF this assms(3)] record_ok_new [OF assms(4)]
  have "load_records True (filepath r) fs' = [(u, to_hex enc)]" by simp
  then show ?thesis by (auto simp: users_def find_user_locked_def fun_eq_iff)
qed

subsection \<open>The store at work\<close>

definition disk_ok :: io_env where
  "disk_ok = \<lparr>mkdir_rc = (\<lambda>_. Mk_exists), open_ok = True, bufsz = 8191, space = 1000000,
     rename_ok = True\<rparr>"

definition io_ok :: reg_io where
  "io_ok = \<lparr>find_opens = True, load_opens = True, write_env = disk_ok, errno = 0\<rparr>"

definition demo_registry :: user_registry where
  "demo_registry = \<lparr>filepath = ''./data/registered_users.dat'', has_logger = True, banned = {}\<rparr>"

text \<open>The first two lines of the repository's own data file.\<close>

definition demo_fs :: filesystem where
  "demo_fs = \<lparr>files = [''./data/registered_users.dat'' \<mapsto>
     unlines [''Shiva:323F363635'', ''Smitha:323F363635'']], mkdirs = []\<rparr>"

lemmas demo_defs = disk_ok_def io_ok_def demo_registry_def demo_fs_def

lemma demo_records:
  "load_records True (filepath demo_registry) demo_fs
     = [(''Shiva'', ''323F363635''), (''Smitha'', ''323F363635'')]"
  by (simp add: demo_defs load_records_def read_all_lines_def getlines_def)

lemma demo_good: "good_call demo_registry io_ok ''Niya'' ''pw'' demo_fs"
  unfolding good_call_def reliable_def recs_fit_def demo_records
  by (simp add: name_ok_def io_ok_def disk_ok_def to_hex_def hex_byte_def record_line_def)

lemma disk_ok_dirs: "fst (ensure_parent_dir disk_ok path fs)"
proof -
  have one: "fst (mkdir_one disk_ok d fs)" for d fs by (simp add: mkdir_one_def disk_ok_def)
  have "fst (mkdir_prefixes disk_ok cur rest fs)" for cur rest fs
    by (induction rest arbitrary: cur fs) (simp_all add: one case_prod_unfold Let_def)
  then show ?thesis by (simp add: ensure_parent_dir_def ensure_dir_recursive_def Let_def)
qed

lemma disk_saves:
  assumes "recs_fit disk_ok rs"
  shows "\<exists>fs'. save_records disk_ok path rs fs = (True, fs')"
proof -
  have "o_good (put_lines disk_ok (map record_line rs) ofs_open)"
    by (rule put_lines_good [OF ofs_open_holds]) (use assms in \<open>simp add: recs_fit_def\<close>)
  with disk_ok_dirs [of path fs] show ?thesis
    by (auto simp: save_records_def atomic_write_lines_def disk_ok_def Let_def split: prod.splits)
qed

text \<open>On a disk that works a free name can be registered.\<close>

lemma disk_registers:
  assumes "name_ok u" and "find_user_locked True r u fs = None"
    and "recs_fit disk_ok (load_records True (filepath r) fs @ [(u, to_hex enc)])"
  shows "\<exists>fs'. register_user io_ok r u enc fs = (True, fs', [])
    \<and> load_records True (filepath r) fs' = load_records True (filepath r) fs @ [(u, to_hex enc)]"
proof -
  from disk_saves [OF assms(3), of "filepath r" fs] obtain fs' where
    "register_user io_ok r u enc fs = (True, fs', [])"
    using assms(2) by (auto simp: register_user_def io_ok_def)
  with register_records [OF this _ assms(1)] assms(3) show ?thesis
    by (simp add: reliable_def io_ok_def)
qed

lemma demo_register:
  "\<exists>fs'. register_user io_ok demo_registry ''Niya'' ''pw'' demo_fs = (True, fs', [])
     \<and> register_call demo_registry io_ok ''Niya'' ''pw'' demo_fs = (True, fs')"
proof -
  have "recs_fit disk_ok (load_records True (filepath demo_registry) demo_fs @ [(''Niya'', to_hex ''pw'')])"
    using demo_good by (simp add: good_call_def reliable_def io_ok_def)
  from disk_saves [OF this, of "filepath demo_registry" demo_fs] show ?thesis
    by (auto simp: register_call_def register_user_def find_user_locked_def io_ok_def demo_records)
qed



theorem register_unreadable_drops_users_witness:
  "\<exists>fs'. register_user (io_ok\<lparr>find_opens := False, load_opens := False\<rparr>) demo_registry
       ''Niya'' ''pw'' demo_fs = (True, fs', [])
     \<and> users demo_registry fs' = [''Niya'' \<mapsto> ''pw'']
     \<and> users demo_registry demo_fs ''Shiva'' \<noteq> None"
proof -
  let ?io = "io_ok\<lparr>find_opens := False, load_opens := False\<rparr>"
  have fit: "recs_fit disk_ok [(''Niya'', to_hex ''pw'')]"
    by (simp add: recs_fit_def disk_ok_def to_hex_def hex_byte_def record_line_def)
  have "\<exists>fs'. register_user ?io demo_registry ''Niya'' ''pw'' demo_fs = (True, fs', [])"
    using disk_saves [OF fit, of "filepath demo_registry" demo_fs]
    by (auto simp: register_user_def find_user_locked_def load_records_def read_all_lines_def
        io_ok_def demo_fs_def)
  then obtain fs' where r: "register_user ?io demo_registry ''Niya'' ''pw'' demo_fs = (True, fs', [])"
    by blast
  have "users demo_registry fs' = [''Niya'' \<mapsto> ''pw'']"
    by (rule register_unreadable_drops_users [OF _ _ _ _ r])
       (use fit in \<open>simp_all add: name_ok_def io_ok_def\<close>)
  moreover have "users demo_registry demo_fs ''Shiva'' \<noteq> None"
    using demo_records by (simp add: users_def find_user_locked_def)
  ultimately show ?thesis using r by blast
qed

end
