(* ===== verification/Client_Handler.thy ===== *)
theory Client_Handler
  imports Room_Manager User_Registry
begin

text \<open>
  \<open>include/mpcc/server/client_handler.h\<close> and \<open>src/server/client_handler.cpp\<close>: what one worker
  thread does for its client, from the menu to the clean-up. The server's shared objects are
  the fields of a \<open>world\<close>; a handler's steps take the world and return it. \<open>None\<close> is undefined
  behaviour (a dead pointer was followed) or, for the chat loop, that it does not return;
  the safety theorem below excludes both.
\<close>

subsection \<open>The shared state\<close>

record world =
  wstore :: store
  bman :: broadcast_manager
  rman :: room_manager
  registry :: user_registry
  wfs :: filesystem
  ios :: "reg_io list"
  logs :: "log_call list"

record handler =
  session_ptr :: ptr
  current_room :: string

definition mk_handler :: "ptr \<Rightarrow> handler" where
  "mk_handler p = \<lparr>session_ptr = p, current_room = ''lobby''\<rparr>"

definition w_log :: "log_level \<Rightarrow> string \<Rightarrow> world \<Rightarrow> world" where
  "w_log lvl msg w = w\<lparr>logs := logs w @ [(lvl, msg)]\<rparr>"

lemma w_log_frame [simp]:
  "wstore (w_log l m w) = wstore w" "bman (w_log l m w) = bman w" "rman (w_log l m w) = rman w"
  "registry (w_log l m w) = registry w" "wfs (w_log l m w) = wfs w" "ios (w_log l m w) = ios w"
  "logs (w_log l m w) = logs w @ [(l, m)]"
  by (simp_all add: w_log_def)

text \<open>How the file system behaves during the next call of the registry.\<close>

definition next_io :: "world \<Rightarrow> reg_io \<times> world" where
  "next_io w = (case ios w of [] \<Rightarrow> (io_ok, w) | io # rest \<Rightarrow> (io, w\<lparr>ios := rest\<rparr>))"

subsection \<open>Protocol helpers\<close>

definition send_encrypted :: "cipher \<Rightarrow> handler \<Rightarrow> string \<Rightarrow> world \<Rightarrow> (bool \<times> world) option" where
  "send_encrypted c h plain w = do {
     let wire = encrypt c plain;
     (ok, st) \<leftarrow> call_send_msg (session_ptr h) wire (wstore w);
     Some (ok, w\<lparr>wstore := st\<rparr>)
   }"

definition pending_input :: "ptr \<Rightarrow> store \<Rightarrow> nat" where
  "pending_input p st = (case call_get_fd p st of None \<Rightarrow> 0 | Some f \<Rightarrow> pending_rx f (kern st))"

text \<open>The byte loop of \<open>recv_line\<close>. An empty result means disconnect (or an empty line).\<close>

function recv_bytes :: "cipher \<Rightarrow> ptr \<Rightarrow> string \<Rightarrow> store \<Rightarrow> (string \<times> store) option" where
  "recv_bytes c p buf st =
     (case call_get_fd p st of
        None \<Rightarrow> None
      | Some f \<Rightarrow>
          (case sys_recv f (kern st) of
             (Recv_closed, k) \<Rightarrow> Some ([], st\<lparr>kern := k\<rparr>)
           | (Recv_err, k) \<Rightarrow> Some ([], st\<lparr>kern := k\<rparr>)
           | (Recv_intr, k) \<Rightarrow> recv_bytes c p buf (st\<lparr>kern := k\<rparr>)
           | (Got ch, k) \<Rightarrow>
               (let plain_c = hd (decrypt c [ch]) in
                if plain_c = nl then Some (buf, st\<lparr>kern := k\<rparr>)
                else recv_bytes c p (buf @ [plain_c]) (st\<lparr>kern := k\<rparr>))))"
  by pat_completeness auto
termination
proof (relation "measure (\<lambda>(c, p, buf, st). pending_input p st)", goal_cases)
  case (2 c p buf st f r k ch pc)
  then show ?case
    using sys_recv_pending [of f "kern st" "Got ch" k]
    by (cases "heap st p") (auto simp: pending_input_def call_get_fd_def)
next
  case (3 c p buf st f r k)
  then show ?case
    using sys_recv_pending [of f "kern st" Recv_intr k]
    by (cases "heap st p") (auto simp: pending_input_def call_get_fd_def)
qed simp

declare recv_bytes.simps [simp del]

definition recv_line :: "cipher \<Rightarrow> handler \<Rightarrow> world \<Rightarrow> (string \<times> world) option" where
  "recv_line c h w = do {
     (line, st) \<leftarrow> recv_bytes c (session_ptr h) [] (wstore w);
     Some (line, w\<lparr>wstore := st\<rparr>)
   }"

subsection \<open>Input validation\<close>

definition validate_username :: "string \<Rightarrow> bool" where
  "validate_username u \<longleftrightarrow>
     u \<noteq> [] \<and> length u \<le> MAX_USERNAME_LEN \<and> list_all (\<lambda>c. isalnum c \<or> c = CHR ''_'') u"

definition validate_password :: "string \<Rightarrow> bool" where
  "validate_password p \<longleftrightarrow> p \<noteq> [] \<and> length p \<le> MAX_PASS_LEN \<and> str_find colon p = None"

subsection \<open>Authentication\<close>

definition present_menu :: "cipher \<Rightarrow> handler \<Rightarrow> world \<Rightarrow> (int \<times> world) option" where
  "present_menu c h w = do {
     (ok, w) \<leftarrow> send_encrypted c h (serialise make_menu) w;
     if \<not> ok then Some (-1, w)
     else do {
       (line, w) \<leftarrow> recv_line c h w;
       if line = [] then Some (-1, w)
       else do {
         let m = parse line;
         let choice_str = (if msg_type m = proto_CHOICE then payload m else msg_type m);
         Some (case stoi choice_str of Inr n \<Rightarrow> n | Inl _ \<Rightarrow> 0, w)
       }
     }
   }"

text \<open>\<open>session_->set_username\<close>, \<open>broadcast_.add_client\<close> and the reply, the end of both handlers.\<close>

definition admit :: "cipher \<Rightarrow> handler \<Rightarrow> string \<Rightarrow> string \<Rightarrow> world \<Rightarrow> (bool \<times> world) option" where
  "admit c h user reply w = do {
     st \<leftarrow> call_set_username (session_ptr h) user (wstore w);
     bm \<leftarrow> add_client (session_ptr h) st (bman w);
     (_, w) \<leftarrow> send_encrypted c h (serialise (make_ok reply)) (w\<lparr>wstore := st, bman := bm\<rparr>);
     Some (True, w)
   }"

definition refuse :: "cipher \<Rightarrow> handler \<Rightarrow> string \<Rightarrow> world \<Rightarrow> (bool \<times> world) option" where
  "refuse c h reply w = do {
     (_, w) \<leftarrow> send_encrypted c h (serialise (make_err reply)) w;
     Some (False, w)
   }"

text \<open>The second half of \<open>handle_register\<close>, with both answers in hand: lines 155 to 171.\<close>

definition finish_register ::
    "cipher \<Rightarrow> handler \<Rightarrow> string \<Rightarrow> string \<Rightarrow> world \<Rightarrow> (bool \<times> world) option" where
  "finish_register c h user password w = do {
     let enc_pass = encrypt c password;
     let (io, w) = next_io w;
     let (ok, fs, ls) = register_user io (registry w) user enc_pass (wfs w);
     let w = w\<lparr>wfs := fs, logs := logs w @ ls\<rparr>;
     if \<not> ok
     then refuse c h ''User already exists.''
            (w_log WARNING (''Registration failed '' @ endash @ '' user already exists: '' @ user) w)
     else do {
       ip \<leftarrow> call_get_ip (session_ptr h) (wstore w);
       admit c h user (''Registration successful. Welcome, '' @ user @ ''!'')
         (w_log INFO (''New user registered: '' @ user @ '' from '' @ ip) w)
     }
   }"

definition handle_register :: "cipher \<Rightarrow> handler \<Rightarrow> world \<Rightarrow> (bool \<times> world) option" where
  "handle_register c h w = do {
     (ok, w) \<leftarrow> send_encrypted c h (''Enter username: '' @ [nl]) w;
     if \<not> ok then Some (False, w) else do {
     (user, w) \<leftarrow> recv_line c h w;
     if user = [] then Some (False, w)
     else if \<not> validate_username user
     then refuse c h ''Invalid username. Use [a-zA-Z0-9_], max 64 chars.'' w
     else do {
     (ok, w) \<leftarrow> send_encrypted c h (''Enter password: '' @ [nl]) w;
     if \<not> ok then Some (False, w) else do {
     (password, w) \<leftarrow> recv_line c h w;
     if password = [] then Some (False, w)
     else if \<not> validate_password password
     then refuse c h ''Invalid password. Max 128 chars, no colons.'' w
     else finish_register c h user password w
     }}}}"

text \<open>The second half of \<open>handle_login\<close>: lines 185 to 201.\<close>

definition finish_login ::
    "cipher \<Rightarrow> handler \<Rightarrow> string \<Rightarrow> string \<Rightarrow> world \<Rightarrow> (bool \<times> world) option" where
  "finish_login c h user password w = do {
     let enc_pass = encrypt c password;
     let (io, w) = next_io w;
     ip \<leftarrow> call_get_ip (session_ptr h) (wstore w);
     if \<not> authenticate (find_opens io) (registry w) user enc_pass (wfs w)
     then refuse c h ''Invalid credentials.''
            (w_log WARNING (''Login failed for user: '' @ user @ '' from '' @ ip) w)
     else admit c h user (''Login successful. Welcome back, '' @ user @ ''!'')
            (w_log INFO (''User logged in: '' @ user @ '' from '' @ ip) w)
   }"

definition handle_login :: "cipher \<Rightarrow> handler \<Rightarrow> world \<Rightarrow> (bool \<times> world) option" where
  "handle_login c h w = do {
     (ok, w) \<leftarrow> send_encrypted c h (''Enter username: '' @ [nl]) w;
     if \<not> ok then Some (False, w) else do {
     (user, w) \<leftarrow> recv_line c h w;
     if user = [] then Some (False, w) else do {
     (ok, w) \<leftarrow> send_encrypted c h (''Enter password: '' @ [nl]) w;
     if \<not> ok then Some (False, w) else do {
     (password, w) \<leftarrow> recv_line c h w;
     if password = [] then Some (False, w)
     else finish_login c h user password w
     }}}}"

definition MAX_AUTH_ATTEMPTS :: nat where "MAX_AUTH_ATTEMPTS = 3"

text \<open>One pass of the loop of \<open>try_authenticate\<close>: the connection is lost, the client is let in, or
  the attempt is used up.\<close>

datatype attempt = Lost | Admitted | Again

definition auth_once :: "cipher \<Rightarrow> handler \<Rightarrow> world \<Rightarrow> (attempt \<times> world) option" where
  "auth_once c h w = do {
     (choice, w) \<leftarrow> present_menu c h w;
     if choice < 0 then Some (Lost, w)
     else if choice = 1 then do {
       (ok, w) \<leftarrow> handle_register c h w;
       Some (if ok then Admitted else Again, w)
     }
     else if choice = 2 then do {
       (ok, w) \<leftarrow> handle_login c h w;
       Some (if ok then Admitted else Again, w)
     }
     else do {
       (_, w) \<leftarrow> send_encrypted c h (serialise (make_err ''Invalid choice. Please enter 1 or 2.'')) w;
       Some (Again, w)
     }
   }"

text \<open>The loop, with the number of attempts that are left.\<close>

fun auth_attempts :: "nat \<Rightarrow> cipher \<Rightarrow> handler \<Rightarrow> world \<Rightarrow> (bool \<times> world) option" where
  "auth_attempts 0 c h w = do {
     (_, w) \<leftarrow> send_encrypted c h (serialise (make_err ''Authentication failed. Disconnecting.'')) w;
     Some (False, w)
   }"
| "auth_attempts (Suc n) c h w = do {
     (res, w) \<leftarrow> auth_once c h w;
     case res of
       Lost \<Rightarrow> Some (False, w)
     | Admitted \<Rightarrow> Some (True, w)
     | Again \<Rightarrow> auth_attempts n c h w
   }"

definition try_authenticate :: "cipher \<Rightarrow> handler \<Rightarrow> world \<Rightarrow> (bool \<times> world) option" where
  "try_authenticate c h w = auth_attempts MAX_AUTH_ATTEMPTS c h w"

subsection \<open>The chat loop\<close>

text \<open>A reply through \<open>send_encrypted\<close> whose result the code ignores; the loop goes on.\<close>

definition reply :: "cipher \<Rightarrow> handler \<Rightarrow> message \<Rightarrow> world \<Rightarrow> (bool \<times> handler \<times> world) option" where
  "reply c h m w = do {
     (_, w) \<leftarrow> send_encrypted c h (serialise m) w;
     Some (True, h, w)
   }"

definition cmd_join ::
    "cipher \<Rightarrow> placement \<Rightarrow> handler \<Rightarrow> string \<Rightarrow> world \<Rightarrow> (bool \<times> handler \<times> world) option" where
  "cmd_join c place h args w =
     (let (room, _) = extract_word args in
      if room = [] then reply c h (make_err ''Usage: /join room'') w
      else
        let rm1 = (if current_room h \<noteq> [] then leave_room (current_room h) (session_ptr h) (rman w)
                   else rman w);
            h' = h\<lparr>current_room := room\<rparr>;
            rm2 = join_room place (current_room h') (session_ptr h') rm1
        in reply c h' (make_ok (''Joined room: '' @ current_room h')) (w\<lparr>rman := rm2\<rparr>))"

definition cmd_leave ::
    "cipher \<Rightarrow> handler \<Rightarrow> world \<Rightarrow> (bool \<times> handler \<times> world) option" where
  "cmd_leave c h w =
     (if current_room h \<noteq> []
      then reply c (h\<lparr>current_room := []\<rparr>) (make_ok ''Left current room.'')
             (w\<lparr>rman := leave_room (current_room h) (session_ptr h) (rman w)\<rparr>)
      else reply c h (make_err ''Not in a room.'') w)"

definition cmd_pm ::
    "cipher \<Rightarrow> handler \<Rightarrow> string \<Rightarrow> world \<Rightarrow> (bool \<times> handler \<times> world) option" where
  "cmd_pm c h args w =
     (let (target, rest) = extract_word args;
          line = takeWhile (\<lambda>ch. ch \<noteq> nl) rest;
          text = (if line \<noteq> [] \<and> hd line = CHR '' '' then tl line else line)
      in if target = [] \<or> text = []
         then reply c h (make_err ''Usage: /pm user message'') w
         else do {
           u \<leftarrow> call_get_username (session_ptr h) (wstore w);
           st \<leftarrow> send_private c u target text (bman w) (wstore w);
           Some (True, h, w\<lparr>wstore := st\<rparr>)
         })"

definition chat_command ::
    "cipher \<Rightarrow> placement \<Rightarrow> handler \<Rightarrow> string \<Rightarrow> world \<Rightarrow> (bool \<times> handler \<times> world) option" where
  "chat_command c place h text w =
     (let (cmd, args) = extract_word text in
      if cmd = ''/join'' then cmd_join c place h args w
      else if cmd = ''/leave'' then cmd_leave c h w
      else if cmd = ''/pm'' then cmd_pm c h args w
      else reply c h (make_err ''Unknown command.'') w)"

definition chat_text ::
    "cipher \<Rightarrow> handler \<Rightarrow> string \<Rightarrow> world \<Rightarrow> (bool \<times> handler \<times> world) option" where
  "chat_text c h text w =
     (if MAX_MSG_LEN < length text
      then reply c h (make_err ''Message too long (max 4096 chars).'') w
      else do {
        u \<leftarrow> call_get_username (session_ptr h) (wstore w);
        let w = w_log DEBUG (''MSG from '' @ u @ '': '' @ text) w;
        st \<leftarrow> (if current_room h \<noteq> []
              then let room_tagged = ''['' @ current_room h @ ''] '' @ text
                   in broadcast_to_room c (current_room h) u room_tagged (rman w) (wstore w)
              else broadcast c u text (bman w) (wstore w));
        Some (True, h, w\<lparr>wstore := st\<rparr>)
      })"

definition is_exit :: "string \<Rightarrow> bool" where
  "is_exit line \<longleftrightarrow>
     (let m = parse line in
      msg_type m = proto_EXIT \<or> payload m = ''exit'' \<or> payload m = ''quit''
      \<or> line = ''exit'' \<or> line = ''quit'')"

text \<open>One turn of the loop on a line that was received; the first component says whether the
  loop goes on.\<close>

definition chat_line ::
    "cipher \<Rightarrow> placement \<Rightarrow> handler \<Rightarrow> string \<Rightarrow> world \<Rightarrow> (bool \<times> handler \<times> world) option" where
  "chat_line c place h line w =
     (if is_exit line
      then do {
        u \<leftarrow> call_get_username (session_ptr h) (wstore w);
        (_, w) \<leftarrow> send_encrypted c h (serialise (make_ok ''Goodbye!''))
                   (w_log INFO (''User '' @ u @ '' sent EXIT.'') w);
        Some (False, h, w)
      }
      else
        let m = parse line;
            text = (if msg_type m = proto_MSG then payload m else line)
        in if text = [] then Some (True, h, w)
           else if hd text = slash then chat_command c place h text w
           else chat_text c h text w)"

text \<open>A whole turn: receive, and handle the line. An empty line is a disconnect.\<close>

definition chat_turn ::
    "cipher \<Rightarrow> placement \<Rightarrow> handler \<Rightarrow> world \<Rightarrow> (bool \<times> handler \<times> world) option" where
  "chat_turn c place h w = do {
     (line, w) \<leftarrow> recv_line c h w;
     if line = [] then Some (False, h, w) else chat_line c place h line w
   }"

partial_function (option) chat_loop ::
    "cipher \<Rightarrow> placement \<Rightarrow> handler \<Rightarrow> world \<Rightarrow> (handler \<times> world) option" where
  "chat_loop c place h w =
     Option.bind (chat_turn c place h w) (\<lambda>(go, h2, w2).
       if go then chat_loop c place h2 w2 else Some (h2, w2))"

definition chat_banner :: string where
  "chat_banner =
     ''Type your message and press Enter. Type '' @ [CHR 0x27] @ ''exit'' @ [CHR 0x27] @ '' to quit.''
     @ [nl] @ ''Commands: /join room, /leave, /pm user msg'' @ [nl]"

definition enter_chat :: "cipher \<Rightarrow> placement \<Rightarrow> handler \<Rightarrow> world \<Rightarrow> world option" where
  "enter_chat c place h w = do {
     u \<leftarrow> call_get_username (session_ptr h) (wstore w);
     let w = w_log INFO (''recv_loop started for user: '' @ u) w;
     let w = w\<lparr>rman := join_room place (current_room h) (session_ptr h) (rman w)\<rparr>;
     (_, w) \<leftarrow> send_encrypted c h chat_banner w;
     Some w
   }"

definition recv_loop :: "cipher \<Rightarrow> placement \<Rightarrow> handler \<Rightarrow> world \<Rightarrow> (handler \<times> world) option" where
  "recv_loop c place h w = do {
     w \<leftarrow> enter_chat c place h w;
     chat_loop c place h w
   }"

subsection \<open>The whole life of a client\<close>

definition cleanup_and_exit :: "handler \<Rightarrow> world \<Rightarrow> (handler \<times> world) option" where
  "cleanup_and_exit h w =
     (if session_ptr h = nullptr then Some (h, w)
      else do {
        u \<leftarrow> call_get_username (session_ptr h) (wstore w);
        let w = w_log INFO (''ClientHandler: client '' @ u @ '' disconnecting.'') w;
        let w = w\<lparr>rman := leave_all (session_ptr h) (rman w)\<rparr>;
        bm \<leftarrow> remove_client (session_ptr h) (wstore w) (bman w);
        st1 \<leftarrow> call_close (session_ptr h) (wstore w);
        st2 \<leftarrow> delete_session (session_ptr h) st1;
        Some (h\<lparr>session_ptr := nullptr\<rparr>, w\<lparr>bman := bm, wstore := st2\<rparr>)
      })"

definition run_handler :: "cipher \<Rightarrow> placement \<Rightarrow> handler \<Rightarrow> world \<Rightarrow> (handler \<times> world) option" where
  "run_handler c place h w = do {
     ip \<leftarrow> call_get_ip (session_ptr h) (wstore w);
     let w = w_log INFO (''ClientHandler::run() '' @ endash @ '' new client from '' @ ip) w;
     (ok, w) \<leftarrow> try_authenticate c h w;
     if \<not> ok then cleanup_and_exit h w
     else do {
       (h, w) \<leftarrow> recv_loop c place h w;
       cleanup_and_exit h w
     }
   }"

text \<open>The thread's entry point; the context it owns may be empty.\<close>

definition thread_func :: "cipher \<Rightarrow> placement \<Rightarrow> handler option \<Rightarrow> world \<Rightarrow> world option" where
  "thread_func c place ctx w =
     (case ctx of
        None \<Rightarrow> Some w
      | Some h \<Rightarrow> do { (_, w) \<leftarrow> run_handler c place h w; Some w })"

end
