(* ===== verification/Handler_Safety.thy ===== *)
theory Handler_Safety
  imports Client_Handler
begin

text \<open>
  What a client's handler does to the server it shares with the others. The invariant of the
  shared state, the two states of a handler (before and after authentication), and, for each
  step of \<open>ClientHandler\<close>, that it is defined, ends, and keeps both; so \<open>run\<close> always returns
  and leaves no pointer to the session it deletes.
\<close>

subsection \<open>Invariants and effects\<close>

definition world_wf :: "world \<Rightarrow> bool" where
  "world_wf w \<longleftrightarrow> store_wf (wstore w) \<and> bm_wf (bman w) (wstore w) \<and> rm_wf (rman w) (wstore w)
     \<and> fds_distinct (wstore w)"

text \<open>A session nobody but its handler knows yet; one that has just been admitted as user \<open>u\<close>;
  and one in the chat, in exactly its current room (in none after \<open>/leave\<close>).\<close>

definition auth_inv :: "ptr \<Rightarrow> world \<Rightarrow> bool" where
  "auth_inv p w \<longleftrightarrow> world_wf w \<and> (\<exists>s. heap (wstore w) p = Some s \<and> \<not> username_set s)
     \<and> p \<notin> set (clients (bman w)) \<and> (\<forall>r. \<not> in_room (rman w) r p)"

definition logged_in :: "ptr \<Rightarrow> string \<Rightarrow> world \<Rightarrow> bool" where
  "logged_in p u w \<longleftrightarrow> world_wf w \<and> call_get_username p (wstore w) = Some u
     \<and> p \<in> set (clients (bman w)) \<and> by_name (bman w) u = Some p
     \<and> (\<forall>r. \<not> in_room (rman w) r p)"

definition chat_inv :: "handler \<Rightarrow> string \<Rightarrow> world \<Rightarrow> bool" where
  "chat_inv h u w \<longleftrightarrow> world_wf w \<and> call_get_username (session_ptr h) (wstore w) = Some u
     \<and> (\<forall>r. in_room (rman w) r (session_ptr h) \<longleftrightarrow> r = current_room h \<and> r \<noteq> [])"

text \<open>What entering the chat needs of \<open>logged_in\<close>, and others cannot take away.\<close>

definition named_inv :: "ptr \<Rightarrow> string \<Rightarrow> world \<Rightarrow> bool" where
  "named_inv p u w \<longleftrightarrow> world_wf w \<and> call_get_username p (wstore w) = Some u
     \<and> (\<forall>r. \<not> in_room (rman w) r p)"

lemma logged_in_named: "logged_in p u w \<Longrightarrow> named_inv p u w"
  by (simp add: logged_in_def named_inv_def)

text \<open>No session has more input to come than before.\<close>

definition shrinks :: "store \<Rightarrow> store \<Rightarrow> bool" where
  "shrinks st st' \<longleftrightarrow> (\<forall>q. pending_input q st' \<le> pending_input q st)"

lemma shrinks_refl [simp]: "shrinks st st"
  by (simp add: shrinks_def)

lemma shrinks_trans: "shrinks a b \<Longrightarrow> shrinks b c \<Longrightarrow> shrinks a c"
  by (metis shrinks_def le_trans)

lemma shrinks_at: "shrinks st st' \<Longrightarrow> pending_input q st' \<le> pending_input q st"
  by (simp add: shrinks_def)

lemma shrinks_same: "(\<And>q. pending_input q st' = pending_input q st) \<Longrightarrow> shrinks st st'"
  by (simp add: shrinks_def)

text \<open>The effect of sends, receives and logging in \<open>p\<close>'s thread.\<close>

definition quiet :: "ptr \<Rightarrow> world \<Rightarrow> world \<Rightarrow> bool" where
  "quiet p w w' \<longleftrightarrow> bman w' = bman w \<and> rman w' = rman w \<and> registry w' = registry w \<and> wfs w' = wfs w
     \<and> same_ids (wstore w) (wstore w') \<and> closes (kern (wstore w')) = closes (kern (wstore w))
     \<and> shrinks (wstore w) (wstore w')"

text \<open>The effect of any step of \<open>p\<close>'s thread but the last: what the others have is theirs.\<close>

definition turn :: "ptr \<Rightarrow> world \<Rightarrow> world \<Rightarrow> bool" where
  "turn p w w' \<longleftrightarrow> registry w' = registry w
     \<and> live (wstore w') p = live (wstore w) p \<and> fd_of (wstore w') p = fd_of (wstore w) p
     \<and> closes (kern (wstore w')) = closes (kern (wstore w))
     \<and> shrinks (wstore w) (wstore w')
     \<and> (\<forall>q. q \<noteq> p \<longrightarrow> (q \<in> set (clients (bman w')) \<longleftrightarrow> q \<in> set (clients (bman w)))
          \<and> (\<forall>r. in_room (rman w') r q = in_room (rman w) r q)
          \<and> rel_option same_id (heap (wstore w) q) (heap (wstore w') q))"

lemma quiet_refl [simp]: "quiet p w w"
  by (simp add: quiet_def)

lemma turn_refl [simp]: "turn p w w"
  by (simp add: turn_def option.rel_refl)

lemma quiet_trans [trans]: "quiet p a b \<Longrightarrow> quiet p b c \<Longrightarrow> quiet p a c"
  by (auto simp: quiet_def intro: same_ids_trans shrinks_trans)

lemma turn_trans [trans]: "turn p a b \<Longrightarrow> turn p b c \<Longrightarrow> turn p a c"
  unfolding turn_def by (auto intro: rel_same_id_trans shrinks_trans)

lemma quiet_turn: "quiet p w w' \<Longrightarrow> turn p w w'"
  using same_ids_live [of "wstore w" "wstore w'" p] fd_of_same_ids [of "wstore w" "wstore w'" p]
  by (simp add: quiet_def turn_def same_ids_at)

lemma quiet_live: "quiet p w w' \<Longrightarrow> live (wstore w') q = live (wstore w) q"
  by (simp add: quiet_def same_ids_live)

lemma quiet_world_wf [wf_intros]: "world_wf w \<Longrightarrow> quiet p w w' \<Longrightarrow> world_wf w'"
  unfolding world_wf_def quiet_def by (auto intro: wf_intros)

lemma quiet_auth [wf_intros]: "auth_inv p w \<Longrightarrow> quiet p w w' \<Longrightarrow> auth_inv p w'"
  using quiet_world_wf [of w p w'] same_ids_heap [of "wstore w" "wstore w'" p]
  by (auto simp: auth_inv_def quiet_def same_id_def)

lemma quiet_logged_in [wf_intros]: "logged_in p u w \<Longrightarrow> quiet p w w' \<Longrightarrow> logged_in p u w'"
  using quiet_world_wf [of w p w'] same_ids_get(1) [of "wstore w" "wstore w'" p]
  by (simp add: logged_in_def quiet_def)

lemma quiet_chat [wf_intros]:
  "chat_inv h u w \<Longrightarrow> quiet (session_ptr h) w w' \<Longrightarrow> chat_inv h u w'"
  using quiet_world_wf [of w "session_ptr h" w'] same_ids_get(1) [of "wstore w" "wstore w'" "session_ptr h"]
  by (simp add: chat_inv_def quiet_def)

lemma pending_sent_only: "sent_only st st' \<Longrightarrow> pending_input p st' = pending_input p st"
proof -
  assume s: "sent_only st st'"
  have "pending_rx f (kern st') = pending_rx f (kern st)" for f
  proof -
    have "map_option (\<lambda>s. (rx s, shut s)) (socks (kern st') f)
        = map_option (\<lambda>s. (rx s, shut s)) (socks (kern st) f)"
      using s by (simp add: sent_only_def)
    then show ?thesis
      by (cases "socks (kern st') f"; cases "socks (kern st) f") (auto simp: pending_rx_def)
  qed
  with same_ids_get(3) [OF sent_only_same_ids [OF s], of p] show ?thesis
    by (simp add: pending_input_def split: option.splits)
qed

lemma sent_only_quiet: "sent_only (wstore w) st \<Longrightarrow> quiet p w (w\<lparr>wstore := st\<rparr>)"
  by (simp add: quiet_def sent_only_same_ids shrinks_same pending_sent_only) (simp add: sent_only_def)

lemma quiet_upd [simp]:
  "quiet p w0 (w_log l m w) = quiet p w0 w" "quiet p w0 (w\<lparr>ios := i\<rparr>) = quiet p w0 w"
  "quiet p w0 (w\<lparr>logs := x\<rparr>) = quiet p w0 w"
  by (simp_all add: quiet_def w_log_def)

lemma turn_upd [simp]:
  "turn p w0 (w_log l m w) = turn p w0 w" "turn p w0 (w\<lparr>ios := i\<rparr>) = turn p w0 w"
  "turn p w0 (w\<lparr>logs := x\<rparr>) = turn p w0 w" "turn p w0 (w\<lparr>wfs := f\<rparr>) = turn p w0 w"
  "turn p w0 (w\<lparr>wfs := f, logs := x\<rparr>) = turn p w0 w"
  by (simp_all add: turn_def w_log_def)

lemma inv_upd [simp]:
  "auth_inv p (w_log l m w) = auth_inv p w" "auth_inv p (w\<lparr>ios := i\<rparr>) = auth_inv p w"
  "auth_inv p (w\<lparr>wfs := f, logs := x\<rparr>) = auth_inv p w"
  "chat_inv h u (w_log l m w) = chat_inv h u w" "logged_in p u (w_log l m w) = logged_in p u w"
  by (simp_all add: auth_inv_def chat_inv_def logged_in_def world_wf_def w_log_def)

lemma inv_live:
  "auth_inv p w \<Longrightarrow> live (wstore w) p" "logged_in p u w \<Longrightarrow> live (wstore w) p"
  "chat_inv h u w \<Longrightarrow> live (wstore w) (session_ptr h)"
  by (auto simp: auth_inv_def logged_in_def chat_inv_def live_def call_get_username_def)

lemma next_io_quiet: "next_io w = (io, w') \<Longrightarrow> quiet p w w' \<and> logs w' = logs w"
  by (auto simp: next_io_def split: list.splits)

subsection \<open>Sending and receiving\<close>

text \<open>Each rule is relative to a state \<open>w0\<close> passed earlier in the same function, so that a
  function's effect accumulates along its calls.\<close>

lemma send_encrypted_wp:
  assumes "live (wstore w0) (session_ptr h)" "quiet (session_ptr h) w0 w"
    and "\<And>ok w'. quiet (session_ptr h) w0 w' \<Longrightarrow> Q (ok, w')"
  shows "wp (send_encrypted c h s w) Q"
proof -
  let ?p = "session_ptr h"
  have "live (wstore w) ?p" using assms(1) quiet_live [OF assms(2)] by simp
  then obtain ok st where s: "call_send_msg ?p (encrypt c s) (wstore w) = Some (ok, st)"
    using call_send_msg_live by blast
  from quiet_trans [OF assms(2) sent_only_quiet [OF call_send_msg_sent_only [OF s]]]
  show ?thesis using s assms(3) by (simp add: send_encrypted_def)
qed

text \<open>What one \<open>recv\<close> leaves: input gets shorter, and nothing else changes.\<close>

definition received :: "store \<Rightarrow> store \<Rightarrow> bool" where
  "received st st' \<longleftrightarrow> heap st' = heap st \<and> closes (kern st') = closes (kern st)
     \<and> shrinks st st'"

lemma received_quiet: "received (wstore w) st \<Longrightarrow> quiet p w (w\<lparr>wstore := st\<rparr>)"
  by (simp add: received_def quiet_def same_ids_def option.rel_refl)

lemma received_trans: "received a b \<Longrightarrow> received b c \<Longrightarrow> received a c"
  by (auto simp: received_def intro: shrinks_trans)

lemma sys_recv_le: "pending_rx g (snd (sys_recv f k)) \<le> pending_rx g k"
  by (auto simp: sys_recv_def pending_rx_def split: option.splits list.splits)

lemma sys_recv_received:
  assumes "call_get_fd p st = Some f"
  shows "received st (st\<lparr>kern := snd (sys_recv f (kern st))\<rparr>)"
    and "sys_recv f (kern st) = (Got ch, k') \<Longrightarrow> pending_input p (st\<lparr>kern := k'\<rparr>) < pending_input p st"
proof -
  have fd: "call_get_fd p (st\<lparr>kern := k\<rparr>) = Some f" for k
    using assms by (simp add: call_get_fd_def)
  show "received st (st\<lparr>kern := snd (sys_recv f (kern st))\<rparr>)"
    by (auto simp: received_def frame_simps shrinks_def pending_input_def call_get_fd_def sys_recv_le
        split: option.splits)
  show "sys_recv f (kern st) = (Got ch, k') \<Longrightarrow> pending_input p (st\<lparr>kern := k'\<rparr>) < pending_input p st"
    by (simp add: pending_input_def fd assms sys_recv_pending)
qed

lemma recv_bytes_wp:
  "live st p \<Longrightarrow> nl \<notin> set buf \<Longrightarrow>
   wp (recv_bytes c p buf st) (\<lambda>(line, st'). received st st' \<and> nl \<notin> set line
     \<and> (line \<noteq> [] \<longrightarrow> pending_input p st' < pending_input p st))"
proof (induction c p buf st rule: recv_bytes.induct)
  case (1 c p buf st)
  obtain f where f: "call_get_fd p st = Some f"
    using "1.prems" by (auto simp: live_def call_get_fd_def)
  obtain r k where r: "sys_recv f (kern st) = (r, k)" by force
  let ?st = "st\<lparr>kern := k\<rparr>"
  have rec: "received st ?st" using sys_recv_received(1) [OF f] r by simp
  have live: "live ?st p" using "1.prems" by (simp add: live_def)
  have more: "wp (recv_bytes c p b ?st) (\<lambda>(line, st'). received st st' \<and> nl \<notin> set line
      \<and> (line \<noteq> [] \<longrightarrow> pending_input p st' < pending_input p st))"
    if "wp (recv_bytes c p b ?st) (\<lambda>(line, st'). received ?st st' \<and> nl \<notin> set line
      \<and> (line \<noteq> [] \<longrightarrow> pending_input p st' < pending_input p ?st))" for b
    by (rule wp_mono [OF that]) (use shrinks_at [of st ?st p] rec received_trans [OF rec] in \<open>auto simp: received_def\<close>)
  show ?case
  proof (cases r)
    case (Got ch)
    with r f have less: "pending_input p ?st < pending_input p st"
      using sys_recv_received(2) [OF f] by simp
    let ?c = "hd (decrypt c [ch])"
    show ?thesis
    proof (cases "?c = nl")
      case True
      with Got r f rec less "1.prems" show ?thesis by (simp add: recv_bytes.simps [of c p buf st])
    next
      case False
      have "wp (recv_bytes c p (buf @ [?c]) ?st) (\<lambda>(line, st'). received ?st st' \<and> nl \<notin> set line
          \<and> (line \<noteq> [] \<longrightarrow> pending_input p st' < pending_input p ?st))"
        using "1.IH"(1) [OF f r [symmetric] Got refl False live] "1.prems" False by simp
      from more [OF this] Got r f False show ?thesis by (simp add: recv_bytes.simps [of c p buf st])
    qed
  next
    case Recv_intr
    with more "1.IH"(2) [OF f r [symmetric] Recv_intr live] "1.prems" r f show ?thesis
      by (simp add: recv_bytes.simps [of c p buf st])
  qed (use r f rec in \<open>simp_all add: recv_bytes.simps [of c p buf st]\<close>)
qed

lemma recv_line_wp:
  assumes "live (wstore w0) (session_ptr h)" "quiet (session_ptr h) w0 w"
    and "\<And>line w'. quiet (session_ptr h) w0 w' \<Longrightarrow> nl \<notin> set line \<Longrightarrow>
      (line \<noteq> [] \<Longrightarrow> pending_input (session_ptr h) (wstore w') < pending_input (session_ptr h) (wstore w)) \<Longrightarrow>
      Q (line, w')"
  shows "wp (recv_line c h w) Q"
proof -
  let ?p = "session_ptr h"
  have "live (wstore w) ?p" using assms(1) quiet_live [OF assms(2)] by simp
  then have "wp (recv_bytes c ?p [] (wstore w)) (\<lambda>(line, st'). received (wstore w) st'
      \<and> nl \<notin> set line \<and> (line \<noteq> [] \<longrightarrow> pending_input ?p st' < pending_input ?p (wstore w)))"
    by (rule recv_bytes_wp) simp
  then have "wp (recv_bytes c ?p [] (wstore w)) (\<lambda>(line, st). Q (line, w\<lparr>wstore := st\<rparr>))"
    by (rule wp_mono) (auto intro!: assms(3) quiet_trans [OF assms(2)] dest: received_quiet)
  then show ?thesis by (simp add: recv_line_def case_prod_unfold)
qed

subsection \<open>Authentication\<close>

lemma present_menu_wp:
  assumes "live (wstore w) (session_ptr h)" "\<And>n w'. quiet (session_ptr h) w w' \<Longrightarrow> Q (n, w')"
  shows "wp (present_menu c h w) Q"
  unfolding present_menu_def using assms
  by (auto intro!: send_encrypted_wp [OF assms(1)] recv_line_wp [OF assms(1)] simp: Let_def)

lemma refuse_wp:
  assumes "live (wstore w) (session_ptr h)" "\<And>w'. quiet (session_ptr h) w w' \<Longrightarrow> Q (False, w')"
  shows "wp (refuse c h s w) Q"
  unfolding refuse_def using assms(2) by (auto intro!: send_encrypted_wp [OF assms(1)])

lemma call_set_username_eff:
  assumes "heap st p = Some s" "\<not> username_set s"
  shows "\<exists>st'. call_set_username p u st = Some st' \<and> kern st' = kern st
    \<and> call_get_username p st' = Some u
    \<and> (\<forall>q. q \<noteq> p \<longrightarrow> heap st' q = heap st q) \<and> (\<forall>q. live st' q = live st q)
    \<and> (\<forall>q. fd_of st' q = fd_of st q) \<and> (\<forall>q. call_is_active q st' = call_is_active q st)"
  using assms
  by (auto simp: call_set_username_def call_get_username_def get_username_def set_username_def
      live_def fd_of_def call_get_fd_def get_fd_def call_is_active_def is_active_def)

lemma store_wf_iff: "store_wf st \<longleftrightarrow> \<not> live st nullptr"
  by (simp add: store_wf_def live_def)

lemma admit_wp:
  assumes inv: "auth_inv (session_ptr h) w"
    and Q: "\<And>w'. turn (session_ptr h) w w' \<Longrightarrow> logged_in (session_ptr h) user w' \<Longrightarrow> wfs w' = wfs w \<Longrightarrow>
      Q (True, w')"
  shows "wp (admit c h user msg w) Q"
proof -
  let ?p = "session_ptr h"
  from inv obtain s where s: "heap (wstore w) ?p = Some s" "\<not> username_set s"
    and wf: "world_wf w" and new: "?p \<notin> set (clients (bman w))" "\<And>r. \<not> in_room (rman w) r ?p"
    by (auto simp: auth_inv_def)
  from call_set_username_eff [OF s, of user] obtain st
    where st: "call_set_username ?p user (wstore w) = Some st" "kern st = kern (wstore w)"
      "call_get_username ?p st = Some user" "\<And>q. q \<noteq> ?p \<Longrightarrow> heap st q = heap (wstore w) q"
      "\<And>q. live st q = live (wstore w) q" "\<And>q. fd_of st q = fd_of (wstore w) q"
      "\<And>q. call_is_active q st = call_is_active q (wstore w)" by blast
  have name: "call_get_username q st = call_get_username q (wstore w)" if "q \<noteq> ?p" for q
    using st(4) [OF that] by (simp add: call_get_username_def)
  have store: "store_wf st" "fds_distinct st" "rm_wf (rman w) st"
    using wf st(5,6,7) by (auto simp: world_wf_def store_wf_iff fds_distinct_def rm_wf_def)
  have "bm_wf (bman w) st"
    using wf new(1) st(5) name unfolding world_wf_def bm_wf_def by metis
  moreover have live: "live st ?p" using st(5) s(1) by (simp add: live_def)
  ultimately obtain bm where bm: "add_client ?p st (bman w) = Some bm" "bm_wf bm st"
    "clients bm = clients (bman w) @ [?p]" "by_name bm = (by_name (bman w))(user \<mapsto> ?p)"
    using add_client_wf [OF _ store(1) live new(1)] st(3) by auto
  let ?w = "w\<lparr>wstore := st, bman := bm\<rparr>"
  have "turn ?p w ?w"
    using st bm(3)
    by (auto simp: turn_def shrinks_def pending_input_def fd_of_def option.rel_refl split: option.splits)
  moreover have "logged_in ?p user ?w"
    using store bm st(3) new(2) by (simp add: logged_in_def world_wf_def)
  ultimately have "Q (True, w')" if "quiet ?p ?w w'" for w'
    using Q [OF turn_trans [OF _ quiet_turn [OF that]] quiet_logged_in [OF _ that]] that
    by (simp add: quiet_def)
  then have "wp (send_encrypted c h (serialise (make_ok msg)) ?w) (\<lambda>(_, w'). Q (True, w'))"
    by (intro send_encrypted_wp [of ?w]) (use live in simp_all)
  with st(1) bm(1) show ?thesis by (simp add: admit_def case_prod_unfold)
qed

text \<open>
  What each attempt establishes. A registration that succeeds validated both fields and made
  the account; a login that succeeds authenticated the pair against the registry. In both the
  session carries the name that was proved, and the name index leads to it.
\<close>

definition registered_as :: "cipher \<Rightarrow> world \<Rightarrow> string \<Rightarrow> world \<Rightarrow> bool" where
  "registered_as c w u w' \<longleftrightarrow> (\<exists>pw io ls. validate_username u \<and> validate_password pw
     \<and> register_user io (registry w) u (encrypt c pw) (wfs w) = (True, wfs w', ls))"

definition authenticated_as :: "cipher \<Rightarrow> world \<Rightarrow> string \<Rightarrow> world \<Rightarrow> bool" where
  "authenticated_as c w u w' \<longleftrightarrow> (\<exists>pw opens. wfs w' = wfs w
     \<and> authenticate opens (registry w) u (encrypt c pw) (wfs w))"

lemma finish_register_wp:
  assumes q: "quiet (session_ptr h) w0 w" and inv: "auth_inv (session_ptr h) w0"
    and ok: "validate_username u" "validate_password pw"
    and fail: "\<And>w'. turn (session_ptr h) w0 w' \<Longrightarrow> auth_inv (session_ptr h) w' \<Longrightarrow> Q (False, w')"
    and succ: "\<And>u w'. turn (session_ptr h) w0 w' \<Longrightarrow> logged_in (session_ptr h) u w' \<Longrightarrow>
      registered_as c w0 u w' \<Longrightarrow> Q (True, w')"
  shows "wp (finish_register c h u pw w) Q"
proof -
  let ?p = "session_ptr h"
  obtain io w2 where n: "next_io w = (io, w2)" by force
  obtain b fs ls where r: "register_user io (registry w2) u (encrypt c pw) (wfs w2) = (b, fs, ls)"
    by (metis prod_cases3)
  have q2: "quiet ?p w0 w2" using quiet_trans [OF q] next_io_quiet [OF n] by blast
  define w3 where "w3 = w2\<lparr>wfs := fs, logs := logs w2 @ ls\<rparr>"
  have t: "turn ?p w0 w3" "auth_inv ?p w3"
    using quiet_turn [OF q2] quiet_auth [OF inv q2] by (simp_all add: w3_def)
  obtain ip where ip: "call_get_ip ?p (wstore w3) = Some ip"
    using inv_live(1) [OF t(2)] by (auto simp: live_def call_get_ip_def)
  have reg: "registered_as c w0 u w'" if "b" "wfs w' = fs" for w'
    using ok q2 r that unfolding registered_as_def quiet_def by metis
  have yes: "wp (admit c h u m (w_log INFO l w3)) Q" if "b" for m l
  proof (rule admit_wp)
    show "turn ?p (w_log INFO l w3) w' \<Longrightarrow> logged_in ?p u w' \<Longrightarrow> wfs w' = wfs (w_log INFO l w3)
        \<Longrightarrow> Q (True, w')" for w'
      by (rule succ [OF turn_trans [of ?p w0 "w_log INFO l w3" w'] _ reg [OF \<open>b\<close>]])
         (use t(1) in \<open>simp_all add: w3_def w_log_def\<close>)
  qed (simp add: t(2))
  have no: "wp (refuse c h s (w_log l m w3)) Q" for s l m
    by (rule refuse_wp) (use t inv_live in \<open>auto intro!: fail
      intro: turn_trans [of ?p w0 "w_log l m w3", OF _ quiet_turn] quiet_auth [of ?p "w_log l m w3"]\<close>)
  show ?thesis
    using n r ip yes no unfolding finish_register_def by (simp flip: w3_def)
qed

lemma handle_register_wp:
  assumes inv: "auth_inv (session_ptr h) w"
    and fail: "\<And>w'. turn (session_ptr h) w w' \<Longrightarrow> auth_inv (session_ptr h) w' \<Longrightarrow> Q (False, w')"
    and succ: "\<And>u w'. turn (session_ptr h) w w' \<Longrightarrow> logged_in (session_ptr h) u w' \<Longrightarrow>
      registered_as c w u w' \<Longrightarrow> Q (True, w')"
  shows "wp (handle_register c h w) Q"
proof -
  let ?p = "session_ptr h"
  note live = inv_live(1) [OF inv]
  have quit: "Q (False, w')" if "quiet ?p w w'" for w'
    by (rule fail [OF quiet_turn [OF that] quiet_auth [OF inv that]])
  have ref: "wp (refuse c h s w1) Q" if "quiet ?p w w1" for s w1
    by (rule refuse_wp) (use quiet_live [OF that] live quit quiet_trans [OF that] in auto)
  have fin: "wp (finish_register c h u pw w1) Q"
    if "quiet ?p w w1" "validate_username u" "validate_password pw" for u pw w1
    by (rule finish_register_wp [OF that(1) inv that(2,3) fail succ])
  show ?thesis
    unfolding handle_register_def
    by (auto intro!: send_encrypted_wp [OF live] recv_line_wp [OF live] quit ref fin)
qed

lemma finish_login_wp:
  assumes q: "quiet (session_ptr h) w0 w" and inv: "auth_inv (session_ptr h) w0"
    and fail: "\<And>w'. turn (session_ptr h) w0 w' \<Longrightarrow> auth_inv (session_ptr h) w' \<Longrightarrow> Q (False, w')"
    and succ: "\<And>u w'. turn (session_ptr h) w0 w' \<Longrightarrow> logged_in (session_ptr h) u w' \<Longrightarrow>
      authenticated_as c w0 u w' \<Longrightarrow> Q (True, w')"
  shows "wp (finish_login c h u pw w) Q"
proof -
  let ?p = "session_ptr h"
  obtain io w2 where n: "next_io w = (io, w2)" by force
  have q2: "quiet ?p w0 w2" using quiet_trans [OF q] next_io_quiet [OF n] by blast
  note inv2 = quiet_auth [OF inv q2]
  obtain ip where ip: "call_get_ip ?p (wstore w2) = Some ip"
    using inv_live(1) [OF inv2] by (auto simp: live_def call_get_ip_def)
  have yes: "wp (admit c h u m (w_log INFO l w2)) Q"
    if a: "authenticate (find_opens io) (registry w2) u (encrypt c pw) (wfs w2)" for m l
  proof (rule admit_wp)
    have auth: "authenticated_as c w0 u w'" if "wfs w' = wfs w2" for w'
      using a q2 that unfolding authenticated_as_def quiet_def by metis
    show "turn ?p (w_log INFO l w2) w' \<Longrightarrow> logged_in ?p u w' \<Longrightarrow> wfs w' = wfs (w_log INFO l w2)
        \<Longrightarrow> Q (True, w')" for w'
      by (rule succ [OF turn_trans [of ?p w0 "w_log INFO l w2" w'] _ auth])
         (use quiet_turn [OF q2] in \<open>simp_all add: w_log_def\<close>)
  qed (simp add: inv2)
  have no: "wp (refuse c h s (w_log l m w2)) Q" for s l m
  proof (rule refuse_wp)
    show "Q (False, w')" if "quiet ?p (w_log l m w2) w'" for w'
      using fail [OF quiet_turn quiet_auth [OF inv]] quiet_trans [OF _ that, of w0] q2 by simp
  qed (use inv_live(1) [OF inv2] in \<open>simp add: w_log_def\<close>)
  show ?thesis
    using n ip yes no unfolding finish_login_def by simp
qed

lemma handle_login_wp:
  assumes inv: "auth_inv (session_ptr h) w"
    and fail: "\<And>w'. turn (session_ptr h) w w' \<Longrightarrow> auth_inv (session_ptr h) w' \<Longrightarrow> Q (False, w')"
    and succ: "\<And>u w'. turn (session_ptr h) w w' \<Longrightarrow> logged_in (session_ptr h) u w' \<Longrightarrow>
      authenticated_as c w u w' \<Longrightarrow> Q (True, w')"
  shows "wp (handle_login c h w) Q"
proof -
  let ?p = "session_ptr h"
  note live = inv_live(1) [OF inv]
  have quit: "Q (False, w')" if "quiet ?p w w'" for w'
    by (rule fail [OF quiet_turn [OF that] quiet_auth [OF inv that]])
  have fin: "wp (finish_login c h u pw w1) Q" if "quiet ?p w w1" for u pw w1
    by (rule finish_login_wp [OF that(1) inv fail succ])
  show ?thesis
    unfolding handle_login_def
    by (auto intro!: send_encrypted_wp [OF live] recv_line_wp [OF live] quit fin)
qed

text \<open>All attempts together: either the handler is let in under a name that was proved in one of
  the attempts, or the session is still unknown to everyone else.\<close>

definition proved_as :: "cipher \<Rightarrow> ptr \<Rightarrow> world \<Rightarrow> string \<Rightarrow> world \<Rightarrow> bool" where
  "proved_as c p w u w' \<longleftrightarrow> (\<exists>w1. turn p w w1
     \<and> (registered_as c w1 u w' \<or> authenticated_as c w1 u w'))"

definition auth_result :: "cipher \<Rightarrow> ptr \<Rightarrow> world \<Rightarrow> bool \<times> world \<Rightarrow> bool" where
  "auth_result c p w res \<longleftrightarrow> turn p w (snd res)
     \<and> (if fst res then \<exists>u. logged_in p u (snd res) \<and> proved_as c p w u (snd res)
        else auth_inv p (snd res))"

lemma auth_result_turn: "turn p w w1 \<Longrightarrow> auth_result c p w1 res \<Longrightarrow> auth_result c p w res"
  using turn_trans [of p w w1] by (auto simp: auth_result_def proved_as_def split: if_splits)

lemma auth_result_quit: "auth_inv p w \<Longrightarrow> quiet p w w' \<Longrightarrow> auth_result c p w (False, w')"
  using quiet_turn quiet_auth by (simp add: auth_result_def)

definition attempt_result :: "cipher \<Rightarrow> ptr \<Rightarrow> world \<Rightarrow> attempt \<times> world \<Rightarrow> bool" where
  "attempt_result c p w res \<longleftrightarrow> auth_result c p w (fst res = Admitted, snd res)"

lemma auth_once_wp:
  assumes inv: "auth_inv (session_ptr h) w"
  shows "wp (auth_once c h w) (attempt_result c (session_ptr h) w)"
proof -
  let ?p = "session_ptr h"
  note live = inv_live(1) [OF inv]
  have won: "auth_result c ?p w (True, w2)"
    if "quiet ?p w w1" "turn ?p w1 w2" "logged_in ?p u w2"
      "registered_as c w1 u w2 \<or> authenticated_as c w1 u w2" for u w1 w2
    using that quiet_turn [OF that(1)] turn_trans [OF quiet_turn [OF that(1)] that(2)]
    by (auto simp: proved_as_def auth_result_def)
  have lost: "auth_result c ?p w (False, w2)" if "quiet ?p w w1" "turn ?p w1 w2" "auth_inv ?p w2" for w1 w2
    using that turn_trans [OF quiet_turn [OF that(1)] that(2)] by (simp add: auth_result_def)
  let ?next = "\<lambda>x. (fst x \<longrightarrow> attempt_result c ?p w (Admitted, snd x))
      \<and> (\<not> fst x \<longrightarrow> attempt_result c ?p w (Again, snd x))"
  have reg: "wp (handle_register c h w1) ?next" if "quiet ?p w w1" for w1
    by (rule handle_register_wp [OF quiet_auth [OF inv that]])
       (use won [OF that] lost [OF that] in \<open>auto simp: attempt_result_def\<close>)
  have log: "wp (handle_login c h w1) ?next" if "quiet ?p w w1" for w1
    by (rule handle_login_wp [OF quiet_auth [OF inv that]])
       (use won [OF that] lost [OF that] in \<open>auto simp: attempt_result_def\<close>)
  have bad: "wp (send_encrypted c h s w1) (\<lambda>x. attempt_result c ?p w (Again, snd x))"
    if "quiet ?p w w1" for s w1
    by (rule send_encrypted_wp [OF live that])
       (simp add: attempt_result_def auth_result_quit [OF inv])
  have "attempt_result c ?p w (Lost, w1)" if "quiet ?p w w1" for w1
    using auth_result_quit [OF inv that] by (simp add: attempt_result_def)
  with reg log bad show ?thesis
    by (auto intro!: present_menu_wp [OF live] simp: auth_once_def case_prod_unfold)
qed

lemma auth_attempts_wp:
  "auth_inv (session_ptr h) w \<Longrightarrow> wp (auth_attempts n c h w) (auth_result c (session_ptr h) w)"
proof (induction n arbitrary: w)
  case 0
  show ?case
    by (auto intro!: send_encrypted_wp [OF inv_live(1) [OF 0]] auth_result_quit [OF 0])
next
  case (Suc n)
  let ?p = "session_ptr h"
  have "wp (case res of Lost \<Rightarrow> Some (False, w1) | Admitted \<Rightarrow> Some (True, w1)
      | Again \<Rightarrow> auth_attempts n c h w1) (auth_result c ?p w)"
    if r: "attempt_result c ?p w (res, w1)" for res w1
  proof (cases res)
    case Again
    with r have "turn ?p w w1" "auth_inv ?p w1"
      by (auto simp: attempt_result_def auth_result_def)
    then have "wp (auth_attempts n c h w1) (auth_result c ?p w)"
      by (intro wp_mono [OF Suc.IH auth_result_turn])
    with Again show ?thesis by simp
  qed (use r in \<open>simp_all add: attempt_result_def\<close>)
  then show ?case
    by (auto intro!: wp_mono [OF auth_once_wp [OF Suc.prems]])
qed

subsection \<open>The chat\<close>

text \<open>What a turn of the chat loop establishes for its continuation.\<close>

definition chat_ok :: "handler \<Rightarrow> string \<Rightarrow> world \<Rightarrow> handler \<Rightarrow> world \<Rightarrow> bool" where
  "chat_ok h u w h' w' \<longleftrightarrow> session_ptr h' = session_ptr h \<and> turn (session_ptr h) w w' \<and> chat_inv h' u w'
     \<and> wfs w' = wfs w \<and> bman w' = bman w"

lemma chat_ok_trans:
  "chat_ok h u w h1 w1 \<Longrightarrow> chat_ok h1 u w1 h2 w2 \<Longrightarrow> chat_ok h u w h2 w2"
  using turn_trans by (auto simp: chat_ok_def)

lemma chat_ok_quiet: "chat_inv h u w \<Longrightarrow> quiet (session_ptr h) w w' \<Longrightarrow> chat_ok h u w h w'"
  using quiet_turn quiet_chat by (auto simp: chat_ok_def quiet_def)

lemma reply_wp:
  assumes "chat_ok h u w h1 w1" "\<And>w'. chat_ok h u w h1 w' \<Longrightarrow> Q (True, h1, w')"
  shows "wp (reply c h1 m w1) Q"
proof -
  have inv: "chat_inv h1 u w1" using assms(1) by (simp add: chat_ok_def)
  show ?thesis
    unfolding reply_def
    by (auto intro!: send_encrypted_wp [OF inv_live(3) [OF inv]] assms(2)
        chat_ok_trans [OF assms(1)] chat_ok_quiet [OF inv])
qed

text \<open>Changing rooms.\<close>

lemma rm_upd_world_wf: "world_wf w \<Longrightarrow> rm_wf rm (wstore w) \<Longrightarrow> world_wf (w\<lparr>rman := rm\<rparr>)"
  by (simp add: world_wf_def)

lemma rm_upd_turn:
  "(\<And>q r. q \<noteq> p \<Longrightarrow> in_room rm r q = in_room (rman w) r q) \<Longrightarrow> turn p w (w\<lparr>rman := rm\<rparr>)"
  by (simp add: turn_def option.rel_refl)

lemma chat_not_null: "chat_inv h u w \<Longrightarrow> session_ptr h \<noteq> nullptr"
  using inv_live(3) [of h u w] store_wf_live [of "wstore w"]
  by (auto simp: chat_inv_def world_wf_def)

lemma leave_chat_ok:
  assumes "chat_inv h u w"
  shows "chat_ok h u w (h\<lparr>current_room := []\<rparr>)
    (w\<lparr>rman := leave_room (current_room h) (session_ptr h) (rman w)\<rparr>)"
proof -
  let ?p = "session_ptr h" and ?rm = "leave_room (current_room h) (session_ptr h) (rman w)"
  note p = chat_not_null [OF assms]
  have i: "in_room ?rm r q \<longleftrightarrow> \<not> (r = current_room h \<and> q = ?p) \<and> in_room (rman w) r q" for r q
    using members_leave [OF p] by (auto simp: in_room_def)
  have "turn ?p w (w\<lparr>rman := ?rm\<rparr>)" by (rule rm_upd_turn) (simp add: i)
  moreover have "world_wf (w\<lparr>rman := ?rm\<rparr>)"
    by (rule rm_upd_world_wf) (use assms in \<open>auto simp: chat_inv_def world_wf_def intro: rm_wf_leave\<close>)
  ultimately show ?thesis using assms i by (auto simp: chat_ok_def chat_inv_def)
qed

lemma join_chat_ok:
  assumes "place_ok place" "chat_inv h u w" "room \<noteq> []"
  shows "chat_ok h u w (h\<lparr>current_room := room\<rparr>)
    (w\<lparr>rman := join_room place room (session_ptr h)
        (if current_room h \<noteq> [] then leave_room (current_room h) (session_ptr h) (rman w)
         else rman w)\<rparr>)"
proof -
  let ?p = "session_ptr h"
  let ?rm1 = "if current_room h \<noteq> [] then leave_room (current_room h) ?p (rman w) else rman w"
  let ?rm = "join_room place room ?p ?rm1"
  note p = chat_not_null [OF assms(2)]
  have i1: "in_room ?rm1 r q \<longleftrightarrow> q \<noteq> ?p \<and> in_room (rman w) r q" for r q
    using members_leave [OF p] assms(2) by (auto simp: in_room_def chat_inv_def)
  have i: "in_room ?rm r q \<longleftrightarrow> (r = room \<and> q = ?p) \<or> q \<noteq> ?p \<and> in_room (rman w) r q" for r q
    using members_join [OF assms(1) p, of room ?rm1] i1 by (auto simp: in_room_def)
  have "turn ?p w (w\<lparr>rman := ?rm\<rparr>)" by (rule rm_upd_turn) (auto simp: i)
  moreover have "world_wf (w\<lparr>rman := ?rm\<rparr>)"
    by (rule rm_upd_world_wf)
       (use assms inv_live(3) [OF assms(2)] in
         \<open>auto simp: chat_inv_def world_wf_def intro!: rm_wf_leave rm_wf_join\<close>)
  ultimately show ?thesis using assms(2,3) i by (simp add: chat_ok_def chat_inv_def) blast
qed

lemma sent_chat_ok:
  "chat_inv h u w \<Longrightarrow> sent_only (wstore w) st \<Longrightarrow> chat_ok h u w h (w\<lparr>wstore := st\<rparr>)"
  by (rule chat_ok_quiet) (simp_all add: sent_only_quiet)

lemma name_of_chat: "chat_inv h u w \<Longrightarrow> call_get_username (session_ptr h) (wstore w) = Some u"
  by (simp add: chat_inv_def)

abbreviation chat_post :: "handler \<Rightarrow> string \<Rightarrow> world \<Rightarrow> bool \<times> handler \<times> world \<Rightarrow> bool" where
  "chat_post h u w res \<equiv> chat_ok h u w (fst (snd res)) (snd (snd res))"

lemma cmd_join_wp:
  assumes "place_ok place" "chat_inv h u w"
  shows "wp (cmd_join c place h args w) (chat_post h u w)"
proof (cases "fst (extract_word args) = []")
  case True
  then show ?thesis
    by (auto simp: cmd_join_def case_prod_unfold
        intro!: reply_wp [OF chat_ok_quiet [OF assms(2) quiet_refl]])
next
  case False
  from reply_wp [OF join_chat_ok [OF assms False], of "chat_post h u w"] False show ?thesis
    by (simp add: cmd_join_def case_prod_unfold Let_def)
qed

lemma cmd_leave_wp:
  assumes "chat_inv h u w"
  shows "wp (cmd_leave c h w) (chat_post h u w)"
  using reply_wp [OF leave_chat_ok [OF assms], of "chat_post h u w"]
    reply_wp [OF chat_ok_quiet [OF assms quiet_refl], of "chat_post h u w"]
  by (simp add: cmd_leave_def)

lemma cmd_pm_wp:
  assumes "chat_inv h u w"
  shows "wp (cmd_pm c h args w) (chat_post h u w)"
proof -
  have "bm_wf (bman w) (wstore w)" using assms by (simp add: chat_inv_def world_wf_def)
  then have "wp (send_private c u t tx (bman w) (wstore w)) (\<lambda>st. chat_ok h u w h (w\<lparr>wstore := st\<rparr>))"
    for t tx
    using send_private_delivery [of "bman w" "wstore w" c u t tx]
      sent_chat_ok [OF assms send_private_sent_only] by (auto simp: wp_def)
  then show ?thesis
    using reply_wp [OF chat_ok_quiet [OF assms quiet_refl], of "chat_post h u w"]
    by (simp add: cmd_pm_def case_prod_unfold Let_def name_of_chat [OF assms])
qed

lemma chat_command_wp:
  assumes "place_ok place" "chat_inv h u w"
  shows "wp (chat_command c place h text w) (chat_post h u w)"
  using cmd_join_wp [OF assms] cmd_leave_wp [OF assms(2)] cmd_pm_wp [OF assms(2)]
    reply_wp [OF chat_ok_quiet [OF assms(2) quiet_refl], of "chat_post h u w"]
  by (simp add: chat_command_def case_prod_unfold Let_def)

lemma chat_text_wp:
  assumes "chat_inv h u w"
  shows "wp (chat_text c h text w) (chat_post h u w)"
proof -
  let ?w = "w_log DEBUG (''MSG from '' @ u @ '': '' @ text) w"
  have inv: "chat_inv h u ?w" using assms by simp
  have wf: "bm_wf (bman w) (wstore w)" "rm_wf (rman w) (wstore w)" "fds_distinct (wstore w)"
    "store_wf (wstore w)" using assms by (simp_all add: chat_inv_def world_wf_def)
  have sent: "chat_ok h u w h (?w\<lparr>wstore := st\<rparr>)" if "sent_only (wstore w) st" for st
    using chat_ok_trans [OF chat_ok_quiet [OF assms] sent_chat_ok [OF inv]] that
    by simp
  have room: "wp (broadcast_to_room c r u t (rman w) (wstore w)) (\<lambda>st. chat_ok h u w h (?w\<lparr>wstore := st\<rparr>))"
    for r t
    using broadcast_to_room_delivery [OF wf(2-4), of c r u t] sent [OF broadcast_to_room_sent_only]
    by (auto simp: wp_def)
  have all: "wp (broadcast c u t (bman w) (wstore w)) (\<lambda>st. chat_ok h u w h (?w\<lparr>wstore := st\<rparr>))" for t
    using broadcast_delivery [OF wf(1,3), of c u t] sent [OF broadcast_sent_only]
    by (auto simp: wp_def)
  from room all show ?thesis
    using reply_wp [OF chat_ok_quiet [OF assms quiet_refl], of "chat_post h u w"]
    by (simp add: chat_text_def name_of_chat [OF assms] Let_def)
qed

lemma chat_line_wp:
  assumes "place_ok place" "chat_inv h u w"
  shows "wp (chat_line c place h line w) (chat_post h u w)"
proof -
  have "wp (send_encrypted c h s (w_log INFO l w)) (\<lambda>(_, w'). chat_post h u w (False, h, w'))" for s l
    by (rule send_encrypted_wp [OF inv_live(3) [OF assms(2)]])
       (auto intro: chat_ok_quiet [OF assms(2)])
  then show ?thesis
    using chat_command_wp [OF assms] chat_text_wp [OF assms(2)] chat_ok_quiet [OF assms(2) quiet_refl]
    by (simp add: chat_line_def Let_def name_of_chat [OF assms(2)] case_prod_unfold)
qed

text \<open>A turn that goes on has taken a line from the input.\<close>

lemma chat_turn_wp:
  assumes "place_ok place" "chat_inv h u w"
  shows "wp (chat_turn c place h w) (\<lambda>res. chat_post h u w res \<and> (fst res \<longrightarrow>
    pending_input (session_ptr h) (wstore (snd (snd res))) < pending_input (session_ptr h) (wstore w)))"
proof -
  let ?p = "session_ptr h"
  have step: "wp (chat_line c place h line w1) (\<lambda>res. chat_post h u w res \<and> (fst res \<longrightarrow>
      pending_input ?p (wstore (snd (snd res))) < pending_input ?p (wstore w)))"
    if q: "quiet ?p w w1" and lt: "pending_input ?p (wstore w1) < pending_input ?p (wstore w)" for line w1
  proof (rule wp_mono [OF chat_line_wp [OF assms(1) quiet_chat [OF assms(2) q]]])
    fix res assume r: "chat_post h u w1 res"
    have "pending_input ?p (wstore (snd (snd res))) < pending_input ?p (wstore w)"
      using r lt shrinks_at [of "wstore w1" "wstore (snd (snd res))" ?p] by (simp add: chat_ok_def turn_def)
    with chat_ok_trans [OF chat_ok_quiet [OF assms(2) q] r]
    show "chat_post h u w res \<and> (fst res \<longrightarrow>
        pending_input ?p (wstore (snd (snd res))) < pending_input ?p (wstore w))" by simp
  qed
  show ?thesis
    unfolding chat_turn_def
    by (auto intro!: recv_line_wp [OF inv_live(3) [OF assms(2)] quiet_refl] step
        intro: chat_ok_quiet [OF assms(2)])
qed

text \<open>So the loop ends when the peer's input does.\<close>

lemma chat_loop_wp:
  assumes "place_ok place"
  shows "chat_inv h u w \<Longrightarrow>
    wp (chat_loop c place h w) (\<lambda>(h', w'). chat_ok h u w h' w')"
proof (induction "pending_input (session_ptr h) (wstore w)" arbitrary: h w rule: less_induct)
  case less
  note inv = less.prems
  have "wp (if go then chat_loop c place h2 w2 else Some (h2, w2)) (\<lambda>(h', w'). chat_ok h u w h' w')"
    if ok: "chat_ok h u w h2 w2"
      and lt: "go \<Longrightarrow> pending_input (session_ptr h) (wstore w2) < pending_input (session_ptr h) (wstore w)"
    for go h2 w2
  proof (cases go)
    case True
    have "wp (chat_loop c place h2 w2) (\<lambda>(h', w'). chat_ok h2 u w2 h' w')"
      by (rule less.hyps) (use ok lt [OF True] in \<open>simp_all add: chat_ok_def\<close>)
    then show ?thesis
      using True chat_ok_trans [OF ok] by (auto intro: wp_mono)
  qed (use ok in simp)
  then show ?case
    by (subst chat_loop.simps) (auto intro!: wp_mono [OF chat_turn_wp [OF assms inv]])
qed

lemma enter_chat_wp:
  assumes "place_ok place" "named_inv (session_ptr h) u w" "current_room h \<noteq> []"
  shows "wp (enter_chat c place h w) (\<lambda>w'. chat_inv h u w' \<and> turn (session_ptr h) w w'
    \<and> wfs w' = wfs w \<and> bman w' = bman w)"
proof -
  let ?p = "session_ptr h" and ?rm = "join_room place (current_room h) (session_ptr h) (rman w)"
  have name: "call_get_username ?p (wstore w) = Some u" and wf: "world_wf w"
    using assms(2) by (simp_all add: named_inv_def)
  have live: "live (wstore w) ?p" using name by (auto simp: live_def call_get_username_def)
  have p: "?p \<noteq> nullptr" using wf live store_wf_live by (auto simp: world_wf_def)
  have i: "in_room ?rm r q \<longleftrightarrow> (r = current_room h \<and> q = ?p) \<or> in_room (rman w) r q" for r q
    using members_join [OF assms(1) p, of "current_room h" "rman w"] by (auto simp: in_room_def)
  let ?w = "(w_log INFO (''recv_loop started for user: '' @ u) w)\<lparr>rman := ?rm\<rparr>"
  have "world_wf ?w"
    using wf live by (simp add: world_wf_def rm_wf_join [OF assms(1)])
  then have inv: "chat_inv h u ?w"
    using assms(2,3) i by (auto simp: chat_inv_def named_inv_def)
  have t: "turn ?p w ?w"
    using i by (simp add: turn_def option.rel_refl)
  have res: "chat_inv h u w1 \<and> turn ?p w w1 \<and> wfs w1 = wfs w \<and> bman w1 = bman w"
    if q: "quiet ?p ?w w1" for w1
    using quiet_chat [OF inv q] turn_trans [OF t quiet_turn [OF q]] q by (simp add: quiet_def)
  have "wp (send_encrypted c h chat_banner ?w) (\<lambda>x. chat_inv h u (snd x) \<and> turn ?p w (snd x)
      \<and> wfs (snd x) = wfs w \<and> bman (snd x) = bman w)"
    by (rule send_encrypted_wp [of ?w h ?w]) (use live res in simp_all)
  then show ?thesis
    by (simp add: enter_chat_def name case_prod_unfold)
qed

lemma recv_loop_wp:
  assumes "place_ok place" "logged_in (session_ptr h) u w" "current_room h \<noteq> []"
  shows "wp (recv_loop c place h w) (\<lambda>(h', w'). chat_inv h' u w' \<and> session_ptr h' = session_ptr h
    \<and> turn (session_ptr h) w w' \<and> wfs w' = wfs w)"
proof -
  have "wp (chat_loop c place h w1) (\<lambda>(h', w'). chat_inv h' u w' \<and> session_ptr h' = session_ptr h
      \<and> turn (session_ptr h) w w' \<and> wfs w' = wfs w)"
    if "chat_inv h u w1" "turn (session_ptr h) w w1" "wfs w1 = wfs w" for w1
    by (rule wp_mono [OF chat_loop_wp [OF assms(1) that(1)]])
       (use that turn_trans [OF that(2)] in \<open>auto simp: chat_ok_def\<close>)
  then show ?thesis
    unfolding recv_loop_def by (auto intro!: wp_mono [OF enter_chat_wp [OF assms(1) logged_in_named [OF assms(2)] assms(3)]])
qed

subsection \<open>The clean-up\<close>

text \<open>Session \<open>p\<close> is gone and nothing refers to it; the others are as they were.\<close>

definition gone :: "ptr \<Rightarrow> world \<Rightarrow> world \<Rightarrow> bool" where
  "gone p w w' \<longleftrightarrow> \<not> live (wstore w') p \<and> p \<notin> set (clients (bman w')) \<and> p \<notin> ran (by_name (bman w'))
     \<and> (\<forall>r. \<not> in_room (rman w') r p)
     \<and> registry w' = registry w \<and> wfs w' = wfs w \<and> shrinks (wstore w) (wstore w')
     \<and> (\<forall>f. fd_of (wstore w) p = Some f \<longrightarrow> closes (kern (wstore w'))
          = closes (kern (wstore w)) @ (if 0 \<le> f then [f] else []))
     \<and> (\<forall>q. q \<noteq> p \<longrightarrow> (q \<in> set (clients (bman w')) \<longleftrightarrow> q \<in> set (clients (bman w)))
          \<and> (\<forall>n. (by_name (bman w') n = Some q) = (by_name (bman w) n = Some q))
          \<and> (\<forall>r. in_room (rman w') r q = in_room (rman w) r q)
          \<and> heap (wstore w') q = heap (wstore w) q)"

lemma pending_close:
  "pending_rx g (sys_shutdown f k) = pending_rx g k" "pending_rx g (sys_close f k) \<le> pending_rx g k"
  by (auto simp: sys_shutdown_def sys_close_def pending_rx_def split: option.splits)

lemma pending_close_session: "pending_rx g (snd (close_session s k)) \<le> pending_rx g k"
  using pending_close(2) [of g "fd (client_fd s)" "sys_shutdown (fd (client_fd s)) k"]
  by (simp add: close_session_def fd_shutdown_rdwr_def fd_reset_def Let_def pending_close(1))

lemma pending_destroy: "pending_rx g (session_destroy s k) \<le> pending_rx g k"
proof -
  obtain s' k' where c: "close_session s k = (s', k')" by force
  have "pending_rx g (fd_destroy (client_fd s') k') \<le> pending_rx g k'"
    using pending_close(2) [of g "fd (client_fd s')" k'] by (simp add: fd_destroy_def fd_reset_def)
  with pending_close_session [of g s k] c show ?thesis by (simp add: session_destroy_def)
qed

lemma close_delete:
  assumes "heap st p = Some s" "p \<noteq> nullptr"
  shows "\<exists>st1 st2. call_close p st = Some st1 \<and> delete_session p st1 = Some st2
    \<and> heap st2 = (heap st)(p := None) \<and> closes (kern st2) = closes (kern st) @ owned_fd s
    \<and> shrinks st st2"
proof -
  obtain s' k' where c: "close_session s (kern st) = (s', k')" by force
  have cl: "closes k' @ owned_fd s' = closes (kern st) @ owned_fd s"
    using session_step_closes [of Op_close s "kern st" True s' k'] c by simp
  let ?st2 = "st\<lparr>kern := session_destroy s' k', heap := (heap st)(p := None)\<rparr>"
  have "pending_rx g (session_destroy s' k') \<le> pending_rx g (kern st)" for g
    using le_trans [OF pending_destroy [of g s' k'] pending_close_session [of g s "kern st", unfolded c snd_conv]] .
  then have "shrinks st ?st2"
    by (auto simp: shrinks_def pending_input_def call_get_fd_def split: option.splits)
  with assms c cl show ?thesis
    by (simp add: call_close_def delete_session_def session_destroy_closes)
qed

lemma world_wf_removed:
  assumes "store_wf st" "fds_distinct st" "bm_wf bm st" "rm_wf rm st"
    and "p \<notin> set (clients bm)" "\<And>r. \<not> in_room rm r p"
    and "heap (wstore w) = (heap st)(p := None)" "bman w = bm" "rman w = rm"
  shows "world_wf w"
proof -
  have at: "q \<noteq> p \<Longrightarrow> heap (wstore w) q = heap st q" for q using assms(7) by simp
  have live: "q \<noteq> p \<Longrightarrow> live (wstore w) q = live st q"
    and name: "q \<noteq> p \<Longrightarrow> call_get_username q (wstore w) = call_get_username q st" for q
    using at [of q] by (simp_all add: live_def call_get_username_def)
  have act: "call_is_active q (wstore w) = (if q = p then None else call_is_active q st)"
    and fd: "fd_of (wstore w) q = (if q = p then None else fd_of st q)" for q
    using assms(7) by (simp_all add: call_is_active_def fd_of_def call_get_fd_def)
  have "store_wf (wstore w)" using assms(1,7) by (simp add: store_wf_def)
  moreover have "fds_distinct (wstore w)"
    using assms(2) by (auto simp: fds_distinct_def act fd split: if_splits)
  moreover have "bm_wf bm (wstore w)"
    using assms(3,5) live name unfolding bm_wf_def by metis
  moreover have "q \<noteq> p" if "rooms rm r = Some S" "q \<in> set S" for r S q
    using assms(6) [of r] that by (auto simp: in_room_def members_def)
  then have "rm_wf rm (wstore w)"
    using assms(4) live unfolding rm_wf_def by metis
  ultimately show ?thesis using assms(8,9) by (simp add: world_wf_def)
qed

lemma cleanup_wp:
  assumes wf: "world_wf w" and live: "live (wstore w) (session_ptr h)"
  shows "wp (cleanup_and_exit h w) (\<lambda>(h', w'). session_ptr h' = nullptr \<and> world_wf w'
    \<and> gone (session_ptr h) w w')"
proof -
  let ?p = "session_ptr h" and ?st = "wstore w" and ?rm = "leave_all (session_ptr h) (rman w)"
  have parts: "store_wf ?st" "bm_wf (bman w) ?st" "rm_wf (rman w) ?st" "fds_distinct ?st"
    using wf by (simp_all add: world_wf_def)
  have p: "?p \<noteq> nullptr" by (rule store_wf_live [OF parts(1) live])
  obtain s where s: "heap ?st ?p = Some s" using live by (auto simp: live_def)
  from remove_client_wf [OF parts(2,1) live] obtain bm
    where bm: "remove_client ?p ?st (bman w) = Some bm" "bm_wf bm ?st"
      "set (clients bm) = set (clients (bman w)) - {?p}" "?p \<notin> ran (by_name bm)"
      "\<forall>n q. q \<noteq> ?p \<longrightarrow> (by_name bm n = Some q) = (by_name (bman w) n = Some q)" by blast
  from close_delete [OF s p] obtain st1 st2
    where st: "call_close ?p ?st = Some st1" "delete_session ?p st1 = Some st2"
      "heap st2 = (heap ?st)(?p := None)" "closes (kern st2) = closes (kern ?st) @ owned_fd s"
      "shrinks ?st st2" by blast
  have i: "in_room ?rm r q \<longleftrightarrow> q \<noteq> ?p \<and> in_room (rman w) r q" for r q
    using members_leave_all [OF p] by (auto simp: in_room_def)
  let ?w = "(w_log INFO (''ClientHandler: client '' @ username s @ '' disconnecting.'') w)
      \<lparr>rman := ?rm, bman := bm, wstore := st2\<rparr>"
  have "world_wf ?w"
    by (rule world_wf_removed [OF parts(1,4) bm(2) rm_wf_leave_all [OF parts(3)]])
       (use bm(3) i st(3) in auto)
  moreover have "gone ?p w ?w"
    using bm st(3-5) i s
    by (auto simp: gone_def live_def fd_of_def call_get_fd_def owned_fd_def)
  moreover have "cleanup_and_exit h w = Some (h\<lparr>session_ptr := nullptr\<rparr>, ?w)"
    using p s bm(1) st(1,2)
    by (simp add: cleanup_and_exit_def Let_def call_get_username_def get_username_def)
  ultimately show ?thesis by simp
qed

subsection \<open>The whole life of a client\<close>

text \<open>What a handler's run leaves of the server.\<close>

definition departed :: "ptr \<Rightarrow> world \<Rightarrow> world \<Rightarrow> bool" where
  "departed p w w' \<longleftrightarrow> world_wf w'
     \<and> \<not> live (wstore w') p \<and> p \<notin> set (clients (bman w')) \<and> p \<notin> ran (by_name (bman w'))
     \<and> (\<forall>r. \<not> in_room (rman w') r p)
     \<and> (\<forall>f. fd_of (wstore w) p = Some f \<longrightarrow> closes (kern (wstore w'))
          = closes (kern (wstore w)) @ (if 0 \<le> f then [f] else []))
     \<and> (\<forall>q. q \<noteq> p \<longrightarrow> (q \<in> set (clients (bman w')) \<longleftrightarrow> q \<in> set (clients (bman w)))
          \<and> (\<forall>r. in_room (rman w') r q = in_room (rman w) r q)
          \<and> rel_option same_id (heap (wstore w) q) (heap (wstore w') q))"

lemma turn_gone: "turn p w w1 \<Longrightarrow> gone p w1 w2 \<Longrightarrow> world_wf w2 \<Longrightarrow> departed p w w2"
  unfolding departed_def turn_def gone_def by auto

lemma run_handler_wp:
  assumes "place_ok place" "auth_inv (session_ptr h) w" "current_room h \<noteq> []"
  shows "wp (run_handler c place h w) (\<lambda>(h', w'). session_ptr h' = nullptr \<and> departed (session_ptr h) w w')"
proof -
  let ?p = "session_ptr h"
  let ?Q = "\<lambda>(h', w'). session_ptr h' = nullptr \<and> departed ?p w w'"
  have clean: "wp (cleanup_and_exit h1 w1) ?Q"
    if "turn ?p w w1" "world_wf w1" "live (wstore w1) ?p" "session_ptr h1 = ?p" for h1 w1
    by (rule wp_mono [OF cleanup_wp [OF that(2)]])
       (use that turn_gone [OF that(1)] in auto)
  obtain ip where ip: "call_get_ip ?p (wstore w) = Some ip"
    using inv_live(1) [OF assms(2)] by (auto simp: live_def call_get_ip_def)
  let ?w = "w_log INFO (''ClientHandler::run() '' @ endash @ '' new client from '' @ ip) w"
  have chat: "wp (recv_loop c place h w1) (\<lambda>(h2, w2). wp (cleanup_and_exit h2 w2) ?Q)"
    if "turn ?p w w1" "logged_in ?p u w1" for u w1
  proof (rule wp_mono [OF recv_loop_wp [OF assms(1) that(2) assms(3)]])
    fix res
    assume "case res of (h', w') \<Rightarrow> chat_inv h' u w' \<and> session_ptr h' = ?p \<and> turn ?p w1 w' \<and> wfs w' = wfs w1"
    then obtain h2 w2 where r: "res = (h2, w2)" "chat_inv h2 u w2" "session_ptr h2 = ?p" "turn ?p w1 w2"
      by (cases res) simp
    have "wp (cleanup_and_exit h2 w2) ?Q"
      using clean [OF turn_trans [OF that(1) r(4)]] inv_live(3) [OF r(2)] r(2,3)
      by (simp add: chat_inv_def)
    with r(1) show "case res of (h2, w2) \<Rightarrow> wp (cleanup_and_exit h2 w2) ?Q" by simp
  qed
  have "wp (try_authenticate c h ?w) (\<lambda>(ok, w1). wp (if \<not> ok then cleanup_and_exit h w1
      else Option.bind (recv_loop c place h w1) (\<lambda>(h2, w2). cleanup_and_exit h2 w2)) ?Q)"
    unfolding try_authenticate_def
  proof (rule wp_mono [OF auth_attempts_wp])
    show "auth_inv ?p ?w" using assms(2) by simp
    fix res assume "auth_result c ?p ?w res"
    then have t: "turn ?p w (snd res)"
      and r: "if fst res then \<exists>u. logged_in ?p u (snd res) else auth_inv ?p (snd res)"
      using turn_trans [of ?p w ?w "snd res"] by (auto simp: auth_result_def split: if_splits)
    then show "case res of (ok, w1) \<Rightarrow> wp (if \<not> ok then cleanup_and_exit h w1
      else Option.bind (recv_loop c place h w1) (\<lambda>(h2, w2). cleanup_and_exit h2 w2)) ?Q"
      using chat [OF t] clean [OF t] inv_live(1) [of ?p "snd res"]
      by (auto simp: case_prod_unfold auth_inv_def split: if_splits)
  qed
  with ip show ?thesis by (simp add: run_handler_def case_prod_unfold)
qed

end
