(* ===== verification/Handler_Protocol.thy ===== *)
theory Handler_Protocol
  imports Handler_Safety
begin

text \<open>
  What \<open>ClientHandler\<close> does on the wire: the properties of its whole life, of authentication,
  of the rooms, of the lines it receives, and the replies of single branches. The safety lemmas
  are those of \<open>Handler_Safety\<close>; the functional ones are here.
\<close>

subsection \<open>Receiving a line\<close>

text \<open>Results of \<open>recv\<close> that deliver \<open>data\<close>, interrupted any number of times on the way.\<close>

definition feeds :: "recv_res list \<Rightarrow> string \<Rightarrow> bool" where
  "feeds evs data \<longleftrightarrow> filter (\<lambda>e. e \<noteq> Recv_intr) evs = map Got data
     \<and> (evs = [] \<or> last evs \<noteq> Recv_intr)"

definition rx_upd :: "int \<Rightarrow> recv_res list \<Rightarrow> store \<Rightarrow> store" where
  "rx_upd f evs st = (case socks (kern st) f of None \<Rightarrow> st
     | Some s \<Rightarrow> st\<lparr>kern := (kern st)\<lparr>socks := (socks (kern st))(f \<mapsto> s\<lparr>rx := evs\<rparr>)\<rparr>\<rparr>)"

lemma rx_upd_simps:
  "socks (kern st) f = Some s \<Longrightarrow> socks (kern (rx_upd f evs st)) f = Some (s\<lparr>rx := evs\<rparr>)"
  "rx_upd f evs (rx_upd f evs' st) = rx_upd f evs st" "heap (rx_upd f evs st) = heap st"
  "call_get_fd p (rx_upd f evs st) = call_get_fd p st"
  by (auto simp: rx_upd_def call_get_fd_def split: option.splits)

lemma decrypt_byte: "hd (decrypt c [xor_char (key c) x]) = x"
  by (simp add: decrypt_def encrypt_Cons)

lemma recv_bytes_line:
  "call_get_fd p st = Some f \<Longrightarrow> socks (kern st) f = Some s \<Longrightarrow> \<not> shut s \<Longrightarrow> rx s = evs @ later \<Longrightarrow>
   feeds evs (encrypt c (l @ [nl])) \<Longrightarrow> nl \<notin> set l \<Longrightarrow>
   recv_bytes c p buf st = Some (buf @ l, rx_upd f later st)"
proof (induction evs arbitrary: st s buf l)
  case Nil
  then show ?case by (simp add: feeds_def encrypt_append encrypt_Cons)
next
  case (Cons e evs)
  note prems = Cons.prems
  let ?st = "rx_upd f (evs @ later) st"
  have k: "sys_recv f (kern st) = (e, kern ?st)" and st: "st\<lparr>kern := kern ?st\<rparr> = ?st"
    using prems(2-4) by (simp_all add: sys_recv_def rx_upd_def)
  have IH: "feeds evs (encrypt c (l' @ [nl])) \<Longrightarrow> nl \<notin> set l' \<Longrightarrow>
      recv_bytes c p b ?st = Some (b @ l', rx_upd f later st)" for l' b
    using Cons.IH [of ?st "s\<lparr>rx := evs @ later\<rparr>" l' b] prems(1-4)
    by (simp add: rx_upd_simps)
  show ?case
  proof (cases "e = Recv_intr")
    case True
    then have "feeds evs (encrypt c (l @ [nl]))" using prems(5) by (auto simp: feeds_def encrypt_append encrypt_Cons split: if_splits)
    from IH [OF this prems(6)] True k st prems(1) show ?thesis
      by (simp add: recv_bytes.simps [of c p buf st])
  next
    case False
    with prems(5) have f: "e # filter (\<lambda>e. e \<noteq> Recv_intr) evs = map Got (encrypt c (l @ [nl]))"
      "evs = [] \<or> last evs \<noteq> Recv_intr" by (auto simp: feeds_def)
    show ?thesis
    proof (cases l)
      case Nil
      with f have e: "e = Got (xor_char (key c) nl)" "filter (\<lambda>e. e \<noteq> Recv_intr) evs = []"
        by (auto simp: encrypt_Cons)
      then have "evs = []" using f(2) last_in_set [of evs] by (fastforce simp: filter_empty_conv)
      with e Nil k st prems(1) show ?thesis
        by (simp add: recv_bytes.simps [of c p buf st] decrypt_byte)
    next
      case (Cons x l')
      with f prems(6) have e: "e = Got (xor_char (key c) x)" "feeds evs (encrypt c (l' @ [nl]))"
        "nl \<notin> set l'" "x \<noteq> nl" by (auto simp: encrypt_Cons feeds_def)
      from IH [OF e(2,3)] e Cons k st prems(1) show ?thesis
        by (simp add: recv_bytes.simps [of c p buf st] decrypt_byte)
    qed
  qed
qed

text \<open>C28: a line that a peer with the same key encrypts and sends arrives as it was, byte by byte and
  with any number of interruptions by signals; the input behind it stays for the next call.\<close>

theorem recv_line_recovers:
  assumes "fd_of (wstore w) (session_ptr h) = Some f" and "socks (kern (wstore w)) f = Some s"
    and "\<not> shut s" and "rx s = evs @ later" and "feeds evs (encrypt c (l @ [nl]))"
    and "nl \<notin> set l"
  shows "recv_line c h w = Some (l, w\<lparr>wstore := rx_upd f later (wstore w)\<rparr>)"
  using recv_bytes_line [of "session_ptr h" "wstore w" f s evs later c l "[]"] assms
  by (simp add: recv_line_def fd_of_def)

subsection \<open>A conversation over a working connection\<close>

text \<open>
  \<open>link\<close>: the handler's session is active, its socket accepts all sends, the plain text \<open>inp\<close> is
  still to come and \<open>out\<close> has been sent. \<open>wire_to\<close> is the world with these two changed; the
  functional lemmas below are in its terms.
\<close>

definition sock_of :: "cipher \<Rightarrow> string \<Rightarrow> string \<Rightarrow> socket" where
  "sock_of c inp out = \<lparr>rx = map Got (encrypt c inp), sends = [], tx = encrypt c out, shut = False\<rparr>"

definition link :: "cipher \<Rightarrow> handler \<Rightarrow> int \<Rightarrow> string \<Rightarrow> string \<Rightarrow> world \<Rightarrow> bool" where
  "link c h f inp out w \<longleftrightarrow> (\<exists>s. heap (wstore w) (session_ptr h) = Some s \<and> active s \<and> get_fd s = f
     \<and> socks (kern (wstore w)) f = Some (sock_of c inp out))"

definition wire_to :: "cipher \<Rightarrow> int \<Rightarrow> string \<Rightarrow> string \<Rightarrow> world \<Rightarrow> world" where
  "wire_to c f inp out w = w\<lparr>wstore := (wstore w)\<lparr>kern := (kern (wstore w))
     \<lparr>socks := (socks (kern (wstore w)))(f \<mapsto> sock_of c inp out)\<rparr>\<rparr>\<rparr>"

lemma wire_to_simps [simp]:
  "wire_to c f i o1 (wire_to c f i' o' w) = wire_to c f i o1 w"
  "heap (wstore (wire_to c f i o1 w)) = heap (wstore w)"
  "socks (kern (wstore (wire_to c f i o1 w))) f = Some (sock_of c i o1)"
  "bman (wire_to c f i o1 w) = bman w" "rman (wire_to c f i o1 w) = rman w"
  "registry (wire_to c f i o1 w) = registry w" "wfs (wire_to c f i o1 w) = wfs w"
  "ios (wire_to c f i o1 w) = ios w" "logs (wire_to c f i o1 w) = logs w"
  by (simp_all add: wire_to_def)

lemma link_wire: "link c h f i o1 w \<Longrightarrow> link c h f i' o' (wire_to c f i' o' w)"
  by (auto simp: link_def)

lemma link_upd [simp]:
  "link c h f i o1 (w_log l m w) = link c h f i o1 w"
  "link c h f i o1 (w\<lparr>wfs := fs, logs := ls\<rparr>) = link c h f i o1 w"
  "link c h f i o1 (w\<lparr>ios := is\<rparr>) = link c h f i o1 w"
  by (simp_all add: link_def)

lemma send_link:
  assumes "link c h f inp out w"
  shows "send_encrypted c h m w = Some (True, wire_to c f inp (out @ m) w)"
proof -
  from assms obtain s where s: "heap (wstore w) (session_ptr h) = Some s" "active s" "get_fd s = f"
    "socks (kern (wstore w)) f = Some (sock_of c inp out)" by (auto simp: link_def)
  define k where "k = kern (wstore (wire_to c f inp (out @ m) w))"
  have "send_from f (encrypt c m) 0 (kern (wstore w)) = (True, k)"
  proof (cases m)
    case Nil
    have "(socks (kern (wstore w)))(f \<mapsto> sock_of c inp out) = socks (kern (wstore w))"
      using s(4) by (simp add: fun_upd_idem)
    then have "k = kern (wstore w)" using Nil by (simp add: k_def wire_to_def)
    with Nil show ?thesis by (simp add: send_from.simps)
  next
    case (Cons x xs)
    then show ?thesis
      using s(4) by (simp add: send_from.simps [of f _ 0] send_from.simps [of f _ "Suc _"] sys_send_def
          sock_of_def k_def wire_to_def encrypt_Cons encrypt_append)
  qed
  then have "call_send_msg (session_ptr h) (encrypt c m) (wstore w) = Some (True, (wstore w)\<lparr>kern := k\<rparr>)"
    using s by (simp add: call_send_msg_def send_msg_def get_fd_def fun_upd_idem)
  then show ?thesis by (simp add: send_encrypted_def k_def wire_to_def)
qed

lemma feeds_plain: "feeds (map Got d) d"
  by (cases d rule: rev_cases) (auto simp: feeds_def filter_map o_def)

lemma recv_link:
  assumes "link c h f (l @ nl # inp) out w" "nl \<notin> set l"
  shows "recv_line c h w = Some (l, wire_to c f inp out w)"
proof -
  from assms obtain s where s: "heap (wstore w) (session_ptr h) = Some s" "get_fd s = f"
    "socks (kern (wstore w)) f = Some (sock_of c (l @ nl # inp) out)" by (auto simp: link_def)
  have r: "rx (sock_of c (l @ nl # inp) out)
      = map Got (encrypt c (l @ [nl])) @ map Got (encrypt c inp)"
    by (simp add: sock_of_def encrypt_append encrypt_Cons)
  from recv_bytes_line [OF _ s(3) _ r feeds_plain assms(2), of "session_ptr h" "[]"] s
  show ?thesis
    by (simp add: recv_line_def call_get_fd_def sock_of_def rx_upd_def wire_to_def)
qed

lemma link_same: "link c h f i o1 w \<Longrightarrow> wire_to c f i o1 w = w"
  by (auto simp: link_def wire_to_def fun_upd_idem)

lemma talk:
  assumes "link c h f i0 o0 w"
  shows "send_encrypted c h m (wire_to c f i o1 w) = Some (True, wire_to c f i (o1 @ m) w)"
    and "nl \<notin> set l \<Longrightarrow> recv_line c h (wire_to c f (l @ nl # i) o1 w) = Some (l, wire_to c f i o1 w)"
  using send_link [OF link_wire [OF assms]] recv_link [OF link_wire [OF assms]] by simp_all

lemma name_no_nl: "validate_username u \<Longrightarrow> nl \<notin> set u \<and> colon \<notin> set u"
  by (auto simp: validate_username_def list_all_iff isalnum_def isdigit_def)

definition choice_of :: "string \<Rightarrow> int" where
  "choice_of l = (let m = parse l in
     case stoi (if msg_type m = proto_CHOICE then payload m else msg_type m) of Inr n \<Rightarrow> n | Inl _ \<Rightarrow> 0)"

lemma present_menu_talk:
  assumes "link c h f i0 o0 w" "nl \<notin> set l" "l \<noteq> []"
  shows "present_menu c h (wire_to c f (l @ nl # inp) out w)
    = Some (choice_of l, wire_to c f inp (out @ serialise make_menu) w)"
  using assms(2,3) by (simp add: present_menu_def talk [OF assms(1)] choice_of_def Let_def)

lemma choice_of_frame: "choice_of (''CHOICE:'' @ to_string n) = n" if "- (2 ^ 31) \<le> n" "n < 2 ^ 31"
proof -
  have "to_string n \<noteq> [] \<and> \<not> eol (last (to_string n))"
    using set_to_string [of "last (to_string n)" n] by simp
  then have "strip_eol (to_string n) = to_string n" by (simp add: strip_eol_clean)
  then have "parse (''CHOICE'' @ colon # to_string n) = \<lparr>msg_type = ''CHOICE'', payload = to_string n\<rparr>"
    by (subst parse_tagged) simp_all
  then show ?thesis using stoi_to_string [OF that] by (simp add: choice_of_def Let_def)
qed

text \<open>A menu answer with a negative number is taken for a lost connection: the client gets no
  reply to it and no second attempt, and is disconnected, where every other number that is
  not 1 or 2 is answered with an error and asked again.\<close>

theorem negative_choice_disconnects:
  assumes "link c h f (''CHOICE:'' @ to_string n @ nl # inp) out w"
    and "- (2 ^ 31) \<le> n" and "n < 2 ^ 31" and "n \<noteq> 1" and "n \<noteq> 2"
  shows "auth_attempts (Suc k) c h w =
    (if n < 0 then Some (False, wire_to c f inp (out @ serialise make_menu) w)
     else auth_attempts k c h (wire_to c f inp
       (out @ serialise make_menu @ serialise (make_err ''Invalid choice. Please enter 1 or 2.'')) w))"
proof -
  have l: "nl \<notin> set (''CHOICE:'' @ to_string n)"
    using set_to_string [of nl n] by auto
  have "present_menu c h w = Some (n, wire_to c f inp (out @ serialise make_menu) w)"
    using present_menu_talk [OF assms(1) l, of inp out] link_same [OF assms(1)]
      choice_of_frame [OF assms(2,3)] by simp
  then show ?thesis using assms(4,5) by (simp add: auth_once_def talk [OF assms(1)])
qed

subsection \<open>Registration and login\<close>

definition prompts :: string where
  "prompts = ''Enter username: '' @ [nl] @ ''Enter password: '' @ [nl]"

lemma handle_register_talk:
  assumes "link c h f (u @ nl # pw @ nl # inp) out w"
    and "validate_username u" "validate_password pw" "nl \<notin> set pw"
  shows "handle_register c h w = finish_register c h u pw (wire_to c f inp (out @ prompts) w)"
  using assms(2-4) name_no_nl [OF assms(2)] talk [OF assms(1)]
  by (subst link_same [OF assms(1), symmetric])
     (simp add: handle_register_def prompts_def validate_username_def validate_password_def)

lemma handle_login_talk:
  assumes "link c h f (u @ nl # pw @ nl # inp) out w"
    and "u \<noteq> []" "nl \<notin> set u" "pw \<noteq> []" "nl \<notin> set pw"
  shows "handle_login c h w = finish_login c h u pw (wire_to c f inp (out @ prompts) w)"
  using assms(2-5) talk [OF assms(1)]
  by (subst link_same [OF assms(1), symmetric]) (simp add: handle_login_def prompts_def)

lemma refuse_False: "refuse c h m w = Some (b, w') \<Longrightarrow> \<not> b \<and> wfs w' = wfs w"
  by (auto simp: refuse_def send_encrypted_def bind_Some_iff)

lemma admit_True: "admit c h u m w = Some (b, w') \<Longrightarrow> b \<and> wfs w' = wfs w"
  by (auto simp: admit_def send_encrypted_def bind_Some_iff)

lemma next_io_frame: "next_io w = (io, w') \<Longrightarrow> registry w' = registry w \<and> wfs w' = wfs w \<and> wstore w' = wstore w"
  by (auto simp: next_io_def split: list.splits)

lemma next_io_wire: "next_io (wire_to c f i o1 w) = (fst (next_io w), wire_to c f i o1 (snd (next_io w)))"
  by (simp add: next_io_def wire_to_def split: list.splits)

lemma finish_register_result:
  assumes "finish_register c h u pw w = Some (ok, w')" "next_io w = (io, w1)"
  shows "\<exists>ls. register_user io (registry w) u (encrypt c pw) (wfs w) = (ok, wfs w', ls)"
proof -
  obtain b fs ls where r: "register_user io (registry w) u (encrypt c pw) (wfs w) = (b, fs, ls)"
    by (metis prod_cases3)
  with assms next_io_frame [OF assms(2)] show ?thesis
    by (cases b) (auto simp: finish_register_def bind_Some_iff Let_def dest!: refuse_False admit_True)
qed

lemma finish_login_result:
  assumes "auth_inv (session_ptr h) w"
  shows "\<exists>w'. finish_login c h u pw w
    = Some (authenticate (find_opens (fst (next_io w))) (registry w) u (encrypt c pw) (wfs w), w')"
proof -
  obtain io w1 where n: "next_io w = (io, w1)" by force
  have inv: "auth_inv (session_ptr h) w1" using quiet_auth [OF assms] next_io_quiet [OF n] by blast
  obtain ip where ip: "call_get_ip (session_ptr h) (wstore w1) = Some ip"
    using inv_live(1) [OF inv] by (auto simp: live_def call_get_ip_def)
  have "wp (admit c h u m (w_log l s w1)) (\<lambda>r. fst r = True)" for m l s
    by (rule admit_wp) (use inv in simp_all)
  then have yes: "\<exists>w'. admit c h u m (w_log l s w1) = Some (True, w')" for m l s
    by (fastforce simp: wp_def)
  have "wp (refuse c h m (w_log l s w1)) (\<lambda>r. fst r = False)" for m l s
    by (rule refuse_wp) (use inv_live(1) [OF inv] in simp_all)
  then have no: "\<exists>w'. refuse c h m (w_log l s w1) = Some (False, w')" for m l s
    by (fastforce simp: wp_def)
  from n ip next_io_frame [OF n] yes no show ?thesis
    by (simp add: finish_login_def)
qed


subsection \<open>The whole life of a client\<close>

text \<open>C1: for every behaviour of the peer, the network and the disk, a worker thread that starts on a
  fresh session returns, never follows a dead pointer, closes its descriptor once, frees its
  session, and leaves no pointer to it in the client list, the name index or any room; what the
  other sessions have is kept, and the shared state stays well-formed.\<close>

theorem handler_always_departs:
  assumes "place_ok place" and "auth_inv p w"
  shows "\<exists>w'. thread_func c place (Some (mk_handler p)) w = Some w' \<and> departed p w w'"
proof -
  have "wp (run_handler c place (mk_handler p) w)
      (\<lambda>(h', w'). session_ptr h' = nullptr \<and> departed (session_ptr (mk_handler p)) w w')"
    by (rule run_handler_wp [OF assms(1)]) (simp_all add: assms(2) mk_handler_def)
  then show ?thesis by (auto simp: thread_func_def mk_handler_def wp_def)
qed



lemma strip_eol_front: "m \<noteq> [] \<Longrightarrow> strip_eol m = m \<Longrightarrow> strip_eol (a @ m) = a @ m"
  using strip_eol_last [of m] by (intro strip_eol_clean) auto

lemma parse_room_text:
  assumes "m \<noteq> []" "strip_eol m = m"
  shows "parse (serialise (make_bcast u (room_tag r m)))
    = \<lparr>msg_type = ''BCAST'', payload = ''['' @ u @ '']: '' @ room_tag r m\<rparr>"
proof -
  have "strip_eol ((''['' @ u @ '']: ['' @ r @ ''] '') @ m) = (''['' @ u @ '']: ['' @ r @ ''] '') @ m"
    by (rule strip_eol_front [OF assms])
  then show ?thesis
    using parse_serialise_gen [of "make_bcast u (room_tag r m)"]
    by (simp add: make_bcast_def room_tag_def)
qed

text \<open>A chat text sent in a room reaches the other members as one frame, whatever bytes it has (a
  newline cannot be in a received line), but with the room's name in front twice, once from
  \<open>recv_loop\<close> and once from \<open>broadcast_to_room\<close>.\<close>

theorem room_text_tagged_twice:
  assumes "chat_inv h u w" and "current_room h \<noteq> []" and "length text \<le> MAX_MSG_LEN"
    and "text \<noteq> []" and "strip_eol text = text"
  shows "\<exists>w'. chat_text c h text w = Some (True, h, w')
    \<and> (\<forall>p. in_room (rman w) (current_room h) p \<and> wants (wstore w) u p \<longrightarrow>
         (\<exists>wire. got wire (wstore w) p (wstore w') \<and> parse (decrypt c wire) =
            \<lparr>msg_type = ''BCAST'', payload = ''['' @ u @ '']: ['' @ current_room h @ ''] [''
               @ current_room h @ ''] '' @ text\<rparr>))"
proof -
  let ?t = "room_tag (current_room h) text"
  let ?wire = "encrypt c (serialise (make_bcast u (room_tag (current_room h) ?t)))"
  have "rm_wf (rman w) (wstore w)" "fds_distinct (wstore w)" "store_wf (wstore w)"
    using assms(1) by (simp_all add: chat_inv_def world_wf_def)
  from broadcast_to_room_delivery [OF this, of c "current_room h" u ?t] obtain st
    where b: "broadcast_to_room c (current_room h) u ?t (rman w) (wstore w) = Some st"
      and d: "delivery ?wire (wstore w)
        {p. in_room (rman w) (current_room h) p \<and> wants (wstore w) u p} st" by blast
  have t: "?t \<noteq> []" "strip_eol ?t = ?t"
    using strip_eol_front [OF assms(4,5), of "''['' @ current_room h @ ''] ''"]
    by (simp_all add: room_tag_def)
  have "parse (decrypt c ?wire) = \<lparr>msg_type = ''BCAST'', payload = ''['' @ u @ '']: [''
      @ current_room h @ ''] ['' @ current_room h @ ''] '' @ text\<rparr>"
    using parse_room_text [OF t, of u "current_room h"] by (simp add: room_tag_def)
  moreover have "chat_text c h text w = Some (True, h,
      (w_log DEBUG (''MSG from '' @ u @ '': '' @ text) w)\<lparr>wstore := st\<rparr>)"
    using assms(2,3) b name_of_chat [OF assms(1)] by (simp add: chat_text_def room_tag_def Let_def)
  ultimately show ?thesis using d by (auto simp: delivery_def)
qed

subsection \<open>Commands\<close>

text \<open>In the chat a client's text ends the session exactly when it is \<open>exit\<close> or \<open>quit\<close>, and an
  \<open>EXIT\<close> frame always does; the handler then says goodbye and leaves the loop.\<close>

theorem exit_words_end_the_chat:
  assumes "link c h f inp out w" and "call_get_username (session_ptr h) (wstore w) = Some u"
    and "strip_eol txt = txt"
  shows "(is_exit (frame_body (make_msg txt)) \<longleftrightarrow> txt = ''exit'' \<or> txt = ''quit'')
    \<and> is_exit (frame_body make_exit)
    \<and> (is_exit line \<longrightarrow> chat_line c place h line w
        = Some (False, h, wire_to c f inp (out @ serialise (make_ok ''Goodbye!''))
            (w_log INFO (''User '' @ u @ '' sent EXIT.'') w)))"
proof (intro conjI impI)
  have e: "parse (frame_body (make_msg txt)) = make_msg txt"
    using parse_serialise_gen [of "make_msg txt"] assms(3)
    by (simp add: serialise_frame make_msg_def strip_eol_clean)
  show "is_exit (frame_body (make_msg txt)) \<longleftrightarrow> txt = ''exit'' \<or> txt = ''quit''"
    unfolding is_exit_def e by (auto simp: make_msg_def frame_body_def)
  show "is_exit (frame_body make_exit)"
    using parse_no_colon [of "''EXIT''"]
    by (simp add: is_exit_def make_exit_def frame_body_def strip_eol_clean)
  show "chat_line c place h line w
      = Some (False, h, wire_to c f inp (out @ serialise (make_ok ''Goodbye!''))
          (w_log INFO (''User '' @ u @ '' sent EXIT.'') w))" if "is_exit line"
    using assms(1,2) that send_link [of c h f inp out] by (simp add: chat_line_def)
qed

text \<open>The stream reading of \<open>/pm target text\<close>.\<close>

lemma cmd_pm_parsed:
  assumes "t \<noteq> []" "\<And>ch. ch \<in> set t \<Longrightarrow> \<not> isspace ch" "m \<noteq> []" "nl \<notin> set m"
    and "call_get_username (session_ptr h) (wstore w) = Some u"
  shows "chat_command c place h (''/pm '' @ t @ '' '' @ m) w
    = Option.bind (send_private c u t m (bman w) (wstore w)) (\<lambda>st. Some (True, h, w\<lparr>wstore := st\<rparr>))"
proof -
  have cmd: "extract_word (''/pm '' @ t @ '' '' @ m) = (''/pm'', '' '' @ t @ '' '' @ m)"
    by (simp add: extract_word_def isspace_def Let_def)
  have "extract_word (t @ '' '' @ m) = (t, '' '' @ m)"
    by (rule extract_word_plain) (use assms(1,2) in \<open>auto simp: isspace_def\<close>)
  then have arg: "extract_word ('' '' @ t @ '' '' @ m) = (t, '' '' @ m)"
    by (simp add: extract_word_def isspace_def Let_def)
  have "takeWhile (\<lambda>ch. ch \<noteq> nl) ('' '' @ m) = '' '' @ m"
    using assms(4) by (auto simp: takeWhile_eq_all_conv)
  then show ?thesis
    using assms(1,3,5) by (simp only: chat_command_def cmd cmd_pm_def arg Let_def prod.case) simp
qed

text \<open>The limit on the length of a message does not hold for private messages: the same text that
  is refused in a room or as a broadcast is sent when it is addressed to one user.\<close>

theorem private_messages_have_no_limit:
  assumes "chat_inv h u w" and "MAX_MSG_LEN < length m" and "nl \<notin> set m"
    and "t \<noteq> []" and "\<And>ch. ch \<in> set t \<Longrightarrow> \<not> isspace ch"
  shows "chat_text c h m w = reply c h (make_err ''Message too long (max 4096 chars).'') w
    \<and> (\<exists>st. chat_command c place h (''/pm '' @ t @ '' '' @ m) w = Some (True, h, w\<lparr>wstore := st\<rparr>)
      \<and> (\<forall>p. by_name (bman w) t = Some p \<and> p \<noteq> nullptr \<and> call_is_active p (wstore w) = Some True \<longrightarrow>
           got (encrypt c (serialise (make_bcast u (pm_text u m)))) (wstore w) p st))"
proof
  show "chat_text c h m w = reply c h (make_err ''Message too long (max 4096 chars).'') w"
    using assms(2) by (simp add: chat_text_def)
  have "bm_wf (bman w) (wstore w)" using assms(1) by (simp add: chat_inv_def world_wf_def)
  from send_private_delivery [OF this, of c u t m] obtain st
    where "send_private c u t m (bman w) (wstore w) = Some st"
      and "delivery (encrypt c (serialise (make_bcast u (pm_text u m)))) (wstore w)
        {p. by_name (bman w) t = Some p \<and> p \<noteq> nullptr \<and> call_is_active p (wstore w) = Some True} st"
    by blast
  moreover have "m \<noteq> []" using assms(2) by auto
  ultimately show "\<exists>st. chat_command c place h (''/pm '' @ t @ '' '' @ m) w = Some (True, h, w\<lparr>wstore := st\<rparr>)
      \<and> (\<forall>p. by_name (bman w) t = Some p \<and> p \<noteq> nullptr \<and> call_is_active p (wstore w) = Some True \<longrightarrow>
           got (encrypt c (serialise (make_bcast u (pm_text u m)))) (wstore w) p st)"
    using cmd_pm_parsed [OF assms(4,5) _ assms(3) name_of_chat [OF assms(1)], of c place]
    by (auto simp: delivery_def)
qed

subsection \<open>The handler at work\<close>

text \<open>Alice and bob are in the lobby; a newcomer's connection (address 3, descriptor 6) sends \<open>inp\<close>.\<close>

definition demo_world :: "string \<Rightarrow> world" where
  "demo_world inp = wire_to default_cipher 6 inp []
     \<lparr>wstore = demo_store, bman = demo_bm, rman = \<lparr>rooms = [''lobby'' \<mapsto> [1, 2]]\<rparr>,
      registry = demo_registry, wfs = demo_fs, ios = [], logs = []\<rparr>"

definition newcomer :: handler where "newcomer = mk_handler 3"

definition alice :: handler where "alice = mk_handler 1"

lemma store_heap_simps:
  "heap a = heap b \<Longrightarrow> live a p = live b p" "heap a = heap b \<Longrightarrow> call_get_username p a = call_get_username p b"
  "heap a = heap b \<Longrightarrow> fd_of a p = fd_of b p" "heap a = heap b \<Longrightarrow> wants a s p = wants b s p"
  "heap a = heap b \<Longrightarrow> call_is_active p a = call_is_active p b"
  by (simp_all add: live_def fd_of_def wants_def call_defs)

lemma demo_fd_of [simp]: "fd_of demo_store 3 = Some 6" "fd_of demo_store (Suc 0) = Some 4"
  by (simp_all add: fd_of_def)

lemma world_wf_heap:
  assumes "heap (wstore w') = heap (wstore w)" "bman w' = bman w" "rman w' = rman w"
  shows "world_wf w' = world_wf w"
  using assms(2,3) store_heap_simps [OF assms(1)] assms(1)
  by (simp add: world_wf_def store_wf_def bm_wf_def rm_wf_def fds_distinct_def)

lemma demo_world_heap [simp]: "heap (wstore (demo_world inp)) = heap demo_store"
  by (simp add: demo_world_def)

lemmas demo_world_calls [simp] = store_heap_simps [OF demo_world_heap]

lemma demo_world_parts [simp]:
  "bman (demo_world inp) = demo_bm" "rman (demo_world inp) = \<lparr>rooms = [''lobby'' \<mapsto> [Suc 0, 2]]\<rparr>"
  "registry (demo_world inp) = demo_registry" "wfs (demo_world inp) = demo_fs"
  "fst (next_io (demo_world inp)) = io_ok"
  "socks (kern (wstore (demo_world inp))) 6 = Some (sock_of default_cipher inp [])"
  "session_ptr newcomer = 3" "session_ptr alice = Suc 0" "current_room alice = ''lobby''"
  by (simp_all add: demo_world_def next_io_def newcomer_def alice_def mk_handler_def)

lemma demo_in_room [simp]:
  "in_room \<lparr>rooms = [''lobby'' \<mapsto> [Suc 0, 2]]\<rparr> r p \<longleftrightarrow> r = ''lobby'' \<and> (p = Suc 0 \<or> p = 2)"
  by (auto simp: in_room_def members_def split: if_splits)

lemma demo_world_wf: "world_wf (demo_world inp)"
  unfolding world_wf_def store_wf_def bm_wf_def rm_wf_def fds_distinct_def
  using demo_store_wf demo_bm_wf demo_fds_distinct
  by (auto simp: store_wf_def bm_wf_def fds_distinct_def split: if_splits)

lemma demo_auth: "auth_inv 3 (demo_world inp)"
  by (simp add: auth_inv_def demo_world_wf demo_sessions demo_bm_def)

lemma demo_chat: "chat_inv alice ''alice'' (demo_world inp)"
  by (simp add: chat_inv_def demo_world_wf demo_bm_def) auto

lemma demo_link: "link default_cipher newcomer 6 inp [] (demo_world inp)"
  by (simp add: link_def demo_sessions get_fd_def)

theorem recv_line_recovers_witness:
  "recv_line default_cipher newcomer (demo_world (''hello'' @ [nl] @ ''x''))
     = Some (''hello'', (demo_world (''hello'' @ [nl] @ ''x''))\<lparr>wstore := rx_upd 6
         (map Got (encrypt default_cipher ''x'')) (wstore (demo_world (''hello'' @ [nl] @ ''x'')))\<rparr>)"
proof (rule recv_line_recovers)
  show "rx (sock_of default_cipher (''hello'' @ [nl] @ ''x'') []) =
      map Got (encrypt default_cipher (''hello'' @ [nl])) @ map Got (encrypt default_cipher ''x'')"
    by (simp add: sock_of_def encrypt_Cons)
qed (simp_all add: sock_of_def feeds_plain del: list.map)

theorem negative_choice_disconnects_witness:
  "auth_attempts 3 default_cipher newcomer (demo_world (''CHOICE:'' @ to_string (-5) @ nl # []))
    = Some (False, wire_to default_cipher 6 [] (serialise make_menu)
        (demo_world (''CHOICE:'' @ to_string (-5) @ nl # [])))"
  using negative_choice_disconnects [where n = "-5" and k = 2, OF demo_link, of "[]"] by (simp add: numeral_3_eq_3)


theorem handler_always_departs_witness:
  "\<exists>w'. thread_func default_cipher append_place (Some (mk_handler 3)) (demo_world ''junk'') = Some w'
    \<and> departed 3 (demo_world ''junk'') w'"
  by (rule handler_always_departs [OF place_ok_append demo_auth])



theorem room_text_tagged_twice_witness:
  "\<exists>w' wire. chat_text default_cipher alice ''hi'' (demo_world []) = Some (True, alice, w')
    \<and> got wire (wstore (demo_world [])) 2 (wstore w')
    \<and> payload (parse (decrypt default_cipher wire)) = ''[alice]: [lobby] [lobby] hi''"
proof -
  from room_text_tagged_twice [OF demo_chat, of "''hi''" default_cipher "[]"]
  obtain w' where w: "chat_text default_cipher alice ''hi'' (demo_world []) = Some (True, alice, w')"
    "\<forall>p. in_room (rman (demo_world [])) (current_room alice) p \<and> wants (wstore (demo_world [])) ''alice'' p
      \<longrightarrow> (\<exists>wire. got wire (wstore (demo_world [])) p (wstore w') \<and> parse (decrypt default_cipher wire) =
            \<lparr>msg_type = ''BCAST'', payload = ''['' @ ''alice'' @ '']: ['' @ current_room alice @ ''] [''
               @ current_room alice @ ''] '' @ ''hi''\<rparr>)"
    by (auto simp: MAX_MSG_LEN_def strip_eol_clean)
  from w(2) [rule_format, of 2] obtain wire where g: "got wire (wstore (demo_world [])) 2 (wstore w')"
    and m: "parse (decrypt default_cipher wire) =
            \<lparr>msg_type = ''BCAST'', payload = ''['' @ ''alice'' @ '']: ['' @ current_room alice @ ''] [''
               @ current_room alice @ ''] '' @ ''hi''\<rparr>" by auto
  from m have "payload (parse (decrypt default_cipher wire)) = ''[alice]: [lobby] [lobby] hi''" by simp
  with w(1) g show ?thesis by blast
qed

theorem exit_words_end_the_chat_witness:
  "chat_line default_cipher append_place newcomer ''MSG:quit'' (demo_world [])
     = Some (False, newcomer, wire_to default_cipher 6 [] (serialise (make_ok ''Goodbye!''))
         (w_log INFO (''User (unauthenticated) sent EXIT.'') (demo_world [])))"
proof -
  have e: "is_exit ''MSG:quit''"
    using parse_tagged [of "''MSG''" "''quit''"] by (simp add: is_exit_def strip_eol_clean)
  show ?thesis
    using exit_words_end_the_chat [OF demo_link, of "[]" "''(unauthenticated)''" "''quit''" "''MSG:quit''"
        append_place] e by (simp add: strip_eol_clean)
qed

theorem private_messages_have_no_limit_witness:
  "\<exists>st. chat_command default_cipher append_place alice (''/pm '' @ ''bob'' @ '' '' @ replicate 5000 (CHR ''x''))
      (demo_world []) = Some (True, alice, (demo_world [])\<lparr>wstore := st\<rparr>)
    \<and> got (encrypt default_cipher (serialise (make_bcast ''alice'' (pm_text ''alice'' (replicate 5000 (CHR ''x''))))))
        (wstore (demo_world [])) 2 st"
proof -
  let ?m = "replicate 5000 (CHR ''x'')"
  have l: "MAX_MSG_LEN < length ?m" by (simp only: length_replicate MAX_MSG_LEN_def)
  have s: "ch \<in> set ''bob'' \<Longrightarrow> \<not> isspace ch" for ch by (auto simp: isspace_def)
  have n: "nl \<notin> set ?m" by (simp only: set_replicate_conv_if) auto
  have "\<exists>st. chat_command default_cipher append_place alice (''/pm '' @ ''bob'' @ '' '' @ ?m) (demo_world [])
      = Some (True, alice, (demo_world [])\<lparr>wstore := st\<rparr>)
    \<and> (\<forall>p. by_name (bman (demo_world [])) ''bob'' = Some p \<and> p \<noteq> nullptr
        \<and> call_is_active p (wstore (demo_world [])) = Some True \<longrightarrow>
          got (encrypt default_cipher (serialise (make_bcast ''alice'' (pm_text ''alice'' ?m))))
            (wstore (demo_world [])) p st)"
    by (rule private_messages_have_no_limit [OF demo_chat l n _ s, THEN conjunct2]) simp_all
  then obtain st where c: "chat_command default_cipher append_place alice (''/pm '' @ ''bob'' @ '' '' @ ?m)
        (demo_world []) = Some (True, alice, (demo_world [])\<lparr>wstore := st\<rparr>)"
    and g: "by_name demo_bm ''bob'' = Some p \<and> p \<noteq> nullptr \<and> call_is_active p demo_store = Some True \<longrightarrow>
          got (encrypt default_cipher (serialise (make_bcast ''alice'' (pm_text ''alice'' ?m))))
            (wstore (demo_world [])) p st" for p
    unfolding demo_world_parts demo_world_calls by blast
  from g [of 2] have "got (encrypt default_cipher (serialise (make_bcast ''alice'' (pm_text ''alice'' ?m))))
      (wstore (demo_world [])) 2 st" by (simp only: demo_bm_def broadcast_manager.simps demo_calls) simp
  with c show ?thesis by blast
qed

end
