(* ===== verification/Thread_Handler.thy ===== *)
theory Thread_Handler
  imports Ownership
begin

text \<open>
  \<open>include/mpcc/util/thread_handler.h\<close>: the RAII classes around POSIX threads. The thread
  library is a record of the identifiers whose threads were created and were joined; what a call
  of \<open>pthread_attr_init\<close> or \<open>pthread_create\<close> does next is an argument. Joining a thread that is
  not joinable is undefined behaviour; the theorems say that each thread that was created is
  joined exactly once, and no other.
\<close>

subsection \<open>The thread library\<close>

record threads =
  created :: "nat list"
  joined :: "nat list"

text \<open>Whether \<open>pthread_attr_init\<close> succeeds, the result of \<open>pthread_create\<close>, and the identifier it
  stores (after an error: whatever is in the variable then).\<close>

record spawn_env =
  attr_ok :: bool
  create_rc :: int
  new_tid :: nat

definition pthread_join :: "nat \<Rightarrow> threads \<Rightarrow> threads" where
  "pthread_join t ts = ts\<lparr>joined := joined ts @ [t]\<rparr>"

definition pthread_create :: "spawn_env \<Rightarrow> threads \<Rightarrow> int \<times> nat \<times> threads" where
  "pthread_create env ts =
     (create_rc env, new_tid env,
      if create_rc env = 0 then ts\<lparr>created := created ts @ [new_tid env]\<rparr> else ts)"

subsection \<open>\<open>PThreadAttr\<close> and \<open>JoinableThread\<close>\<close>

record pthread_attr =
  ok :: bool

definition mk_attr :: "spawn_env \<Rightarrow> pthread_attr" where "mk_attr env = \<lparr>ok = attr_ok env\<rparr>"

definition attr_valid :: "pthread_attr \<Rightarrow> bool" where "attr_valid a \<longleftrightarrow> ok a"

record joinable_thread =
  tid :: nat
  started :: bool

definition mk_thread :: joinable_thread where "mk_thread = \<lparr>tid = 0, started = False\<rparr>"

definition jt_start :: "spawn_env \<Rightarrow> joinable_thread \<Rightarrow> threads \<Rightarrow> int \<times> joinable_thread \<times> threads" where
  "jt_start env t ts =
     (if started t then (0, t, ts)
      else if \<not> attr_valid (mk_attr env) then (1, t, ts)
      else let (rc, i, ts') = pthread_create env ts;
               t1 = t\<lparr>tid := i\<rparr>
           in (rc, if rc = 0 then t1\<lparr>started := True\<rparr> else t1, ts'))"

definition jt_join :: "joinable_thread \<Rightarrow> threads \<Rightarrow> joinable_thread \<times> threads" where
  "jt_join t ts =
     (if \<not> started t then (t, ts)
      else (t\<lparr>tid := 0, started := False\<rparr>, pthread_join (tid t) ts))"

definition jt_destroy :: "joinable_thread \<Rightarrow> threads \<Rightarrow> threads" where
  "jt_destroy t ts = snd (jt_join t ts)"

definition jt_move :: "joinable_thread \<Rightarrow> joinable_thread \<times> joinable_thread" where
  "jt_move other = (\<lparr>tid = tid other, started = started other\<rparr>, other\<lparr>tid := 0, started := False\<rparr>)"

definition jt_move_assign ::
    "bool \<Rightarrow> joinable_thread \<Rightarrow> joinable_thread \<Rightarrow> threads \<Rightarrow> joinable_thread \<times> joinable_thread \<times> threads" where
  "jt_move_assign same this other ts =
     (if same then (this, other, ts)
      else let (this1, ts') = jt_join this ts
           in (this1\<lparr>tid := tid other, started := started other\<rparr>, other\<lparr>tid := 0, started := False\<rparr>, ts'))"

subsection \<open>Every thread is joined exactly once\<close>

datatype jt_op = Start spawn_env | Join | Take joinable_thread | Hand_over

fun jt_step :: "jt_op \<Rightarrow> joinable_thread \<times> threads \<Rightarrow> joinable_thread \<times> threads" where
  "jt_step (Start env) (t, ts) = snd (jt_start env t ts)"
| "jt_step Join (t, ts) = jt_join t ts"
| "jt_step (Take other) (t, ts) = (let (t', _, ts') = jt_move_assign False t other ts in (t', ts'))"
| "jt_step Hand_over (t, ts) = (snd (jt_move t), ts)"

definition jt_held :: "joinable_thread \<Rightarrow> nat multiset" where
  "jt_held t = (if started t then {#tid t#} else {#})"

fun jt_taken :: "jt_op \<Rightarrow> joinable_thread \<times> threads \<Rightarrow> nat multiset" where
  "jt_taken (Start env) (t, ts) =
     (if \<not> started t \<and> attr_ok env \<and> create_rc env = 0 then {#new_tid env#} else {#})"
| "jt_taken (Take other) s = jt_held other"
| "jt_taken _ s = {#}"

fun jt_given :: "jt_op \<Rightarrow> joinable_thread \<times> threads \<Rightarrow> nat multiset" where
  "jt_given Hand_over (t, ts) = jt_held t"
| "jt_given _ s = {#}"

definition jt_end :: "joinable_thread \<times> threads \<Rightarrow> joinable_thread \<times> threads" where
  "jt_end s = (fst s, jt_destroy (fst s) (snd s))"

interpretation jt: ownership jt_step jt_end "\<lambda>s. mset (joined (snd s))" "\<lambda>s. jt_held (fst s)"
  jt_taken jt_given
proof unfold_locales
  fix x and s :: "joinable_thread \<times> threads"
  show "mset (joined (snd (jt_step x s))) + jt_held (fst (jt_step x s)) + jt_given x s
      = mset (joined (snd s)) + jt_held (fst s) + jt_taken x s"
    by (cases x; cases s) (auto simp: jt_start_def jt_join_def jt_move_def jt_move_assign_def
        jt_held_def pthread_join_def pthread_create_def attr_valid_def mk_attr_def)
  show "mset (joined (snd (jt_end s))) = mset (joined (snd s)) + jt_held (fst s)"
    by (simp add: jt_end_def jt_destroy_def jt_join_def jt_held_def pthread_join_def)
qed

lemma jt_created: "created (snd (jt_step (Start env) (t, ts))) = created ts @
    (if \<not> started t \<and> attr_ok env \<and> create_rc env = 0 then [new_tid env] else [])"
  by (simp add: jt_start_def pthread_create_def attr_valid_def mk_attr_def)

text \<open>Over any history of a \<open>JoinableThread\<close> that ends with its destructor, each thread it
  started or was handed is joined exactly once or was moved out, and no other thread is joined:
  a failed or repeated \<open>start\<close> joins nothing.\<close>

theorem thread_joined_exactly_once:
  "mset (joined (snd (jt_end (runs jt_step xs (mk_thread, ts))))) + along jt_step jt_given xs (mk_thread, ts)
   = mset (joined ts) + along jt_step jt_taken xs (mk_thread, ts)"
  using jt.freed_once [of xs "(mk_thread, ts)"] by (simp add: mk_thread_def jt_held_def)

subsection \<open>\<open>ThreadGroup\<close>\<close>

record thread_group =
  tids :: "nat list"

definition mk_group :: thread_group where "mk_group = \<lparr>tids = []\<rparr>"

definition tg_add :: "nat \<Rightarrow> thread_group \<Rightarrow> thread_group" where
  "tg_add t g = g\<lparr>tids := tids g @ [t]\<rparr>"

definition tg_snapshot :: "thread_group \<Rightarrow> nat list" where "tg_snapshot g = tids g"

definition join_all :: "thread_group \<Rightarrow> threads \<Rightarrow> thread_group \<times> threads" where
  "join_all g ts = (g\<lparr>tids := []\<rparr>, fold pthread_join (tids g) ts)"

lemma joined_fold [simp]: "joined (fold pthread_join xs ts) = joined ts @ xs"
  by (induction xs arbitrary: ts) (simp_all add: pthread_join_def)

text \<open>\<open>join_all\<close> joins every tracked thread once, in the order they were added, and forgets them,
  so that calling it again joins nothing.\<close>

theorem join_all_once:
  "join_all (fold tg_add xs mk_group) ts = (mk_group, snd (join_all (fold tg_add xs mk_group) ts))
   \<and> joined (snd (join_all (fold tg_add xs mk_group) ts)) = joined ts @ xs
   \<and> join_all (fst (join_all (fold tg_add xs mk_group) ts)) ts' = (mk_group, ts')"
proof -
  have "tids (fold tg_add xs g) = tids g @ xs" for g
    by (induction xs arbitrary: g) (simp_all add: tg_add_def)
  then show ?thesis by (simp add: join_all_def mk_group_def)
qed

end
