(* ===== verification/Server.thy ===== *)
theory Server
  imports Handler_Protocol Thread_Handler
begin

text \<open>
  \<open>include/mpcc/server/server.h\<close> and \<open>src/server/server.cpp\<close>: the listening socket, the accept
  loop on the main thread, and the shutdown. The shared members are the \<open>world\<close> of
  \<open>Client_Handler\<close>. What the system calls return is an argument of the operation that makes
  them; the accept loop runs on a script of events, in which worker threads may change the shared
  state and \<open>SIGINT\<close> may arrive between any two system calls.
\<close>

subsection \<open>The class\<close>

record server =
  port :: int
  backlog :: int
  server_fd :: unique_fd
  running :: bool
  shared :: world
  thread_group :: thread_group
  pool :: threads
  bound :: "16 word option"

text \<open>\<open>pool\<close> and \<open>bound\<close> are outside of the program: the thread library, and the port the kernel
  was asked for.\<close>

definition mk_server :: "int \<Rightarrow> int \<Rightarrow> world \<Rightarrow> threads \<Rightarrow> server" where
  "mk_server p b w ts = \<lparr>port = p, backlog = b, server_fd = fd_default, running = False, shared = w,
     thread_group = mk_group, pool = ts, bound = None\<rparr>"

definition s_log :: "log_level \<Rightarrow> string \<Rightarrow> server \<Rightarrow> server" where
  "s_log lvl msg s = s\<lparr>shared := w_log lvl msg (shared s)\<rparr>"

definition with_kernel :: "kernel \<Rightarrow> server \<Rightarrow> server" where
  "with_kernel k s = s\<lparr>shared := (shared s)\<lparr>wstore := (wstore (shared s))\<lparr>kern := k\<rparr>\<rparr>\<rparr>"

abbreviation kernel_of :: "server \<Rightarrow> kernel" where
  "kernel_of s \<equiv> kern (wstore (shared s))"

subsection \<open>Setting up the socket\<close>

text \<open>What the four system calls of the setup return: \<open>socket\<close> a descriptor or -1, the others
  success or failure with an \<open>errno\<close> text.\<close>

record setup_env =
  sock_ret :: int
  opt_ok :: bool
  bind_ok :: bool
  listen_ok :: bool
  errmsg :: string

text \<open>A step returns the \<open>runtime_error\<close> it throws, or none.\<close>

definition sys_socket :: "int \<Rightarrow> kernel \<Rightarrow> kernel" where
  "sys_socket f k = (if 0 \<le> f
     then k\<lparr>socks := (socks k)(f \<mapsto> \<lparr>rx = [], sends = [], tx = [], shut = False\<rparr>)\<rparr> else k)"

definition reset_server_fd :: "int \<Rightarrow> server \<Rightarrow> server" where
  "reset_server_fd f s =
     (let (u, k) = fd_reset f (server_fd s) (kernel_of s) in (with_kernel k s)\<lparr>server_fd := u\<rparr>)"

definition create_socket :: "setup_env \<Rightarrow> server \<Rightarrow> string option \<times> server" where
  "create_socket env s =
     (let s = reset_server_fd (sock_ret env) (with_kernel (sys_socket (sock_ret env) (kernel_of s)) s)
      in if \<not> fd_valid (server_fd s)
         then (Some ''socket() failed'', s_log FATAL (''socket() failed: '' @ errmsg env) s)
         else
           let s = (if opt_ok env then s
                    else s_log WARNING (''setsockopt(SO_REUSEADDR) failed: '' @ errmsg env) s)
           in (None, s_log DEBUG (''Server socket created: fd='' @ to_string (fd (server_fd s))) s))"

definition bind_socket :: "setup_env \<Rightarrow> server \<Rightarrow> string option \<times> server" where
  "bind_socket env s =
     (let s = s\<lparr>bound := Some (word_of_int (port s))\<rparr>
      in if \<not> bind_ok env
         then (Some ''bind() failed'', reset_server_fd (-1)
                (s_log FATAL (''bind() on port '' @ to_string (port s) @ '' failed: '' @ errmsg env) s))
         else (None, s_log DEBUG (''Socket bound to port '' @ to_string (port s)) s))"

definition listen_socket :: "setup_env \<Rightarrow> server \<Rightarrow> string option \<times> server" where
  "listen_socket env s =
     (if \<not> listen_ok env
      then (Some ''listen() failed'', reset_server_fd (-1)
             (s_log FATAL (''listen() failed: '' @ errmsg env) s))
      else (None, s_log DEBUG (''Socket in listen state, backlog='' @ to_string (backlog s)) s))"

subsection \<open>The accept loop\<close>

text \<open>An accepted connection: its descriptor, address and socket, the address at which the new
  \<open>Session\<close> is allocated, and how the creation of the thread goes.\<close>

record connection =
  conn_fd :: int
  conn_ip :: string
  conn_sock :: socket
  conn_ptr :: ptr
  conn_env :: spawn_env
  conn_err :: string

text \<open>
  The body of the loop after a successful \<open>accept\<close>. The result says which handler thread was
  started. When none was, the \<open>unique_ptr\<close>s free the handler, whose destructor is defaulted,
  but nobody frees the session that was released into it.
\<close>

definition accept_conn :: "connection \<Rightarrow> server \<Rightarrow> handler option \<times> server" where
  "accept_conn cn s =
     (let k = kernel_of s;
          s = with_kernel (k\<lparr>socks := (socks k)(conn_fd cn \<mapsto> conn_sock cn)\<rparr>) s;
          s = s_log INFO (''New connection accepted from '' @ conn_ip cn @ ''  (fd=''
                @ to_string (conn_fd cn) @ '')'') s;
          s = s\<lparr>shared := (shared s)\<lparr>wstore :=
                new_session (conn_ptr cn) (conn_fd cn) (conn_ip cn) (wstore (shared s))\<rparr>\<rparr>;
          h = mk_handler (conn_ptr cn)
      in if \<not> attr_valid (mk_attr (conn_env cn))
         then (None, s_log FATAL ''pthread_attr_init() failed.'' s)
         else
           let (rc, t, ts) = pthread_create (conn_env cn) (pool s);
               s = s\<lparr>pool := ts\<rparr>
           in if rc \<noteq> 0
              then (None, s_log FATAL (''pthread_create() failed: '' @ conn_err cn) s)
              else (Some h, s_log DEBUG (''ClientHandler thread spawned: tid='' @ to_string (int t))
                     (s\<lparr>thread_group := tg_add t (thread_group s)\<rparr>)))"

definition sigint_handler :: "server \<Rightarrow> server" where
  "sigint_handler s = s\<lparr>running := False\<rparr>"

text \<open>
  What happens while the main thread is in \<open>accept\<close>: it returns a connection or an error (the
  first flag of \<open>Accept_err\<close> is \<open>EINTR\<close>), the signal handler runs, or worker threads change the
  shared state. The last flag of a return says that the signal handler runs again after it,
  before the loop tests its condition.
\<close>

datatype accept_event =
    Conn connection bool
  | Accept_err bool string bool
  | Signal
  | Workers "world \<Rightarrow> world"

definition leave_accept :: "server \<Rightarrow> server" where
  "leave_accept s = s_log INFO ''accept_loop exited.'' s"

definition maybe_sigint :: "bool \<Rightarrow> server \<Rightarrow> server" where
  "maybe_sigint b s = (if b then sigint_handler s else s)"

text \<open>The loop from inside \<open>accept\<close>; the result says whether it was left. At the end of the
  script the main thread is still waiting.\<close>

fun in_accept :: "accept_event list \<Rightarrow> server \<Rightarrow> bool \<times> server" where
  "in_accept [] s = (False, s)"
| "in_accept (Signal # es) s = in_accept es (sigint_handler s)"
| "in_accept (Workers f # es) s = in_accept es (s\<lparr>shared := f (shared s)\<rparr>)"
| "in_accept (Accept_err eintr e sg # es) s =
     (if \<not> running s then (True, leave_accept s)
      else let s' = maybe_sigint sg (if eintr then s else s_log WARNING (''accept() error: '' @ e) s)
           in if running s' then in_accept es s' else (True, leave_accept s'))"
| "in_accept (Conn cn sg # es) s =
     (let s' = maybe_sigint sg (snd (accept_conn cn s))
      in if running s' then in_accept es s' else (True, leave_accept s'))"

definition accept_loop :: "accept_event list \<Rightarrow> server \<Rightarrow> bool \<times> server" where
  "accept_loop es s = (if running s then in_accept es s else (True, leave_accept s))"

subsection \<open>Start and shutdown\<close>

text \<open>The result of \<open>start\<close>: an exception, or whether the accept loop was left.\<close>

definition start :: "setup_env \<Rightarrow> accept_event list \<Rightarrow> server \<Rightarrow> (string + bool) \<times> server" where
  "start env es s =
     (case create_socket env s of
        (Some e, s) \<Rightarrow> (Inl e, s)
      | (None, s) \<Rightarrow>
          (case bind_socket env s of
             (Some e, s) \<Rightarrow> (Inl e, s)
           | (None, s) \<Rightarrow>
               (case listen_socket env s of
                  (Some e, s) \<Rightarrow> (Inl e, s)
                | (None, s) \<Rightarrow>
                    let s = s_log INFO (''MPCC Server listening on port '' @ to_string (port s)) s;
                        s = s_log INFO ''Press Ctrl-C to shut down.'' s;
                        (left, s) = accept_loop es (s\<lparr>running := True\<rparr>)
                    in (Inr left, s))))"

definition disconnect_all_clients :: "server \<Rightarrow> server option" where
  "disconnect_all_clients s = do {
     let s = s_log INFO ''Disconnecting all active client sessions...'' s;
     (bm, st) \<leftarrow> shutdown_all (bman (shared s)) (wstore (shared s));
     Some (s\<lparr>shared := (shared s)\<lparr>bman := bm, wstore := st\<rparr>\<rparr>)
   }"

text \<open>\<open>drain\<close> is what the worker threads still do to the shared state while they are joined.\<close>

definition shutdown :: "(world \<Rightarrow> world) \<Rightarrow> server \<Rightarrow> server option" where
  "shutdown drain s = do {
     let s = s_log INFO (''Server::shutdown() '' @ endash @ '' setting running=false'') s;
     s \<leftarrow> disconnect_all_clients (s\<lparr>running := False\<rparr>);
     let s = (if fd_valid (server_fd s)
              then reset_server_fd (-1) (with_kernel (fd_shutdown_rdwr (server_fd s) (kernel_of s)) s)
              else s);
     let (g, ts) = join_all (thread_group s) (pool s);
     let s = s\<lparr>thread_group := g, pool := ts, shared := drain (shared s)\<rparr>;
     Some (s_log INFO ''Server shutdown complete.'' s)
   }"

text \<open>The members' destructors, after the empty \<open>~Server\<close>: the one with an effect is \<open>UniqueFd\<close>'s.\<close>

definition server_destroy :: "server \<Rightarrow> server" where
  "server_destroy s = with_kernel (fd_destroy (server_fd s) (kernel_of s)) s"

subsection \<open>Frames\<close>

lemma s_log_frame [simp]:
  "port (s_log l m s) = port s" "backlog (s_log l m s) = backlog s"
  "server_fd (s_log l m s) = server_fd s" "running (s_log l m s) = running s"
  "thread_group (s_log l m s) = thread_group s" "pool (s_log l m s) = pool s"
  "bound (s_log l m s) = bound s" "wstore (shared (s_log l m s)) = wstore (shared s)"
  "bman (shared (s_log l m s)) = bman (shared s)" "rman (shared (s_log l m s)) = rman (shared s)"
  by (simp_all add: s_log_def)

lemma with_kernel_frame [simp]:
  "port (with_kernel k s) = port s" "backlog (with_kernel k s) = backlog s"
  "server_fd (with_kernel k s) = server_fd s" "running (with_kernel k s) = running s"
  "thread_group (with_kernel k s) = thread_group s" "pool (with_kernel k s) = pool s"
  "bound (with_kernel k s) = bound s" "kernel_of (with_kernel k s) = k"
  "heap (wstore (shared (with_kernel k s))) = heap (wstore (shared s))"
  "bman (shared (with_kernel k s)) = bman (shared s)" "rman (shared (with_kernel k s)) = rman (shared s)"
  by (simp_all add: with_kernel_def)

lemma reset_fd_frame [simp]:
  "port (reset_server_fd f s) = port s" "backlog (reset_server_fd f s) = backlog s"
  "server_fd (reset_server_fd f s) = (server_fd s)\<lparr>fd := f\<rparr>" "running (reset_server_fd f s) = running s"
  "thread_group (reset_server_fd f s) = thread_group s" "pool (reset_server_fd f s) = pool s"
  "bound (reset_server_fd f s) = bound s"
  "closes (kernel_of (reset_server_fd f s)) = closes (kernel_of s)
     @ (if 0 \<le> fd (server_fd s) then [fd (server_fd s)] else [])"
  by (simp_all add: reset_server_fd_def fd_reset_def)

lemma closes_sys_socket [simp]: "closes (sys_socket f k) = closes k"
  by (simp add: sys_socket_def)

subsection \<open>Starting up\<close>

lemma create_socket_eff:
  assumes "fd (server_fd s) < 0" "create_socket env s = (r, s')"
  shows "r = (if sock_ret env < 0 then Some ''socket() failed'' else None)
    \<and> fd (server_fd s') = sock_ret env \<and> closes (kernel_of s') = closes (kernel_of s)
    \<and> port s' = port s \<and> bound s' = bound s"
  using assms by (auto simp: create_socket_def Let_def fd_valid_def split: if_splits)

lemma bind_socket_eff:
  assumes "bind_socket env s = (r, s')"
  shows "bound s' = Some (word_of_int (port s)) \<and> port s' = port s
    \<and> (if bind_ok env then r = None \<and> server_fd s' = server_fd s \<and> closes (kernel_of s') = closes (kernel_of s)
       else r = Some ''bind() failed'' \<and> fd (server_fd s') = -1 \<and> closes (kernel_of s')
         = closes (kernel_of s) @ (if 0 \<le> fd (server_fd s) then [fd (server_fd s)] else []))"
  using assms by (auto simp: bind_socket_def Let_def split: if_splits)

lemma listen_socket_eff:
  assumes "listen_socket env s = (r, s')"
  shows "if listen_ok env then r = None \<and> server_fd s' = server_fd s
         \<and> closes (kernel_of s') = closes (kernel_of s)
       else r = Some ''listen() failed'' \<and> fd (server_fd s') = -1 \<and> closes (kernel_of s')
         = closes (kernel_of s) @ (if 0 \<le> fd (server_fd s) then [fd (server_fd s)] else [])"
  using assms by (auto simp: listen_socket_def split: if_splits)

text \<open>C32: \<open>start\<close> throws exactly when one of \<open>socket\<close>, \<open>bind\<close>, \<open>listen\<close> fails, with the message
  of the first that does, and by the time the server object is destroyed the listening socket,
  if there was one, has been closed exactly once.\<close>

theorem startup_failure_closes_socket:
  assumes "server_fd s = fd_default"
  shows "(case fst (start env es s) of
      Inl e \<Rightarrow> e = (if sock_ret env < 0 then ''socket() failed''
                     else if \<not> bind_ok env then ''bind() failed'' else ''listen() failed'')
        \<and> \<not> (0 \<le> sock_ret env \<and> bind_ok env \<and> listen_ok env)
        \<and> closes (kernel_of (server_destroy (snd (start env es s))))
            = closes (kernel_of s) @ (if 0 \<le> sock_ret env then [sock_ret env] else [])
    | Inr _ \<Rightarrow> 0 \<le> sock_ret env \<and> bind_ok env \<and> listen_ok env)"
proof -
  obtain r1 s1 where c: "create_socket env s = (r1, s1)" by force
  obtain r2 s2 where b: "bind_socket env s1 = (r2, s2)" by force
  obtain r3 s3 where l: "listen_socket env s2 = (r3, s3)" by force
  have neg: "fd (server_fd s) < 0" using assms by (simp add: fd_default_def)
  note effs = create_socket_eff [OF neg c] bind_socket_eff [OF b] listen_socket_eff [OF l]
  have destroy: "closes (kernel_of (server_destroy x)) = closes (kernel_of x)
      @ (if 0 \<le> fd (server_fd x) then [fd (server_fd x)] else [])" for x
    by (simp add: server_destroy_def fd_destroy_def fd_reset_def)
  consider "sock_ret env < 0" | "0 \<le> sock_ret env" "\<not> bind_ok env"
    | "0 \<le> sock_ret env" "bind_ok env" "\<not> listen_ok env"
    | "0 \<le> sock_ret env" "bind_ok env" "listen_ok env" by linarith
  then show ?thesis
    by cases (use effs in \<open>auto simp: start_def c b l destroy split: prod.splits\<close>)
qed


lemma setup_shared [simp]:
  "heap (wstore (shared (reset_server_fd f s))) = heap (wstore (shared s))"
  "bman (shared (reset_server_fd f s)) = bman (shared s)" "rman (shared (reset_server_fd f s)) = rman (shared s)"
  by (simp_all add: reset_server_fd_def fd_reset_def)

text \<open>When the three calls succeed, the accept loop runs on the shared state the server had.\<close>

lemma start_enters_loop:
  assumes "0 \<le> sock_ret env" "bind_ok env" "listen_ok env"
  shows "\<exists>s3. start env es s = (Inr (fst (in_accept es s3)), snd (in_accept es s3)) \<and> running s3
    \<and> heap (wstore (shared s3)) = heap (wstore (shared s))
    \<and> bman (shared s3) = bman (shared s) \<and> rman (shared s3) = rman (shared s)"
proof -
  define s1 where "s1 = snd (create_socket env s)"
  define s2 where "s2 = snd (bind_socket env s1)"
  define s3 where "s3 = snd (listen_socket env s2)"
  have c: "create_socket env s = (None, s1)"
    using assms by (simp add: s1_def create_socket_def Let_def fd_valid_def)
  have b: "bind_socket env s1 = (None, s2)"
    using assms by (simp add: s2_def bind_socket_def Let_def)
  have l: "listen_socket env s2 = (None, s3)"
    using assms by (simp add: s3_def listen_socket_def)
  have sh: "heap (wstore (shared s3)) = heap (wstore (shared s))" "bman (shared s3) = bman (shared s)"
    "rman (shared s3) = rman (shared s)"
    using assms by (simp_all add: s3_def s2_def s1_def create_socket_def bind_socket_def
        listen_socket_def Let_def fd_valid_def)
  let ?s = "(s_log INFO ''Press Ctrl-C to shut down.''
      (s_log INFO (''MPCC Server listening on port '' @ to_string (port s3)) s3))\<lparr>running := True\<rparr>"
  show ?thesis
    by (intro exI [of _ ?s]) (simp add: start_def c b l Let_def accept_loop_def sh case_prod_unfold)
qed

subsection \<open>Accepting\<close>

lemma accept_conn_group:
  assumes "created (pool s) = cs @ tids (thread_group s)" "joined (pool s) = js"
  shows "created (pool (snd (accept_conn cn s))) = cs @ tids (thread_group (snd (accept_conn cn s)))
    \<and> joined (pool (snd (accept_conn cn s))) = js"
  using assms by (auto simp: accept_conn_def Let_def pthread_create_def tg_add_def)

lemma sigint_frame [simp]:
  "pool (sigint_handler s) = pool s" "thread_group (sigint_handler s) = thread_group s"
  "pool (maybe_sigint b s) = pool s" "thread_group (maybe_sigint b s) = thread_group s"
  "shared (sigint_handler s) = shared s" "shared (maybe_sigint b s) = shared s"
  by (simp_all add: sigint_handler_def maybe_sigint_def)

lemma in_accept_group:
  "created (pool s) = cs @ tids (thread_group s) \<Longrightarrow> joined (pool s) = js \<Longrightarrow>
   in_accept es s = (r, s') \<Longrightarrow>
   created (pool s') = cs @ tids (thread_group s') \<and> joined (pool s') = js"
proof (induction es s arbitrary: r s' rule: in_accept.induct)
  case (5 cn sg es s)
  note g = accept_conn_group [OF "5.prems"(1,2), of cn]
  show ?case
    using "5.IH" [OF refl] "5.prems"(3) g by (auto simp: Let_def leave_accept_def split: if_splits)
qed (auto simp: Let_def leave_accept_def split: if_splits)

lemma setup_pool [simp]:
  "pool (snd (create_socket env s)) = pool s" "thread_group (snd (create_socket env s)) = thread_group s"
  "pool (snd (bind_socket env s)) = pool s" "thread_group (snd (bind_socket env s)) = thread_group s"
  "pool (snd (listen_socket env s)) = pool s" "thread_group (snd (listen_socket env s)) = thread_group s"
  by (simp_all add: create_socket_def bind_socket_def listen_socket_def Let_def)

lemma start_group:
  assumes "created (pool s) = cs @ tids (thread_group s)" "joined (pool s) = js"
    and "start env es s = (r, s')"
  shows "created (pool s') = cs @ tids (thread_group s') \<and> joined (pool s') = js"
proof -
  obtain r1 s1 where c: "create_socket env s = (r1, s1)" by force
  obtain r2 s2 where b: "bind_socket env s1 = (r2, s2)" by force
  obtain r3 s3 where l: "listen_socket env s2 = (r3, s3)" by force
  have p: "pool s1 = pool s" "pool s2 = pool s" "pool s3 = pool s"
    "thread_group s1 = thread_group s" "thread_group s2 = thread_group s" "thread_group s3 = thread_group s"
    using setup_pool(1,2) [of env s] setup_pool(3,4) [of env s1] setup_pool(5,6) [of env s2] c b l
    by simp_all
  let ?s = "(s_log INFO ''Press Ctrl-C to shut down.''
      (s_log INFO (''MPCC Server listening on port '' @ to_string (port s3)) s3))\<lparr>running := True\<rparr>"
  obtain x s4 where a: "in_accept es ?s = (x, s4)" by force
  have "created (pool s4) = cs @ tids (thread_group s4) \<and> joined (pool s4) = js"
    by (rule in_accept_group [OF _ _ a]) (use assms p in simp_all)
  then show ?thesis
    using assms p a by (auto simp: start_def c b l Let_def accept_loop_def split: option.splits)
qed

text \<open>C31: however the accept loop went, after \<open>shutdown\<close> every worker thread the server created has
  been joined exactly once, and nothing else has.\<close>

theorem every_worker_joined:
  assumes "start env es (mk_server p b w ts) = (r, s1)" and "shutdown drain s1 = Some s2"
  shows "\<exists>new. created (pool s2) = created ts @ new \<and> joined (pool s2) = joined ts @ new
    \<and> tids (thread_group s2) = []"
proof -
  have g: "created (pool s1) = created ts @ tids (thread_group s1)" "joined (pool s1) = joined ts"
    using start_group [OF _ _ assms(1), of "created ts" "joined ts"]
    by (simp_all add: mk_server_def mk_group_def)
  have cr: "created (fold pthread_join xs t) = created t" for xs t
    by (induction xs arbitrary: t) (simp_all add: pthread_join_def)
  show ?thesis
    using assms(2) g by (auto simp: shutdown_def disconnect_all_clients_def bind_Some_iff Let_def
        join_all_def cr split: if_splits)
qed

text \<open>A new session at a fresh address, on a descriptor no session holds.\<close>

definition fresh_conn :: "connection \<Rightarrow> world \<Rightarrow> bool" where
  "fresh_conn cn w \<longleftrightarrow> conn_ptr cn \<noteq> nullptr \<and> heap (wstore w) (conn_ptr cn) = None
     \<and> (\<forall>q. fd_of (wstore w) q \<noteq> Some (conn_fd cn))"

lemma accept_conn_world:
  assumes "accept_conn cn s = (h, s')"
  shows "heap (wstore (shared s')) = (heap (wstore (shared s)))(conn_ptr cn \<mapsto> mk_session (conn_fd cn) (conn_ip cn))
    \<and> socks (kernel_of s') = (socks (kernel_of s))(conn_fd cn \<mapsto> conn_sock cn)
    \<and> closes (kernel_of s') = closes (kernel_of s)
    \<and> bman (shared s') = bman (shared s) \<and> rman (shared s') = rman (shared s)
    \<and> server_fd s' = server_fd s
    \<and> h = (if attr_ok (conn_env cn) \<and> create_rc (conn_env cn) = 0 then Some (mk_handler (conn_ptr cn)) else None)
    \<and> (h = None \<longrightarrow> thread_group s' = thread_group s \<and> pool s' = pool s)"
  using assms by (auto simp: accept_conn_def Let_def new_session_def attr_valid_def mk_attr_def
      pthread_create_def split: if_splits)

lemma accept_conn_disk: "accept_conn cn s = (h, s') \<Longrightarrow> registry (shared s') = registry (shared s)
    \<and> wfs (shared s') = wfs (shared s) \<and> ios (shared s') = ios (shared s)"
  by (auto simp: accept_conn_def Let_def s_log_def with_kernel_def split: if_splits prod.splits)

lemma fresh_session_wf:
  assumes "world_wf w" "fresh_conn cn w" "bman w' = bman w" "rman w' = rman w"
    and "heap (wstore w') = (heap (wstore w))(conn_ptr cn \<mapsto> mk_session (conn_fd cn) (conn_ip cn))"
  shows "world_wf w' \<and> auth_inv (conn_ptr cn) w'"
proof -
  let ?p = "conn_ptr cn"
  have p: "?p \<noteq> nullptr" "heap (wstore w) ?p = None" "\<And>q. fd_of (wstore w) q \<noteq> Some (conn_fd cn)"
    using assms(2) by (auto simp: fresh_conn_def)
  have live: "live (wstore w) q \<Longrightarrow> live (wstore w') q" and dead: "\<not> live (wstore w) ?p" for q
    using assms(5) p(2) by (auto simp: live_def)
  have name: "call_get_username q (wstore w') = call_get_username q (wstore w)"
    and act: "call_is_active q (wstore w') = call_is_active q (wstore w)"
    and fd: "fd_of (wstore w') q = fd_of (wstore w) q" if "q \<noteq> ?p" for q
    using assms(5) that by (simp_all add: call_get_username_def call_is_active_def fd_of_def call_get_fd_def)
  have fdp: "fd_of (wstore w') ?p = Some (conn_fd cn)"
    using assms(5) by (simp add: fd_of_def call_get_fd_def mk_session_def get_fd_def mk_fd_def)
  have clients: "?p \<notin> set (clients (bman w))" and rooms: "\<not> in_room (rman w) r ?p" for r
    using assms(1) dead by (auto simp: world_wf_def bm_wf_def rm_wf_def in_room_def members_def)
  have "store_wf (wstore w')" using assms(1,5) p(1) by (simp add: world_wf_def store_wf_def)
  moreover have "bm_wf (bman w) (wstore w')"
    using assms(1) live name clients unfolding world_wf_def bm_wf_def by metis
  moreover have "rm_wf (rman w) (wstore w')"
    using assms(1) live by (auto simp: world_wf_def rm_wf_def)
  moreover have "fds_distinct (wstore w')"
    unfolding fds_distinct_def
  proof (intro allI impI)
    fix q r f
    assume a: "call_is_active q (wstore w') = Some True \<and> call_is_active r (wstore w') = Some True
      \<and> fd_of (wstore w') q = Some f \<and> fd_of (wstore w') r = Some f"
    show "q = r"
      using a act fd fdp p(3) assms(1) unfolding world_wf_def fds_distinct_def by metis
  qed
  ultimately have wf: "world_wf w'" using assms(3,4) by (simp add: world_wf_def)
  then show ?thesis
    using assms(3-5) clients rooms by (simp add: auth_inv_def mk_session_def)
qed

text \<open>An accepted connection gets a session of its own in a well-formed shared state, and the
  handler that is started finds it as it expects it: unknown to everybody else.\<close>

theorem accept_starts_fresh_handler:
  assumes "world_wf (shared s)" and "fresh_conn cn (shared s)" and "accept_conn cn s = (Some h, s')"
  shows "world_wf (shared s') \<and> auth_inv (session_ptr h) (shared s') \<and> h = mk_handler (conn_ptr cn)
    \<and> fd_of (wstore (shared s')) (session_ptr h) = Some (conn_fd cn)
    \<and> (\<forall>q. q \<noteq> conn_ptr cn \<longrightarrow> heap (wstore (shared s')) q = heap (wstore (shared s)) q)"
proof -
  note eff = accept_conn_world [OF assms(3)]
  then have h: "h = mk_handler (conn_ptr cn)" by (simp split: if_splits)
  from fresh_session_wf [OF assms(1,2)] eff have "world_wf (shared s') \<and> auth_inv (conn_ptr cn) (shared s')"
    by blast
  with h eff show ?thesis
    by (simp add: mk_handler_def fd_of_def call_get_fd_def mk_session_def get_fd_def mk_fd_def)
qed

text \<open>The signal handler only clears a flag that the loop tests when \<open>accept\<close> returns: as long as
  it does not (the signal was taken by another thread, say), the server keeps waiting however
  often it is interrupted; at its next return the loop is left.\<close>

theorem sigint_waits_for_accept:
  shows "(list_all (\<lambda>e. e = Signal \<or> (\<exists>f. e = Workers f)) es \<longrightarrow> \<not> fst (in_accept es s))
    \<and> fst (in_accept (Signal # Accept_err eintr e sg # es') s)
    \<and> fst (in_accept (Signal # Conn cn sg # es') s)"
proof (intro conjI impI)
  show "\<not> fst (in_accept es s)" if "list_all (\<lambda>e. e = Signal \<or> (\<exists>f. e = Workers f)) es"
    using that by (induction es arbitrary: s) auto
  show "fst (in_accept (Signal # Accept_err eintr e sg # es') s)"
    by (simp add: sigint_handler_def)
  have "running (snd (accept_conn cn s)) = running s" for s
    by (simp add: accept_conn_def Let_def pthread_create_def)
  then show "fst (in_accept (Signal # Conn cn sg # es') s)"
    by (simp add: Let_def maybe_sigint_def sigint_handler_def)
qed

subsection \<open>Shutting down\<close>

lemma shutdown_all_spec:
  assumes "world_wf w"
  shows "\<exists>st'. shutdown_all (bman w) (wstore w) = Some (mk_broadcast_manager, st')
    \<and> (\<forall>p \<in> set (clients (bman w)). call_is_active p st' = Some False)
    \<and> (\<forall>q. q \<notin> set (clients (bman w)) \<longrightarrow> heap st' q = heap (wstore w) q)
    \<and> closes (kern st') = closes (kern (wstore w)) @ active_fds (wstore w) (clients (bman w))
    \<and> (\<forall>q. call_get_username q st' = call_get_username q (wstore w))"
  using close_each_spec [of "clients (bman w)" "wstore w"] assms
  by (auto simp: shutdown_all_def world_wf_def bm_wf_def mk_broadcast_manager_def)

lemma shutdown_world_wf:
  assumes wf: "world_wf w" and w': "bman w' = mk_broadcast_manager" "rman w' = rman w"
    and gone: "\<And>p. p \<in> set (clients (bman w)) \<Longrightarrow> call_is_active p (wstore w') = Some False"
    and kept: "\<And>q. q \<notin> set (clients (bman w)) \<Longrightarrow> heap (wstore w') q = heap (wstore w) q"
  shows "world_wf w'"
proof -
  have clients: "p \<in> set (clients (bman w)) \<Longrightarrow> live (wstore w) p" for p
    using wf by (simp add: world_wf_def bm_wf_def)
  have live: "live (wstore w') q = live (wstore w) q" for q
    using gone [of q] kept [of q] clients [of q]
    by (cases "q \<in> set (clients (bman w))") (auto simp: live_def call_is_active_def)
  have act: "call_is_active q (wstore w') = Some True \<Longrightarrow>
      q \<notin> set (clients (bman w)) \<and> call_is_active q (wstore w) = Some True
      \<and> fd_of (wstore w') q = fd_of (wstore w) q" for q
    using gone [of q] kept [of q]
    by (cases "q \<in> set (clients (bman w))") (auto simp: call_is_active_def fd_of_def call_get_fd_def)
  have "fds_distinct (wstore w')"
    using wf act unfolding world_wf_def fds_distinct_def by metis
  then show ?thesis
    using wf w' live by (simp add: world_wf_def store_wf_iff rm_wf_def)
qed

lemma disconnect_eff:
  assumes "world_wf (shared s)"
  shows "\<exists>s2. disconnect_all_clients s = Some s2 \<and> world_wf (shared s2)
    \<and> clients (bman (shared s2)) = [] \<and> rman (shared s2) = rman (shared s)
    \<and> (\<forall>p \<in> set (clients (bman (shared s))). call_is_active p (wstore (shared s2)) = Some False)
    \<and> (\<forall>q. q \<notin> set (clients (bman (shared s))) \<longrightarrow>
          heap (wstore (shared s2)) q = heap (wstore (shared s)) q)
    \<and> closes (kernel_of s2) = closes (kernel_of s)
        @ active_fds (wstore (shared s)) (clients (bman (shared s)))
    \<and> (\<forall>q. call_get_username q (wstore (shared s2)) = call_get_username q (wstore (shared s)))"
proof -
  from shutdown_all_spec [OF assms] obtain st' where st:
    "shutdown_all (bman (shared s)) (wstore (shared s)) = Some (mk_broadcast_manager, st')"
    "\<forall>p \<in> set (clients (bman (shared s))). call_is_active p st' = Some False"
    "\<forall>q. q \<notin> set (clients (bman (shared s))) \<longrightarrow> heap st' q = heap (wstore (shared s)) q"
    "closes (kern st') = closes (kernel_of s) @ active_fds (wstore (shared s)) (clients (bman (shared s)))"
    "\<forall>q. call_get_username q st' = call_get_username q (wstore (shared s))"
    by blast
  define s1 where "s1 = s_log INFO ''Disconnecting all active client sessions...'' s"
  let ?w = "(shared s1)\<lparr>bman := mk_broadcast_manager, wstore := st'\<rparr>"
  have "world_wf ?w"
    by (rule shutdown_world_wf [OF assms]) (use st in \<open>simp_all add: s1_def\<close>)
  moreover have "disconnect_all_clients s = Some (s1\<lparr>shared := ?w\<rparr>)"
    using st(1) by (simp add: disconnect_all_clients_def s1_def Let_def)
  ultimately show ?thesis
    using st by (intro exI [of _ "s1\<lparr>shared := ?w\<rparr>"]) (simp add: s1_def mk_broadcast_manager_def)
qed

lemma shutdown_defined:
  assumes "world_wf (shared s)"
  shows "\<exists>s2. shutdown drain s = Some s2"
proof -
  let ?s = "(s_log INFO (''Server::shutdown() '' @ endash @ '' setting running=false'') s)\<lparr>running := False\<rparr>"
  have "world_wf (shared ?s)" using assms by (simp add: s_log_def world_wf_def)
  then obtain s2 where "disconnect_all_clients ?s = Some s2" using disconnect_eff by blast
  then show ?thesis by (simp add: shutdown_def Let_def case_prod_unfold)
qed

lemma active_fds_owned:
  assumes "f \<in> set (active_fds st ps)"
  shows "\<exists>q \<in> set ps. fd_of st q = Some f"
proof -
  from assms obtain q where q: "q \<in> set ps" "f \<in> set (case heap st q of None \<Rightarrow> []
      | Some s \<Rightarrow> if active s then owned_fd s else [])" by (auto simp: active_fds_def)
  then have "fd_of st q = Some f"
    by (cases "heap st q") (auto simp: owned_fd_def fd_of_def call_get_fd_def split: if_splits)
  with q(1) show ?thesis by blast
qed

text \<open>C39: when no thread can be created for a connection, its session and its descriptor are leaked:
  the loop goes on with both alive, no thread and no registry knows the session, and even the
  shutdown of the server does not close the descriptor.\<close>

theorem spawn_failure_leaks_session:
  assumes "world_wf (shared s)" and "fresh_conn cn (shared s)"
    and "\<not> (attr_ok (conn_env cn) \<and> create_rc (conn_env cn) = 0)"
  shows "\<exists>s1 s2 cl. accept_conn cn s = (None, s1) \<and> pool s1 = pool s
    \<and> disconnect_all_clients s1 = Some s2
    \<and> heap (wstore (shared s2)) (conn_ptr cn) = Some (mk_session (conn_fd cn) (conn_ip cn))
    \<and> conn_ptr cn \<notin> set (clients (bman (shared s1))) \<and> (\<forall>r. \<not> in_room (rman (shared s1)) r (conn_ptr cn))
    \<and> closes (kernel_of s2) = closes (kernel_of s) @ cl \<and> conn_fd cn \<notin> set cl"
proof -
  obtain h s1 where a: "accept_conn cn s = (h, s1)" by force
  note eff = accept_conn_world [OF a]
  with assms(3) have h: "h = None" by (simp split: if_splits)
  have wf: "world_wf (shared s1)" "auth_inv (conn_ptr cn) (shared s1)"
    using fresh_session_wf [OF assms(1,2)] eff by blast+
  then have new: "conn_ptr cn \<notin> set (clients (bman (shared s1)))"
    "\<And>r. \<not> in_room (rman (shared s1)) r (conn_ptr cn)" by (simp_all add: auth_inv_def)
  from disconnect_eff [OF wf(1)] obtain s2 where d: "disconnect_all_clients s1 = Some s2"
    "\<And>q. q \<notin> set (clients (bman (shared s1))) \<Longrightarrow> heap (wstore (shared s2)) q = heap (wstore (shared s1)) q"
    "closes (kernel_of s2) = closes (kernel_of s1) @ active_fds (wstore (shared s1)) (clients (bman (shared s1)))"
    by blast
  have "fd_of (wstore (shared s1)) q \<noteq> Some (conn_fd cn)" if "q \<in> set (clients (bman (shared s1)))" for q
  proof -
    from that new have "q \<noteq> conn_ptr cn" by auto
    then have "fd_of (wstore (shared s1)) q = fd_of (wstore (shared s)) q"
      using eff by (simp add: fd_of_def call_get_fd_def)
    then show ?thesis using assms(2) by (simp add: fresh_conn_def)
  qed
  then have "conn_fd cn \<notin> set (active_fds (wstore (shared s1)) (clients (bman (shared s1))))"
    using active_fds_owned by blast
  then show ?thesis
    using a h d eff new by (intro exI [of _ s1] exI [of _ s2]) auto
qed

text \<open>The shutdown closes the connections of the clients that have logged in, and only those: a
  client that is still at the menu keeps its open session, can log in after it, and \<open>join_all\<close>
  waits for its thread.\<close>

theorem shutdown_misses_unauthenticated:
  assumes "auth_inv p (shared s)"
  shows "\<exists>s2. disconnect_all_clients s = Some s2 \<and> auth_inv p (shared s2)
    \<and> heap (wstore (shared s2)) p = heap (wstore (shared s)) p
    \<and> (\<forall>q \<in> set (clients (bman (shared s))). call_is_active q (wstore (shared s2)) = Some False)"
proof -
  have wf: "world_wf (shared s)" and p: "p \<notin> set (clients (bman (shared s)))"
    using assms by (simp_all add: auth_inv_def)
  from disconnect_eff [OF wf] obtain s2 where d: "disconnect_all_clients s = Some s2"
    "world_wf (shared s2)" "clients (bman (shared s2)) = []" "rman (shared s2) = rman (shared s)"
    "\<forall>q \<in> set (clients (bman (shared s))). call_is_active q (wstore (shared s2)) = Some False"
    "\<forall>q. q \<notin> set (clients (bman (shared s))) \<longrightarrow> heap (wstore (shared s2)) q = heap (wstore (shared s)) q"
    by blast
  then show ?thesis using assms p by (auto simp: auth_inv_def)
qed

subsection \<open>The server at work\<close>

definition demo_conn :: "int \<Rightarrow> connection" where
  "demo_conn rc = \<lparr>conn_fd = 7, conn_ip = ''10.0.0.7'', conn_sock = open_socket [], conn_ptr = 4,
     conn_env = \<lparr>attr_ok = True, create_rc = rc, new_tid = 11\<rparr>, conn_err = ''EAGAIN''\<rparr>"

definition demo_server :: server where
  "demo_server = mk_server 8080 10 (demo_world []) \<lparr>created = [], joined = []\<rparr>"

lemma demo_server_parts [simp]:
  "shared demo_server = demo_world []" "pool demo_server = \<lparr>created = [], joined = []\<rparr>"
  "server_fd demo_server = fd_default"
  by (simp_all add: demo_server_def mk_server_def)

lemma demo_conn_parts [simp]:
  "conn_fd (demo_conn rc) = 7" "conn_ptr (demo_conn rc) = 4" "conn_ip (demo_conn rc) = ''10.0.0.7''"
  "conn_env (demo_conn rc) = \<lparr>attr_ok = True, create_rc = rc, new_tid = 11\<rparr>"
  by (simp_all add: demo_conn_def)

lemma demo_fresh: "fresh_conn (demo_conn rc) (demo_world [])"
proof -
  have "fd_of demo_store q \<noteq> Some 7" for q
  proof (cases "live demo_store q")
    case True
    then show ?thesis by (auto simp: fd_of_def)
  next
    case False
    then show ?thesis by (simp add: fd_of_def call_get_fd_def live_def)
  qed
  then show ?thesis by (simp add: fresh_conn_def demo_sessions)
qed

theorem startup_failure_closes_socket_witness:
  "closes (kernel_of (server_destroy (snd (start \<lparr>sock_ret = 3, opt_ok = True, bind_ok = False,
      listen_ok = True, errmsg = ''EADDRINUSE''\<rparr> [] demo_server)))) = closes (kernel_of demo_server) @ [3]"
proof -
  let ?env = "\<lparr>sock_ret = 3, opt_ok = True, bind_ok = False, listen_ok = True, errmsg = ''EADDRINUSE''\<rparr>"
  have f: "server_fd demo_server = fd_default" by simp
  have "\<exists>e. fst (start ?env [] demo_server) = Inl e"
    using startup_failure_closes_socket [OF f, of ?env "[]"]
    by (auto split: sum.splits)
  then show ?thesis
    using startup_failure_closes_socket [OF f, of ?env "[]"] by auto
qed

theorem every_worker_joined_witness:
  "\<exists>s1 s2. start \<lparr>sock_ret = 3, opt_ok = True, bind_ok = True, listen_ok = True, errmsg = []\<rparr>
      [Conn (demo_conn 0) True] (mk_server 8080 10 (demo_world []) \<lparr>created = [], joined = []\<rparr>) = (Inr True, s1)
    \<and> shutdown id s1 = Some s2 \<and> joined (pool s2) = created (pool s2) \<and> tids (thread_group s2) = []"
proof -
  let ?env = "\<lparr>sock_ret = 3, opt_ok = True, bind_ok = True, listen_ok = True, errmsg = []\<rparr>"
  obtain s3 where s3: "start ?env [Conn (demo_conn 0) True] demo_server
      = (Inr (fst (in_accept [Conn (demo_conn 0) True] s3)), snd (in_accept [Conn (demo_conn 0) True] s3))"
    "heap (wstore (shared s3)) = heap (wstore (demo_world []))" "bman (shared s3) = demo_bm"
    "rman (shared s3) = rman (demo_world [])"
    using start_enters_loop [of ?env "[Conn (demo_conn 0) True]" demo_server] by auto
  define s1 where "s1 = snd (in_accept [Conn (demo_conn 0) True] s3)"
  have r: "start ?env [Conn (demo_conn 0) True] demo_server = (Inr True, s1)"
    using s3(1) by (simp add: s1_def maybe_sigint_def sigint_handler_def Let_def)
  have wf: "world_wf w \<Longrightarrow> heap (wstore w') = (heap (wstore w))(4 \<mapsto> mk_session 7 ''10.0.0.7'') \<Longrightarrow>
      fresh_conn (demo_conn 0) w \<Longrightarrow> bman w' = bman w \<Longrightarrow> rman w' = rman w \<Longrightarrow> world_wf w'" for w w'
    using fresh_session_wf [of w "demo_conn 0" w'] by simp
  obtain h s4 where a: "accept_conn (demo_conn 0) s3 = (h, s4)" by force
  have s1: "heap (wstore (shared s1)) = (heap (wstore (demo_world [])))(4 \<mapsto> mk_session 7 ''10.0.0.7'')"
    "bman (shared s1) = bman (demo_world [])" "rman (shared s1) = rman (demo_world [])"
    using accept_conn_world [OF a] s3
    by (simp_all add: s1_def a maybe_sigint_def sigint_handler_def Let_def leave_accept_def)
  have "world_wf (shared s1)"
    by (rule wf [OF demo_world_wf [of "[]"]]) (use s1 demo_fresh in simp_all)
  then obtain s2 where s2: "shutdown id s1 = Some s2"
    using shutdown_defined by blast
  from every_worker_joined [OF r [unfolded demo_server_def] s2] r s2 show ?thesis
    by (auto simp: demo_server_def)
qed

theorem accept_starts_fresh_handler_witness:
  "\<exists>s'. accept_conn (demo_conn 0) demo_server = (Some (mk_handler 4), s') \<and> world_wf (shared s')
     \<and> auth_inv 4 (shared s')"
proof -
  obtain h s' where a: "accept_conn (demo_conn 0) demo_server = (h, s')" by force
  then have h: "h = Some (mk_handler 4)" using accept_conn_world [OF a] by simp
  from accept_starts_fresh_handler [OF _ _ a [unfolded h]] demo_world_wf demo_fresh a h show ?thesis
    by (simp add: mk_handler_def)
qed

theorem sigint_waits_for_accept_witness:
  "\<not> fst (in_accept [Signal, Signal] demo_server)"
  using sigint_waits_for_accept [of "[Signal, Signal]" demo_server] by simp

theorem spawn_failure_leaks_session_witness:
  "\<exists>s1 s2. accept_conn (demo_conn 11) demo_server = (None, s1) \<and> disconnect_all_clients s1 = Some s2
     \<and> heap (wstore (shared s2)) 4 = Some (mk_session 7 ''10.0.0.7'')"
  using spawn_failure_leaks_session [of demo_server "demo_conn 11"] demo_world_wf demo_fresh by auto

theorem shutdown_misses_unauthenticated_witness:
  "\<exists>s2. disconnect_all_clients demo_server = Some s2 \<and> auth_inv 3 (shared s2)
     \<and> call_is_active 1 (wstore (shared s2)) = Some False"
  using shutdown_misses_unauthenticated [of 3 demo_server] demo_auth by (auto simp: demo_bm_def)

end
