(* ===== verification/Server_System.thy ===== *)
theory Server_System
  imports Server
begin

text \<open>
  The server with all its worker threads: a step relation in which the main thread accepts
  connections and finally disconnects the clients, and every handler takes turns in any order.
  A turn is what a handler does from one line of input to the next (one pass of the menu, the
  entry to the chat, one line of the chat, the clean-up); the methods of the shared objects are
  atomic under their mutexes. \<open>Interleaved_Server\<close> has the server at the granularity of single
  calls, where the sends that follow a method's critical section are steps of their own.
\<close>

subsection \<open>States and steps\<close>

datatype phase = Menu nat | Entering | Talking | Leaving

record system =
  srv :: server
  procs :: "ptr \<rightharpoonup> phase \<times> handler"

abbreviation set_shared :: "world \<Rightarrow> server \<Rightarrow> server" where
  "set_shared w s \<equiv> s\<lparr>shared := w\<rparr>"

fun after_attempt :: "attempt \<Rightarrow> nat \<Rightarrow> phase" where
  "after_attempt Lost n = Leaving"
| "after_attempt Admitted n = Entering"
| "after_attempt Again n = Menu n"

text \<open>The turn of one thread: its next phase (none: it has returned) and the shared state.\<close>

definition turn_of :: "cipher \<Rightarrow> placement \<Rightarrow> phase \<times> handler \<Rightarrow> world
    \<Rightarrow> ((phase \<times> handler) option \<times> world) option" where
  "turn_of c place x w =
     (case x of
        (Menu 0, h) \<Rightarrow> do { (_, w) \<leftarrow> auth_attempts 0 c h w; Some (Some (Leaving, h), w) }
      | (Menu (Suc n), h) \<Rightarrow> do { (r, w) \<leftarrow> auth_once c h w; Some (Some (after_attempt r n, h), w) }
      | (Entering, h) \<Rightarrow> do { w \<leftarrow> enter_chat c place h w; Some (Some (Talking, h), w) }
      | (Talking, h) \<Rightarrow> do { (go, h, w) \<leftarrow> chat_turn c place h w;
                            Some (Some (if go then Talking else Leaving, h), w) }
      | (Leaving, h) \<Rightarrow> do { (_, w) \<leftarrow> cleanup_and_exit h w; Some (None, w) })"

inductive sys_step :: "cipher \<Rightarrow> placement \<Rightarrow> system \<Rightarrow> system \<Rightarrow> bool" for c place where
  accepted: "fresh_conn cn (shared (srv y)) \<Longrightarrow> accept_conn cn (srv y) = (Some h, s') \<Longrightarrow>
    sys_step c place y (y\<lparr>srv := s', procs := (procs y)(session_ptr h \<mapsto> (Menu MAX_AUTH_ATTEMPTS, h))\<rparr>)"
| not_started: "fresh_conn cn (shared (srv y)) \<Longrightarrow> accept_conn cn (srv y) = (None, s') \<Longrightarrow>
    sys_step c place y (y\<lparr>srv := s'\<rparr>)"
| thread_turn: "procs y p = Some x \<Longrightarrow> turn_of c place x (shared (srv y)) = Some (next, w') \<Longrightarrow>
    sys_step c place y (y\<lparr>srv := set_shared w' (srv y), procs := (procs y)(p := next)\<rparr>)"
| disconnected: "disconnect_all_clients (srv y) = Some s' \<Longrightarrow> sys_step c place y (y\<lparr>srv := s'\<rparr>)"

definition initial :: "system \<Rightarrow> bool" where
  "initial y \<longleftrightarrow> procs y = Map.empty \<and> heap (wstore (shared (srv y))) = Map.empty
     \<and> bman (shared (srv y)) = mk_broadcast_manager \<and> rman (shared (srv y)) = mk_room_manager"

inductive reachable :: "cipher \<Rightarrow> placement \<Rightarrow> system \<Rightarrow> bool" for c place where
  start: "initial y \<Longrightarrow> reachable c place y"
| step: "reachable c place y \<Longrightarrow> sys_step c place y y' \<Longrightarrow> reachable c place y'"

inductive_simps sys_step_iff: "sys_step c place y y'"

subsection \<open>The invariant\<close>

definition phase_inv :: "ptr \<Rightarrow> phase \<times> handler \<Rightarrow> world \<Rightarrow> bool" where
  "phase_inv p x w \<longleftrightarrow> session_ptr (snd x) = p \<and>
     (case fst x of
        Menu n \<Rightarrow> auth_inv p w \<and> current_room (snd x) \<noteq> []
      | Entering \<Rightarrow> (\<exists>u. named_inv p u w) \<and> current_room (snd x) \<noteq> []
      | Talking \<Rightarrow> (\<exists>u. chat_inv (snd x) u w)
      | Leaving \<Rightarrow> live (wstore w) p)"

text \<open>Who is registered or in a room has a running thread.\<close>

definition sys_inv :: "system \<Rightarrow> bool" where
  "sys_inv y \<longleftrightarrow> world_wf (shared (srv y))
     \<and> (\<forall>p x. procs y p = Some x \<longrightarrow> phase_inv p x (shared (srv y)))
     \<and> (\<forall>p \<in> set (clients (bman (shared (srv y)))). p \<in> dom (procs y))
     \<and> (\<forall>r p. in_room (rman (shared (srv y))) r p \<longrightarrow> p \<in> dom (procs y))"

text \<open>What one thread's turn gives for itself.\<close>

definition turn_result :: "ptr \<Rightarrow> world \<Rightarrow> (phase \<times> handler) option \<times> world \<Rightarrow> bool" where
  "turn_result p w res \<longleftrightarrow> world_wf (snd res) \<and>
     (case fst res of
        Some x \<Rightarrow> turn p w (snd res) \<and> phase_inv p x (snd res)
      | None \<Rightarrow> gone p w (snd res))"

lemma menu_turn_wp:
  assumes inv: "auth_inv (session_ptr h) w" "current_room h \<noteq> []"
  shows "wp (turn_of c place (Menu n, h) w) (turn_result (session_ptr h) w)"
proof (cases n)
  let ?p = "session_ptr h"
  case 0
  have "wp (auth_attempts 0 c h w) (\<lambda>r. turn_result ?p w (Some (Leaving, h), snd r))"
  proof (rule wp_mono [OF auth_attempts_wp [OF inv(1)]])
    fix r assume "auth_result c ?p w r"
    then show "turn_result ?p w (Some (Leaving, h), snd r)"
      using inv_live(1,2) [of ?p _ ] by (auto simp: turn_result_def phase_inv_def auth_result_def
          auth_inv_def logged_in_def split: if_splits)
  qed
  with 0 show ?thesis by (simp add: turn_of_def case_prod_unfold)
next
  let ?p = "session_ptr h"
  case (Suc m)
  have "wp (auth_once c h w) (\<lambda>r. turn_result ?p w (Some (after_attempt (fst r) m, h), snd r))"
  proof (rule wp_mono [OF auth_once_wp [OF inv(1)]])
    fix r assume "attempt_result c ?p w r"
    then show "turn_result ?p w (Some (after_attempt (fst r) m, h), snd r)"
      using inv(2) inv_live(1) [of ?p "snd r"] by (cases "fst r")
        (auto simp: turn_result_def phase_inv_def attempt_result_def auth_result_def
          auth_inv_def logged_in_def named_inv_def)
  qed
  with Suc show ?thesis by (simp add: turn_of_def case_prod_unfold)
qed

lemma turn_of_wp:
  assumes "place_ok place" "world_wf w" "phase_inv p x w"
  shows "wp (turn_of c place x w) (turn_result p w)"
proof -
  obtain ph h where x: "x = (ph, h)" by force
  from assms(3) have p: "session_ptr h = p" by (simp add: x phase_inv_def)
  show ?thesis
  proof (cases ph)
    case (Menu n)
    with assms(3) x p have "auth_inv (session_ptr h) w" "current_room h \<noteq> []"
      by (simp_all add: phase_inv_def)
    from menu_turn_wp [OF this] x p Menu show ?thesis by simp
  next
    case Entering
    with assms(3) x p obtain u where inv: "named_inv (session_ptr h) u w" "current_room h \<noteq> []"
      by (auto simp: phase_inv_def)
    have "wp (enter_chat c place h w) (\<lambda>w'. turn_result p w (Some (Talking, h), w'))"
      by (rule wp_mono [OF enter_chat_wp [OF assms(1) inv]])
         (use p in \<open>auto simp: turn_result_def phase_inv_def chat_inv_def\<close>)
    with x Entering show ?thesis by (simp add: turn_of_def)
  next
    case Talking
    with assms(3) x p obtain u where inv: "chat_inv h u w" by (auto simp: phase_inv_def)
    have "wp (chat_turn c place h w) (\<lambda>r. turn_result p w
        (Some (if fst r then Talking else Leaving, fst (snd r)), snd (snd r)))"
    proof (rule wp_mono [OF chat_turn_wp [OF assms(1) inv]])
      fix r assume "chat_post h u w r \<and> (fst r \<longrightarrow> pending_input (session_ptr h) (wstore (snd (snd r)))
          < pending_input (session_ptr h) (wstore w))"
      then have r: "chat_ok h u w (fst (snd r)) (snd (snd r))" by simp
      then have i: "chat_inv (fst (snd r)) u (snd (snd r))" and t: "turn p w (snd (snd r))"
        and e: "session_ptr (fst (snd r)) = p" using p by (simp_all add: chat_ok_def)
      from i have "world_wf (snd (snd r))" by (simp add: chat_inv_def)
      with i t e inv_live(3) [OF i] show "turn_result p w
        (Some (if fst r then Talking else Leaving, fst (snd r)), snd (snd r))"
        by (cases "fst r") (auto simp: turn_result_def phase_inv_def)
    qed
    with x Talking show ?thesis by (simp add: turn_of_def case_prod_unfold)
  next
    case Leaving
    with assms(3) x p have live: "live (wstore w) (session_ptr h)" by (simp add: phase_inv_def)
    have "wp (cleanup_and_exit h w) (\<lambda>r. turn_result p w (None, snd r))"
      by (rule wp_mono [OF cleanup_wp [OF assms(2) live]]) (use p in \<open>auto simp: turn_result_def\<close>)
    with x Leaving show ?thesis by (simp add: turn_of_def case_prod_unfold)
  qed
qed

text \<open>What others do leaves a thread's own invariant alone.\<close>

lemma same_id_name: "rel_option same_id (heap st p) (heap st' p) \<Longrightarrow>
    call_get_username p st' = call_get_username p st \<and> live st' p = live st p"
  by (cases "heap st p"; cases "heap st' p")
     (auto simp: call_get_username_def get_username_def live_def same_id_def)

lemma phase_inv_others:
  assumes "phase_inv p x w" "world_wf w'"
    and "rel_option same_id (heap (wstore w) p) (heap (wstore w') p)"
    and "p \<in> set (clients (bman w')) \<longleftrightarrow> p \<in> set (clients (bman w))"
    and "\<And>r. in_room (rman w') r p = in_room (rman w) r p"
  shows "phase_inv p x w'"
proof -
  have "auth_inv p w \<Longrightarrow> auth_inv p w'"
    using assms(2-5) unfolding auth_inv_def by (cases "heap (wstore w') p") (auto simp: same_id_def)
  then show ?thesis
    using assms same_id_name [OF assms(3)]
    by (auto simp: phase_inv_def named_inv_def chat_inv_def split: phase.splits)
qed

lemma thread_turn_inv:
  assumes inv: "sys_inv y" and x: "procs y p = Some x" and t: "turn_result p (shared (srv y)) (next, w')"
  shows "sys_inv (y\<lparr>srv := set_shared w' (srv y), procs := (procs y)(p := next)\<rparr>)"
proof -
  let ?w = "shared (srv y)"
  have wf: "world_wf w'" using t by (simp add: turn_result_def)
  have others: "rel_option same_id (heap (wstore ?w) q) (heap (wstore w') q)
      \<and> (q \<in> set (clients (bman w')) \<longleftrightarrow> q \<in> set (clients (bman ?w)))
      \<and> (\<forall>r. in_room (rman w') r q = in_room (rman ?w) r q)" if "q \<noteq> p" for q
    using t that by (cases "next") (auto simp: turn_result_def turn_def gone_def option.rel_refl)
  have "phase_inv q z w'" if "procs y q = Some z" "q \<noteq> p" for q z
  proof -
    from inv that(1) have "phase_inv q z ?w" by (simp only: sys_inv_def)
    with others [OF that(2)] show ?thesis by (intro phase_inv_others [OF _ wf]) simp_all
  qed
  moreover have "phase_inv p z w'" if "next = Some z" for z
    using t that by (simp add: turn_result_def)
  moreover have "next = None \<Longrightarrow> p \<notin> set (clients (bman w')) \<and> (\<forall>r. \<not> in_room (rman w') r p)"
    using t by (simp add: turn_result_def gone_def)
  ultimately show ?thesis
    using inv wf others unfolding sys_inv_def
    by (intro conjI allI ballI impI) (simp_all split: if_splits, (metis domI domIff not_None_eq)+)
qed

lemma phase_inv_live: "phase_inv p x w \<Longrightarrow> live (wstore w) p"
  using inv_live(1) [of p w]
  by (auto simp: phase_inv_def named_inv_def chat_inv_def live_def call_get_username_def split: phase.splits)

lemma new_session_inv:
  assumes inv: "sys_inv y" and fresh: "fresh_conn cn (shared (srv y))"
    and a: "accept_conn cn (srv y) = (h, s')"
  shows "sys_inv (y\<lparr>srv := s'\<rparr>) \<and> auth_inv (conn_ptr cn) (shared s') \<and> procs y (conn_ptr cn) = None"
proof -
  let ?w = "shared (srv y)" and ?p = "conn_ptr cn"
  note eff = accept_conn_world [OF a]
  have wf: "world_wf (shared s')" "auth_inv ?p (shared s')"
    using fresh_session_wf [OF _ fresh, of "shared s'"] eff inv by (auto simp: sys_inv_def)
  have none: "procs y ?p = None"
  proof (rule ccontr)
    assume "procs y ?p \<noteq> None"
    then obtain x where "procs y ?p = Some x" by blast
    then have "live (wstore ?w) ?p" using inv phase_inv_live unfolding sys_inv_def by blast
    with fresh show False by (simp add: fresh_conn_def live_def)
  qed
  have "phase_inv q x (shared s')" if q: "procs y q = Some x" for q x
  proof -
    from q none have "q \<noteq> ?p" by auto
    moreover from inv q have "phase_inv q x ?w" by (simp only: sys_inv_def)
    ultimately show ?thesis
      by (intro phase_inv_others [OF _ wf(1)]) (simp_all add: eff option.rel_refl)
  qed
  with inv wf none eff show ?thesis by (simp add: sys_inv_def)
qed

lemma disconnect_inv:
  assumes inv: "sys_inv y" and d: "disconnect_all_clients (srv y) = Some s'"
  shows "sys_inv (y\<lparr>srv := s'\<rparr>)"
proof -
  let ?w = "shared (srv y)"
  have wf: "world_wf ?w" using inv by (simp add: sys_inv_def)
  from disconnect_eff [OF wf] d have e: "world_wf (shared s')" "clients (bman (shared s')) = []"
    "rman (shared s') = rman ?w"
    "\<And>q. q \<notin> set (clients (bman ?w)) \<Longrightarrow> heap (wstore (shared s')) q = heap (wstore ?w) q"
    "\<And>q. call_get_username q (wstore (shared s')) = call_get_username q (wstore ?w)" by auto
  have live: "live (wstore (shared s')) q = live (wstore ?w) q" for q
    using e(5) [of q] by (cases "heap (wstore (shared s')) q"; cases "heap (wstore ?w) q")
      (auto simp: live_def call_get_username_def)
  have "phase_inv q x (shared s')" if q: "procs y q = Some x" for q x
  proof -
    have "phase_inv q x ?w" using inv q by (simp only: sys_inv_def)
    moreover have "auth_inv q ?w \<Longrightarrow> auth_inv q (shared s')"
      using e by (auto simp: auth_inv_def)
    ultimately show ?thesis
      using e live by (auto simp: phase_inv_def named_inv_def chat_inv_def split: phase.splits)
  qed
  with inv e show ?thesis by (simp add: sys_inv_def)
qed

lemma sys_step_inv:
  assumes "place_ok place" and inv: "sys_inv y" and "sys_step c place y y'"
  shows "sys_inv y'"
proof -
  from assms(3) show ?thesis
  proof (cases rule: sys_step.cases)
    case (accepted cn h s')
    note n = new_session_inv [OF inv accepted(2,3)]
    have h: "h = mk_handler (conn_ptr cn)" using accept_conn_world [OF accepted(3)] by (simp split: if_splits)
    have "phase_inv (conn_ptr cn) (Menu MAX_AUTH_ATTEMPTS, h) (shared s')"
      using n h by (simp add: phase_inv_def mk_handler_def)
    with n h accepted(1) show ?thesis
      by (simp add: sys_inv_def mk_handler_def)
  next
    case (not_started cn s')
    with new_session_inv [OF inv not_started(2,3)] show ?thesis by simp
  next
    case (thread_turn p x "next" w')
    have "phase_inv p x (shared (srv y))" "world_wf (shared (srv y))"
      using inv thread_turn(2) by (simp_all only: sys_inv_def)
    from wp_res [OF turn_of_wp [OF assms(1) this(2,1)] thread_turn(3)] thread_turn_inv [OF inv thread_turn(2)]
    show ?thesis using thread_turn(1) by blast
  next
    case (disconnected s')
    with disconnect_inv [OF inv] show ?thesis by blast
  qed
qed

lemma initial_inv: "initial y \<Longrightarrow> sys_inv y"
  by (simp add: initial_def sys_inv_def world_wf_def store_wf_def fds_distinct_def call_is_active_def
      mk_broadcast_manager_def in_room_def bm_wf_def)

lemma reachable_inv:
  assumes "place_ok place"
  shows "reachable c place y \<Longrightarrow> sys_inv y"
  by (induction rule: reachable.induct) (auto intro: initial_inv sys_step_inv [OF assms])

subsection \<open>Safety of the whole server\<close>

text \<open>In every reachable state of the server, with any number of clients and any interleaving of
  their handlers, accepts and disconnects: the shared state is well-formed, every registered
  session and every member of a room has a running handler, a client in the chat is in exactly its
  handler's current room, each handler's turn is defined (it follows no dead pointer), and so is a
  disconnection of all clients.\<close>

theorem server_never_follows_dead_pointer:
  assumes "place_ok place" and "reachable c place y"
  shows "world_wf (shared (srv y))
    \<and> (\<forall>p \<in> set (clients (bman (shared (srv y)))). p \<in> dom (procs y))
    \<and> (\<forall>n p. by_name (bman (shared (srv y))) n = Some p \<longrightarrow> p \<in> dom (procs y))
    \<and> (\<forall>r p. in_room (rman (shared (srv y))) r p \<longrightarrow> p \<in> dom (procs y))
    \<and> (\<forall>p h r. procs y p = Some (Talking, h) \<longrightarrow>
          (in_room (rman (shared (srv y))) r p \<longleftrightarrow> r = current_room h \<and> r \<noteq> []))
    \<and> (\<forall>p x. procs y p = Some x \<longrightarrow> turn_of c place x (shared (srv y)) \<noteq> None)
    \<and> disconnect_all_clients (srv y) \<noteq> None"
proof -
  note inv = reachable_inv [OF assms]
  then have wf: "world_wf (shared (srv y))" by (simp add: sys_inv_def)
  have "turn_of c place x (shared (srv y)) \<noteq> None" if "procs y p = Some x" for p x
  proof -
    have "phase_inv p x (shared (srv y))" using inv that by (simp only: sys_inv_def)
    from wp_Some [OF turn_of_wp [OF assms(1) wf this, of c]] show ?thesis by blast
  qed
  moreover have "in_room (rman (shared (srv y))) r p \<longleftrightarrow> r = current_room h \<and> r \<noteq> []"
    if "procs y p = Some (Talking, h)" for p h r
  proof -
    have "phase_inv p (Talking, h) (shared (srv y))" using inv that by (simp only: sys_inv_def)
    then obtain u where "chat_inv h u (shared (srv y))" "session_ptr h = p" by (auto simp: phase_inv_def)
    then show ?thesis by (auto simp: chat_inv_def)
  qed
  moreover have "p \<in> set (clients (bman (shared (srv y))))"
    if "by_name (bman (shared (srv y))) n = Some p" for n p
    using wf that by (auto simp: world_wf_def bm_wf_def)
  ultimately show ?thesis
    using inv disconnect_eff [OF wf] wf unfolding sys_inv_def by blast
qed

subsection \<open>A run\<close>

text \<open>An empty server, and the same after a connection.\<close>

definition empty_world :: world where
  "empty_world = \<lparr>wstore = \<lparr>kern = \<lparr>socks = Map.empty, closes = []\<rparr>, heap = Map.empty\<rparr>,
     bman = mk_broadcast_manager, rman = mk_room_manager, registry = demo_registry, wfs = demo_fs,
     ios = [], logs = []\<rparr>"

definition empty_system :: system where
  "empty_system = \<lparr>srv = mk_server 8080 10 empty_world \<lparr>created = [], joined = []\<rparr>, procs = Map.empty\<rparr>"

definition one_client :: system where
  "one_client = empty_system\<lparr>srv := snd (accept_conn (demo_conn 0) (srv empty_system)),
     procs := [4 \<mapsto> (Menu MAX_AUTH_ATTEMPTS, mk_handler 4)]\<rparr>"

lemma empty_parts: "shared (srv empty_system) = empty_world" "procs empty_system = Map.empty"
  by (simp_all add: empty_system_def mk_server_def)

lemma reach_empty: "reachable c place empty_system"
  by (rule reachable.start) (simp add: initial_def empty_parts empty_world_def)

lemma reach_one: "reachable c place one_client"
proof -
  obtain h s' where a: "accept_conn (demo_conn 0) (srv empty_system) = (h, s')" by force
  then have h: "h = Some (mk_handler 4)" using accept_conn_world [OF a] by simp
  have "fresh_conn (demo_conn 0) (shared (srv empty_system))"
    by (simp add: fresh_conn_def empty_parts empty_world_def fd_of_def call_get_fd_def)
  from reachable.step [OF reach_empty sys_step.accepted [OF this a [unfolded h]]] a
  show ?thesis by (simp add: one_client_def empty_parts mk_handler_def)
qed

theorem server_never_follows_dead_pointer_witness:
  "turn_of default_cipher append_place (Menu MAX_AUTH_ATTEMPTS, mk_handler 4) (shared (srv one_client)) \<noteq> None"
proof -
  have "procs one_client 4 = Some (Menu MAX_AUTH_ATTEMPTS, mk_handler 4)" by (simp add: one_client_def)
  with server_never_follows_dead_pointer [OF place_ok_append reach_one, of default_cipher]
  show ?thesis by blast
qed

end
