(* ===== verification/Client.thy ===== *)
theory Client
  imports Handler_Protocol Thread_Handler
begin

text \<open>
  \<open>include/mpcc/client/client.h\<close> and \<open>src/client/client.cpp\<close>: the terminal client. The user is
  a list of lines on standard input (its end is end-of-file); what the program prints is
  collected. The receive thread is the function \<open>recv_loop\<close>; the main thread starts and joins it.
\<close>

subsection \<open>The class and its surroundings\<close>

record client =
  host :: string
  cport :: int
  sock_fd :: unique_fd
  crunning :: bool
  recv_thread :: joinable_thread

record terminal =
  tkern :: kernel
  tthreads :: threads
  stdin :: "string list"
  stdout :: string
  tlogs :: "log_call list"
  dialled :: "(string \<times> 16 word) option"

text \<open>\<open>dialled\<close> is the address and port that \<open>connect\<close> was called with.\<close>

definition mk_client :: "string \<Rightarrow> int \<Rightarrow> client" where
  "mk_client h p = \<lparr>host = h, cport = p, sock_fd = fd_default, crunning = False, recv_thread = mk_thread\<rparr>"

definition print :: "string \<Rightarrow> terminal \<Rightarrow> terminal" where
  "print s t = t\<lparr>stdout := stdout t @ s\<rparr>"

definition t_log :: "log_level \<Rightarrow> string \<Rightarrow> terminal \<Rightarrow> terminal" where
  "t_log l s t = t\<lparr>tlogs := tlogs t @ [(l, s)]\<rparr>"

text \<open>\<open>std::getline(std::cin, ...)\<close>: none at the end of the input.\<close>

definition read_stdin :: "terminal \<Rightarrow> string option \<times> terminal" where
  "read_stdin t = (case stdin t of [] \<Rightarrow> (None, t) | l # ls \<Rightarrow> (Some l, t\<lparr>stdin := ls\<rparr>))"

subsection \<open>Socket helpers\<close>

text \<open>The loop of \<open>send_encrypted\<close>: unlike \<open>Session::send_msg\<close> it tries again after \<open>EINTR\<close>.\<close>

function csend_from :: "int \<Rightarrow> string \<Rightarrow> nat \<Rightarrow> kernel \<Rightarrow> bool \<times> kernel" where
  "csend_from f wire tot k =
     (if tot < length wire
      then (case sys_send f (drop tot wire) k of
              (Sent (Suc n), k') \<Rightarrow> csend_from f wire (tot + Suc n) k'
            | (Send_intr, k') \<Rightarrow> csend_from f wire tot k'
            | (_, k') \<Rightarrow> (False, k'))
      else (True, k))"
  by pat_completeness auto
termination
proof (relation "measures [\<lambda>(f, wire, tot, k). length wire - tot, \<lambda>(f, wire, tot, k). pending_sends f k]",
    goal_cases)
  case 3
  then show ?case by (auto dest: sys_send_pending(1) [OF sym])
qed auto

declare csend_from.simps [simp del]

definition c_send_encrypted :: "cipher \<Rightarrow> client \<Rightarrow> string \<Rightarrow> terminal \<Rightarrow> bool \<times> terminal" where
  "c_send_encrypted c cl plain t =
     (let wire = encrypt c plain;
          (ok, k) = csend_from (fd (sock_fd cl)) wire 0 (tkern t)
      in (ok, t\<lparr>tkern := k\<rparr>))"

function crecv_bytes :: "cipher \<Rightarrow> int \<Rightarrow> string \<Rightarrow> kernel \<Rightarrow> string \<times> kernel" where
  "crecv_bytes c f buf k =
     (case sys_recv f k of
        (Recv_closed, k') \<Rightarrow> ([], k')
      | (Recv_err, k') \<Rightarrow> ([], k')
      | (Recv_intr, k') \<Rightarrow> crecv_bytes c f buf k'
      | (Got ch, k') \<Rightarrow>
          (let plain_c = hd (decrypt c [ch]) in
           if plain_c = nl then (buf, k') else crecv_bytes c f (buf @ [plain_c]) k'))"
  by pat_completeness auto
termination
  by (relation "measure (\<lambda>(c, f, buf, k). pending_rx f k)") (auto dest: sys_recv_pending [OF sym])

declare crecv_bytes.simps [simp del]

definition c_recv_line :: "cipher \<Rightarrow> client \<Rightarrow> terminal \<Rightarrow> string \<times> terminal" where
  "c_recv_line c cl t =
     (let (line, k) = crecv_bytes c (fd (sock_fd cl)) [] (tkern t) in (line, t\<lparr>tkern := k\<rparr>))"

subsection \<open>Connecting\<close>

text \<open>What \<open>socket\<close>, \<open>inet_pton\<close> and \<open>connect\<close> return, and the connection's socket.\<close>

record connect_env =
  csock_ret :: int
  addr_ok :: bool
  connect_ok :: bool
  cerr :: string
  peer :: socket

definition connect_to_server ::
    "connect_env \<Rightarrow> client \<Rightarrow> terminal \<Rightarrow> string option \<times> client \<times> terminal" where
  "connect_to_server env cl t =
     (let k0 = tkern t;
          f = csock_ret env;
          k1 = (if 0 \<le> f then k0\<lparr>socks := (socks k0)(f \<mapsto> peer env)\<rparr> else k0);
          (u, k) = fd_reset f (sock_fd cl) k1;
          cl = cl\<lparr>sock_fd := u\<rparr>; t = t\<lparr>tkern := k\<rparr>
      in if \<not> fd_valid (sock_fd cl)
         then (Some ''socket() failed'', cl, t_log FATAL (''socket() failed: '' @ cerr env) t)
         else if \<not> addr_ok env
         then (Some ''Invalid server address'', cl, t_log FATAL (''Invalid address: '' @ host cl) t)
         else let t = t\<lparr>dialled := Some (host cl, word_of_int (cport cl))\<rparr> in
           if \<not> connect_ok env
           then (Some ''connect() failed'', cl, t_log FATAL (''connect() failed: '' @ cerr env) t)
           else (None, cl, print (''[MPCC] Connected to server '' @ host cl @ '':'' @ to_string (cport cl) @ [nl])
                (t_log INFO (''Connected to '' @ host cl @ '':'' @ to_string (cport cl)) t)))"

subsection \<open>Authentication\<close>

definition do_register :: "cipher \<Rightarrow> client \<Rightarrow> terminal \<Rightarrow> bool \<times> terminal" where
  "do_register c cl t =
     (let (prompt, t) = c_recv_line c cl t;
          t = print prompt t
      in case read_stdin t of
           (None, t) \<Rightarrow> (False, t)
         | (Some user, t) \<Rightarrow>
             let (_, t) = c_send_encrypted c cl (user @ [nl]) t;
                 (prompt, t) = c_recv_line c cl t;
                 t = print prompt t
             in case read_stdin t of
                  (None, t) \<Rightarrow> (False, t)
                | (Some pass, t) \<Rightarrow>
                    let (_, t) = c_send_encrypted c cl (pass @ [nl]) t;
                        (response, t) = c_recv_line c cl t;
                        t = print (''[SERVER] '' @ response @ [nl]) t;
                        m = parse response
                    in (msg_type m = proto_OK, t))"

definition do_login :: "cipher \<Rightarrow> client \<Rightarrow> terminal \<Rightarrow> bool \<times> terminal" where
  "do_login c cl t =
     (let (prompt, t) = c_recv_line c cl t;
          t = print prompt t
      in case read_stdin t of
           (None, t) \<Rightarrow> (False, t)
         | (Some user, t) \<Rightarrow>
             let (_, t) = c_send_encrypted c cl (user @ [nl]) t;
                 (prompt, t) = c_recv_line c cl t;
                 t = print prompt t
             in case read_stdin t of
                  (None, t) \<Rightarrow> (False, t)
                | (Some pass, t) \<Rightarrow>
                    let (_, t) = c_send_encrypted c cl (pass @ [nl]) t;
                        (response, t) = c_recv_line c cl t;
                        t = print (''[SERVER] '' @ response @ [nl]) t;
                        m = parse response
                    in (msg_type m = proto_OK, t))"

text \<open>One pass of the loop: an exception, the \<open>break\<close> at the end of the input, or the new value of
  \<open>authenticated\<close>.\<close>

datatype auth_pass = Throw string | Break | Auth bool

definition auth_once_client :: "cipher \<Rightarrow> client \<Rightarrow> terminal \<Rightarrow> auth_pass \<times> terminal" where
  "auth_once_client c cl t =
     (let (menu, t) = c_recv_line c cl t in
      if menu = [] then (Throw ''Server disconnected during menu.'', t)
      else
        let menu_msg = parse menu;
            t = (if msg_type menu_msg = proto_MENU
                 then print (''=== MPCC - Multi Party Conference Chat ==='' @ [nl] @ payload menu_msg @ [nl]) t
                 else print (menu @ [nl]) t);
            t = print ''Your choice: '' t
        in case read_stdin t of
             (None, t) \<Rightarrow> (Break, t)
           | (Some choice, t) \<Rightarrow>
               let (_, t) = c_send_encrypted c cl (serialise \<lparr>msg_type = proto_CHOICE, payload = choice\<rparr>) t
               in if choice = ''1'' then let (a, t) = do_register c cl t in (Auth a, t)
                  else if choice = ''2'' then let (a, t) = do_login c cl t in (Auth a, t)
                  else (Auth False, print (''[ERROR] Invalid choice.'' @ [nl]) t))"

definition rx_left :: "client \<Rightarrow> terminal \<Rightarrow> nat" where
  "rx_left cl t = pending_rx (fd (sock_fd cl)) (tkern t)"

lemma csend_rx: "csend_from f w n k = (r, k') \<Longrightarrow> pending_rx g k' = pending_rx g k"
proof (induction f w n k rule: csend_from.induct)
  case (1 f wire tot k)
  obtain x k1 where s: "sys_send f (drop tot wire) k = (x, k1)" by force
  with 1 sys_send_rx [OF s] show ?case
    by (subst (asm) (3) csend_from.simps) (auto split: if_splits send_res.splits nat.splits)
qed

lemma crecv_rx:
  "crecv_bytes c f buf k = (line, k') \<Longrightarrow> nl \<notin> set buf \<Longrightarrow>
   pending_rx f k' \<le> pending_rx f k \<and> (line \<noteq> [] \<longrightarrow> pending_rx f k' < pending_rx f k) \<and> nl \<notin> set line"
proof (induction c f buf k rule: crecv_bytes.induct)
  case (1 c f buf k)
  obtain x k1 where s: "sys_recv f k = (x, k1)" by force
  have le: "pending_rx f k1 \<le> pending_rx f k" using sys_recv_le [of f f k] s by simp
  show ?case
  proof (cases x)
    case (Got ch)
    have lt: "pending_rx f k1 < pending_rx f k" using sys_recv_pending [OF s] Got by blast
    show ?thesis
    proof (cases "hd (decrypt c [ch]) = nl")
      case True
      with s Got 1 lt show ?thesis by (simp add: crecv_bytes.simps [of c f buf k])
    next
      case False
      with s Got 1 have "crecv_bytes c f (buf @ [hd (decrypt c [ch])]) k1 = (line, k')"
        by (simp add: crecv_bytes.simps [of c f buf k])
      from "1.IH"(1) [OF s [symmetric] Got refl False this] False "1.prems"(2) lt show ?thesis by auto
    qed
  next
    case Recv_intr
    with s 1 have "crecv_bytes c f buf k1 = (line, k')" by (simp add: crecv_bytes.simps [of c f buf k])
    from "1.IH"(2) [OF s [symmetric] Recv_intr this "1.prems"(2)] le show ?thesis by auto
  qed (use s 1 le in \<open>simp_all add: crecv_bytes.simps [of c f buf k]\<close>)
qed

lemma rx_left_simps [simp]:
  "rx_left cl (print s t) = rx_left cl t" "rx_left cl (snd (read_stdin t)) = rx_left cl t"
  "rx_left cl (snd (c_send_encrypted c cl' m t)) = rx_left cl t"
  using csend_rx [of "fd (sock_fd cl')" "encrypt c m" 0 "tkern t"]
  by (auto simp: rx_left_def print_def read_stdin_def c_send_encrypted_def Let_def
      split: list.splits prod.splits)

lemma c_recv_left:
  "rx_left cl (snd (c_recv_line c cl t)) \<le> rx_left cl t"
  "fst (c_recv_line c cl t) \<noteq> [] \<Longrightarrow> rx_left cl (snd (c_recv_line c cl t)) < rx_left cl t"
  using crecv_rx [of c "fd (sock_fd cl)" "[]" "tkern t"]
  by (auto simp: rx_left_def c_recv_line_def split: prod.splits)

lemma read_stdin_left:
  "read_stdin t = (x, t') \<Longrightarrow> rx_left cl t' = rx_left cl t \<and> stdin t' = tl (stdin t)
     \<and> tkern t' = tkern t \<and> stdout t' = stdout t \<and> tthreads t' = tthreads t \<and> tlogs t' = tlogs t
     \<and> (x = None \<longleftrightarrow> stdin t = [])"
  by (auto simp: read_stdin_def rx_left_def split: list.splits)

lemma c_recv_line_le: "c_recv_line c cl t = (l, t') \<Longrightarrow> rx_left cl t' \<le> rx_left cl t"
  using c_recv_left(1) [of cl c t] by simp

lemma c_send_left: "c_send_encrypted c cl' m t = (b, t') \<Longrightarrow> rx_left cl t' = rx_left cl t"
  using rx_left_simps(3) [of cl c cl' m t] by simp

lemma do_register_left: "do_register c cl t = (a, t') \<Longrightarrow> rx_left cl t' \<le> rx_left cl t"
  by (auto simp: do_register_def Let_def split: prod.splits option.splits
      dest!: c_recv_line_le [of c cl] c_send_left [where cl = cl] read_stdin_left [where cl = cl])

lemma do_login_left: "do_login c cl t = (a, t') \<Longrightarrow> rx_left cl t' \<le> rx_left cl t"
  by (auto simp: do_login_def Let_def split: prod.splits option.splits
      dest!: c_recv_line_le [of c cl] c_send_left [where cl = cl] read_stdin_left [where cl = cl])

text \<open>A pass that goes on has taken the menu from the connection.\<close>

lemma auth_once_client_left:
  assumes "auth_once_client c cl t = (Auth a, t')"
  shows "rx_left cl t' < rx_left cl t"
proof -
  obtain menu t1 where m: "c_recv_line c cl t = (menu, t1)" by force
  with assms have ne: "menu \<noteq> []" by (auto simp: auth_once_client_def)
  have "rx_left cl t1 < rx_left cl t" using c_recv_left(2) [of c cl t] m ne by simp
  moreover have "rx_left cl t' \<le> rx_left cl t1"
    using assms m ne by (auto simp: auth_once_client_def Let_def split: prod.splits option.splits if_splits
      dest!: c_send_left [where cl = cl] read_stdin_left [where cl = cl] do_register_left do_login_left)
  ultimately show ?thesis by linarith
qed

text \<open>The loop: an exception (left), or the value of \<open>authenticated\<close> when it was left.\<close>

function auth_loop :: "cipher \<Rightarrow> client \<Rightarrow> terminal \<Rightarrow> (string + bool) \<times> terminal" where
  "auth_loop c cl t =
     (case auth_once_client c cl t of
        (Throw e, t) \<Rightarrow> (Inl e, t)
      | (Break, t) \<Rightarrow> (Inr False, t)
      | (Auth True, t) \<Rightarrow> (Inr True, t)
      | (Auth False, t) \<Rightarrow> auth_loop c cl t)"
  by pat_completeness auto
termination
  by (relation "measure (\<lambda>(c, cl, t). rx_left cl t)") (auto dest: auth_once_client_left [OF sym])

declare auth_loop.simps [simp del]

subsection \<open>Chat\<close>

text \<open>
  Two threads share the client object and the terminal. The main thread reads lines of the user
  (\<open>Reading\<close>), then waits in \<open>recv_thread_.join()\<close> (\<open>Joining\<close>); the receive thread tests
  \<open>running_\<close> (\<open>Checking\<close>), or is past the test and in \<open>recv_line\<close> (\<open>Receiving\<close>).
\<close>

datatype main_phase = Reading | Joining | Ended

datatype recv_phase = Not_running | Checking | Receiving | Returned

record chat =
  me :: client
  console :: terminal
  mainp :: main_phase
  recvp :: recv_phase

definition help_text :: string where
  "help_text = [nl] @ ''[COMMANDS]'' @ [nl]
     @ ''  /join <room>        - join or create a room'' @ [nl]
     @ ''  /leave              - leave the current room'' @ [nl]
     @ ''  /pm <user> <msg>    - send private message'' @ [nl]
     @ ''  exit | quit         - disconnect'' @ [nl] @ [nl] @ ''You: ''"

text \<open>\<open>send_loop\<close> up to its loop.\<close>

definition send_loop_begin :: "cipher \<Rightarrow> spawn_env \<Rightarrow> client \<Rightarrow> terminal \<Rightarrow> chat" where
  "send_loop_begin c env cl t =
     (let cl = cl\<lparr>crunning := True\<rparr>;
          (banner, t) = c_recv_line c cl t;
          t = (if banner \<noteq> [] then print (''[SERVER] '' @ banner @ [nl]) t else t);
          (rc, jt, ts) = jt_start env (recv_thread cl) (tthreads t);
          cl = cl\<lparr>recv_thread := jt\<rparr>; t = t\<lparr>tthreads := ts\<rparr>
      in if rc \<noteq> 0
         then \<lparr>me = cl, console = t_log FATAL ''pthread_create for recv thread failed.'' t,
               mainp = Ended, recvp = Not_running\<rparr>
         else \<lparr>me = cl, console = print ''You: '' t, mainp = Reading, recvp = Checking\<rparr>)"

text \<open>One line of the user; the result says whether the loop goes on.\<close>

definition send_line :: "cipher \<Rightarrow> client \<Rightarrow> string \<Rightarrow> terminal \<Rightarrow> bool \<times> terminal" where
  "send_line c cl line t =
     (if line = ''/help'' then (True, print help_text t)
      else if line = ''exit'' \<or> line = ''quit''
      then let (_, t) = c_send_encrypted c cl (serialise make_exit) t in (False, t)
      else let (_, t) = c_send_encrypted c cl (serialise (make_msg line)) t in (True, print ''You: '' t))"

text \<open>After the loop: \<open>running_\<close> is cleared and the socket shut down.\<close>

definition stop_sending :: "chat \<Rightarrow> chat" where
  "stop_sending y = y\<lparr>me := (me y)\<lparr>crunning := False\<rparr>,
     console := (console y)\<lparr>tkern := fd_shutdown_rdwr (sock_fd (me y)) (tkern (console y))\<rparr>,
     mainp := Joining\<rparr>"

definition main_turn :: "cipher \<Rightarrow> chat \<Rightarrow> chat" where
  "main_turn c y =
     (case read_stdin (console y) of
        (None, t) \<Rightarrow> stop_sending (y\<lparr>console := t\<rparr>)
      | (Some line, t) \<Rightarrow>
          let (go, t) = send_line c (me y) line t
          in if go then y\<lparr>console := t\<rparr> else stop_sending (y\<lparr>console := t\<rparr>))"

definition join_and_leave :: "chat \<Rightarrow> chat" where
  "join_and_leave y =
     (let (jt, ts) = jt_join (recv_thread (me y)) (tthreads (console y))
      in y\<lparr>me := (me y)\<lparr>recv_thread := jt\<rparr>,
           console := print ([nl] @ ''[MPCC] Session ended. Goodbye!'' @ [nl]) ((console y)\<lparr>tthreads := ts\<rparr>),
           mainp := Ended\<rparr>)"

text \<open>What \<open>recv_loop\<close> prints for a line.\<close>

definition show_line :: "string \<Rightarrow> terminal \<Rightarrow> terminal" where
  "show_line line t =
     (let m = parse line in
      if msg_type m = proto_BCAST then print ([cr] @ payload m @ [nl] @ ''You: '') t
      else if msg_type m = proto_OK \<or> msg_type m = proto_ERR
      then print ([cr] @ ''[SERVER] '' @ payload m @ [nl] @ ''You: '') t
      else t)"

definition recv_turn :: "cipher \<Rightarrow> chat \<Rightarrow> chat" where
  "recv_turn c y =
     (case recvp y of
        Checking \<Rightarrow> y\<lparr>recvp := (if crunning (me y) then Receiving else Returned)\<rparr>
      | Receiving \<Rightarrow>
          let (line, t) = c_recv_line c (me y) (console y)
          in if line = [] then y\<lparr>console := t, recvp := Returned\<rparr>
             else y\<lparr>console := show_line line t, recvp := Checking\<rparr>
      | _ \<Rightarrow> y)"

text \<open>The two threads take turns in any order; \<open>join\<close> waits for the other one to return.\<close>

inductive chat_step :: "cipher \<Rightarrow> chat \<Rightarrow> chat \<Rightarrow> bool" for c where
  main: "mainp y = Reading \<Longrightarrow> chat_step c y (main_turn c y)"
| recv: "recvp y = Checking \<or> recvp y = Receiving \<Longrightarrow> chat_step c y (recv_turn c y)"
| join: "mainp y = Joining \<Longrightarrow> recvp y = Returned \<Longrightarrow> chat_step c y (join_and_leave y)"

code_pred chat_step .

inductive_cases chat_stepE: "chat_step c y y'"

subsection \<open>The whole client\<close>

text \<open>\<open>run\<close>: an exception, or the start of the chat.\<close>

definition client_run ::
    "cipher \<Rightarrow> connect_env \<Rightarrow> spawn_env \<Rightarrow> client \<Rightarrow> terminal \<Rightarrow> string option \<times> chat" where
  "client_run c env sp cl t =
     (case connect_to_server env cl t of
        (Some e, cl, t) \<Rightarrow> (Some e, \<lparr>me = cl, console = t, mainp = Ended, recvp = Not_running\<rparr>)
      | (None, cl, t) \<Rightarrow>
          (case auth_loop c cl t of
             (Inl e, t) \<Rightarrow> (Some e, \<lparr>me = cl, console = t, mainp = Ended, recvp = Not_running\<rparr>)
           | (Inr _, t) \<Rightarrow> (None, send_loop_begin c sp cl t)))"

text \<open>The destructor, then those of the members: \<open>recv_thread_\<close> is the last member, so the first to
  be destroyed.\<close>

definition client_destroy :: "client \<Rightarrow> terminal \<Rightarrow> terminal" where
  "client_destroy cl t =
     (let cl = cl\<lparr>crunning := False\<rparr>;
          (u, k) = (if fd_valid (sock_fd cl)
                    then fd_reset (-1) (sock_fd cl) (fd_shutdown_rdwr (sock_fd cl) (tkern t))
                    else (sock_fd cl, tkern t));
          ts = jt_destroy (recv_thread cl) (tthreads t)
      in t\<lparr>tkern := fd_destroy u k, tthreads := ts\<rparr>)"

end
