(* ===== verification/Client_Protocol.thy ===== *)
theory Client_Protocol
  imports Client
begin

text \<open>
  What the client does on its connection and on the terminal, and how it agrees with the server's
  handler: the two programs are run against each other's output.
\<close>

subsection \<open>Receiving\<close>

lemma recv_agree:
  "call_get_fd p st = Some f \<Longrightarrow> kern st = k \<Longrightarrow>
   recv_bytes c p buf st = Some (fst (crecv_bytes c f buf k), st\<lparr>kern := snd (crecv_bytes c f buf k)\<rparr>)"
proof (induction c f buf k arbitrary: st rule: crecv_bytes.induct)
  case (1 c f buf k)
  obtain r k1 where s: "sys_recv f k = (r, k1)" by force
  have g: "call_get_fd p (st\<lparr>kern := k1\<rparr>) = Some f"
    using "1.prems"(1) by (simp add: call_get_fd_def split: option.splits)
  show ?case
  proof (cases r)
    case (Got ch)
    then show ?thesis
      using s "1.prems" "1.IH"(1) [OF s [symmetric] Got refl _ g]
      by (simp add: recv_bytes.simps [of c p buf st] crecv_bytes.simps [of c f buf k] Let_def)
  next
    case Recv_intr
    then show ?thesis
      using s "1.prems" "1.IH"(2) [OF s [symmetric] Recv_intr g]
      by (simp add: recv_bytes.simps [of c p buf st] crecv_bytes.simps [of c f buf k])
  qed (use s "1.prems" in \<open>simp_all add: recv_bytes.simps [of c p buf st] crecv_bytes.simps [of c f buf k]\<close>)
qed

text \<open>The client's \<open>recv_line\<close> and the handler's are the same function of the socket: from the same
  descriptor in the same kernel they read the same line and leave the same rest.\<close>

theorem recv_line_client_server:
  assumes "fd_of (wstore w) (session_ptr h) = Some (fd (sock_fd cl))"
    and "kern (wstore w) = tkern t"
  shows "recv_line c h w = Some (fst (c_recv_line c cl t),
    w\<lparr>wstore := (wstore w)\<lparr>kern := tkern (snd (c_recv_line c cl t))\<rparr>\<rparr>)"
  using recv_agree [of "session_ptr h" "wstore w" "fd (sock_fd cl)" "tkern t" c "[]"] assms
  by (simp add: recv_line_def fd_of_def c_recv_line_def case_prod_unfold Let_def)

subsection \<open>Sending\<close>

lemma csend_from_sends: "csend_from f buf tot k = (b, k') \<Longrightarrow> sends_rest f buf tot k b k'"
proof (induction f buf tot k rule: csend_from.induct)
  case (1 f buf tot k)
  obtain r k1 where s: "sys_send f (drop tot buf) k = (r, k1)" by force
  show ?case
  proof (cases "tot < length buf")
    case False
    with "1.prems" sends_rest_done [OF False] show ?thesis by (simp add: csend_from.simps [of f buf tot k])
  next
    case True
    consider (more) n where "r = Sent (Suc n)" | (again) "r = Send_intr" | (stop) "r = Sent 0 \<or> r = Send_err"
      by (metis send_res.exhaust not0_implies_Suc)
    then show ?thesis
    proof cases
      case more
      from "1.IH"(1) [OF True s [symmetric] more refl] "1.prems" True s more
      have "sends_rest f buf (tot + Suc n) k1 b k'" by (simp add: csend_from.simps [of f buf tot k])
      with sends_rest_more [of f tot buf k "Suc n" k1] s more True show ?thesis by simp
    next
      case again
      from "1.IH"(2) [OF True s [symmetric] again] "1.prems" True s again
      have "sends_rest f buf tot k1 b k'" by (simp add: csend_from.simps [of f buf tot k])
      with sends_rest_again [OF sys_send_failed_upto [OF s]] again show ?thesis by blast
    next
      case stop
      with s True "1.prems" have "b = False" "k' = k1"
        by (auto simp: csend_from.simps [of f buf tot k])
      moreover have "sent_upto f [] k k1"
        using stop s sys_send_sent_upto [of f tot buf k 0 k1] sys_send_failed_upto [OF s] True by auto
      ultimately show ?thesis using sends_rest_failed True by blast
    qed
  qed
qed

interpretation client_send: send_loop csend_from
  by unfold_locales (rule csend_from_sends)

text \<open>A connection whose calls are interrupted but never fail.\<close>

definition only_interrupted :: "int \<Rightarrow> kernel \<Rightarrow> bool" where
  "only_interrupted f k \<longleftrightarrow> (\<exists>s. socks k f = Some s \<and> \<not> shut s
     \<and> (\<forall>r \<in> set (sends s). r \<noteq> Send_err \<and> r \<noteq> Sent 0))"

lemma only_interrupted_step:
  assumes "only_interrupted f k" "sys_send f d k = (r, k')" "d \<noteq> []"
  shows "only_interrupted f k' \<and> r \<noteq> Send_err \<and> r \<noteq> Sent 0"
proof -
  from assms(1) obtain s where s: "socks k f = Some s" "\<not> shut s"
    "\<forall>r \<in> set (sends s). r \<noteq> Send_err \<and> r \<noteq> Sent 0" by (auto simp: only_interrupted_def)
  then show ?thesis
    using assms(2,3) by (cases "sends s")
      (auto simp: sys_send_def only_interrupted_def Let_def min_def split: send_res.splits if_splits)
qed

lemma csend_from_interrupted:
  "only_interrupted f k \<Longrightarrow> fst (csend_from f buf tot k)"
proof (induction f buf tot k rule: csend_from.induct)
  case (1 f buf tot k)
  obtain r k1 where s: "sys_send f (drop tot buf) k = (r, k1)" by force
  show ?case
  proof (cases "tot < length buf")
    case True
    with only_interrupted_step [OF "1.prems" s] have k1: "only_interrupted f k1" "r \<noteq> Send_err" "r \<noteq> Sent 0"
      by auto
    then show ?thesis
      using "1.IH" True s by (cases r) (auto simp: csend_from.simps [of f buf tot k] split: nat.splits)
  qed (simp add: csend_from.simps [of f buf tot k])
qed

text \<open>The client's \<open>send_encrypted\<close> returns true exactly when the whole encrypted message has been
  handed to the socket, a proper prefix of it otherwise; signals that interrupt it are no reason to
  give up, unlike in \<open>Session::send_msg\<close>.\<close>

theorem client_send_spec:
  "\<exists>sent rest. encrypt c plain = sent @ rest
     \<and> sent_upto (fd (sock_fd cl)) sent (tkern t) (tkern (snd (c_send_encrypted c cl plain t)))
     \<and> (fst (c_send_encrypted c cl plain t) \<longleftrightarrow> rest = [])
     \<and> (only_interrupted (fd (sock_fd cl)) (tkern t) \<longrightarrow> rest = [])"
proof -
  let ?w = "encrypt c plain"
  obtain b k where r: "csend_from (fd (sock_fd cl)) ?w 0 (tkern t) = (b, k)" by force
  from client_send.split_sent [OF r] obtain sent rest where n: "?w = sent @ rest"
    "sent_upto (fd (sock_fd cl)) sent (tkern t) k" "b \<longleftrightarrow> rest = []" by blast
  have c: "c_send_encrypted c cl plain t = (b, t\<lparr>tkern := k\<rparr>)" by (simp add: c_send_encrypted_def r)
  have i: "only_interrupted (fd (sock_fd cl)) (tkern t) \<Longrightarrow> b"
    using csend_from_interrupted [of "fd (sock_fd cl)" "tkern t" ?w 0] by (simp add: r)
  show ?thesis
    unfolding c fst_conv snd_conv terminal.simps
    using n i by (intro exI [of _ sent] exI [of _ rest]) simp
qed

subsection \<open>A dialogue over a working connection\<close>

text \<open>
  \<open>dialogue\<close>: the terminal \<open>t\<close> with the socket on which \<open>inp\<close> is still to come (plain text) and \<open>out\<close>
  has been sent, with the lines \<open>ins\<close> still to be typed and \<open>txt\<close> printed.
\<close>

definition dialogue ::
    "cipher \<Rightarrow> client \<Rightarrow> string \<Rightarrow> string \<Rightarrow> string list \<Rightarrow> string \<Rightarrow> terminal \<Rightarrow> terminal" where
  "dialogue c cl inp out ins txt t = t\<lparr>tkern := (tkern t)\<lparr>socks := (socks (tkern t))
     (fd (sock_fd cl) \<mapsto> sock_of c inp out)\<rparr>, stdin := ins, stdout := txt\<rparr>"

lemma dialogue_print [simp]: "print s (dialogue c cl i out ins txt t) = dialogue c cl i out ins (txt @ s) t"
  by (simp add: print_def dialogue_def)

lemma dialogue_stdin [simp]:
  "read_stdin (dialogue c cl i out (l # ls) txt t) = (Some l, dialogue c cl i out ls txt t)"
  "read_stdin (dialogue c cl i out [] txt t) = (None, dialogue c cl i out [] txt t)"
  by (simp_all add: read_stdin_def dialogue_def)

lemma dialogue_parts [simp]:
  "stdin (dialogue c cl i out ins txt t) = ins" "stdout (dialogue c cl i out ins txt t) = txt"
  "socks (tkern (dialogue c cl i out ins txt t)) (fd (sock_fd cl)) = Some (sock_of c i out)"
  by (simp_all add: dialogue_def)

lemma dialogue_recv [simp]:
  assumes "nl \<notin> set l"
  shows "c_recv_line c cl (dialogue c cl (l @ nl # i) out ins txt t) = (l, dialogue c cl i out ins txt t)"
proof -
  let ?t = "dialogue c cl (l @ nl # i) out ins txt t" and ?f = "fd (sock_fd cl)"
  define st where "st = \<lparr>kern = tkern ?t, heap = (\<lambda>_. Some (mk_session ?f []))\<rparr>"
  have g: "call_get_fd 1 st = Some ?f" and k: "kern st = tkern ?t"
    by (simp_all add: st_def call_get_fd_def get_fd_def mk_session_def mk_fd_def)
  have r: "rx (sock_of c (l @ nl # i) out) = map Got (encrypt c (l @ [nl])) @ map Got (encrypt c i)"
    by (simp add: sock_of_def encrypt_append encrypt_Cons)
  have "recv_bytes c 1 [] st = Some (l, rx_upd ?f (map Got (encrypt c i)) st)"
    using recv_bytes_line [OF g _ _ r feeds_plain assms, of "[]"] by (simp add: k sock_of_def)
  with recv_agree [OF g k, of c "[]"] have e: "fst (crecv_bytes c ?f [] (tkern ?t)) = l"
    and kk: "st\<lparr>kern := snd (crecv_bytes c ?f [] (tkern ?t))\<rparr> = rx_upd ?f (map Got (encrypt c i)) st"
    by simp_all
  from arg_cong [OF kk, of kern] have "snd (crecv_bytes c ?f [] (tkern ?t)) = tkern (dialogue c cl i out ins txt t)"
    by (simp add: rx_upd_def k sock_of_def) (simp add: dialogue_def sock_of_def)
  with e show ?thesis by (simp add: c_recv_line_def case_prod_unfold Let_def) (simp add: dialogue_def)
qed

lemma dialogue_send [simp]:
  "c_send_encrypted c cl m (dialogue c cl i out ins txt t) = (True, dialogue c cl i (out @ m) ins txt t)"
proof (cases m)
  case Nil
  then show ?thesis by (simp add: c_send_encrypted_def csend_from.simps dialogue_def)
next
  case (Cons x xs)
  then show ?thesis
    by (simp add: c_send_encrypted_def csend_from.simps [of _ _ 0] csend_from.simps [of _ _ "Suc _"]
        sys_send_def Let_def sock_of_def encrypt_Cons encrypt_append)
      (simp add: dialogue_def sock_of_def encrypt_Cons encrypt_append)
qed

lemma dialogue_same:
  "socks (tkern t) (fd (sock_fd cl)) = Some (sock_of c i out) \<Longrightarrow> dialogue c cl i out (stdin t) (stdout t) t = t"
  by (simp add: dialogue_def fun_upd_idem)

lemma do_register_dialogue:
  assumes "nl \<notin> set p1" "nl \<notin> set p2" "nl \<notin> set r"
  shows "do_register c cl (dialogue c cl (p1 @ nl # p2 @ nl # r @ nl # i) out (u # pw # ls) txt t)
    = (msg_type (parse r) = proto_OK, dialogue c cl i (out @ u @ nl # pw @ [nl]) ls
        (txt @ p1 @ p2 @ ''[SERVER] '' @ r @ [nl]) t)"
  using assms by (simp add: do_register_def Let_def)

lemma do_login_dialogue:
  assumes "nl \<notin> set p1" "nl \<notin> set p2" "nl \<notin> set r"
  shows "do_login c cl (dialogue c cl (p1 @ nl # p2 @ nl # r @ nl # i) out (u # pw # ls) txt t)
    = (msg_type (parse r) = proto_OK, dialogue c cl i (out @ u @ nl # pw @ [nl]) ls
        (txt @ p1 @ p2 @ ''[SERVER] '' @ r @ [nl]) t)"
  using assms by (simp add: do_login_def Let_def)

definition menu_text :: string where
  "menu_text = ''=== MPCC - Multi Party Conference Chat ==='' @ [nl] @ payload make_menu @ [nl] @ ''Your choice: ''"

lemma menu_frame: "serialise make_menu = frame_body make_menu @ [nl]" "nl \<notin> set (frame_body make_menu)"
  "parse (frame_body make_menu) = make_menu" "frame_body make_menu \<noteq> []" "msg_type make_menu = proto_MENU"
proof -
  show "parse (frame_body make_menu) = make_menu"
    using parse_serialise_gen [of make_menu] by (simp add: serialise_frame make_menu_def strip_eol_clean)
qed (simp_all add: serialise_frame make_menu_def frame_body_def)

definition choice_frame :: "string \<Rightarrow> string" where
  "choice_frame n = serialise \<lparr>msg_type = proto_CHOICE, payload = n\<rparr>"

lemma auth_once_dialogue:
  "auth_once_client c cl (dialogue c cl (serialise make_menu @ i) out (n # ls) txt t)
   = (let t' = dialogue c cl i (out @ choice_frame n) ls (txt @ menu_text) t
      in if n = ''1'' then let (a, t') = do_register c cl t' in (Auth a, t')
         else if n = ''2'' then let (a, t') = do_login c cl t' in (Auth a, t')
         else (Auth False, print (''[ERROR] Invalid choice.'' @ [nl]) t'))"
  by (simp add: auth_once_client_def menu_frame(1,3-5) dialogue_recv [OF menu_frame(2)] menu_text_def
      choice_frame_def Let_def del: proto_MENU_def)

subsection \<open>The end of authentication\<close>

text \<open>The loop cut off after \<open>n\<close> passes.\<close>

fun auth_passes :: "nat \<Rightarrow> cipher \<Rightarrow> client \<Rightarrow> terminal \<Rightarrow> ((string + bool) \<times> terminal) option" where
  "auth_passes 0 c cl t = None"
| "auth_passes (Suc n) c cl t =
     (case auth_once_client c cl t of
        (Throw e, t) \<Rightarrow> Some (Inl e, t)
      | (Break, t) \<Rightarrow> Some (Inr False, t)
      | (Auth True, t) \<Rightarrow> Some (Inr True, t)
      | (Auth False, t) \<Rightarrow> auth_passes n c cl t)"

lemma auth_passes_enough: "rx_left cl t < n \<Longrightarrow> auth_passes n c cl t = Some (auth_loop c cl t)"
proof (induction n c cl t rule: auth_passes.induct)
  case (2 n c cl t)
  obtain r t1 where o: "auth_once_client c cl t = (r, t1)" by force
  show ?case
  proof (cases "r = Auth False")
    case True
    with o auth_once_client_left [of c cl t False t1] "2.prems" have "rx_left cl t1 < n" by simp
    with "2.IH" [OF o [symmetric] True _ this] o True show ?thesis by (simp add: auth_loop.simps [of c cl t])
  next
    case False
    with o show ?thesis by (cases r) (auto simp: auth_loop.simps [of c cl t] split: bool.splits)
  qed
qed simp

text \<open>Why a pass ends the loop.\<close>

definition said_ok :: "terminal \<Rightarrow> bool" where
  "said_ok t \<longleftrightarrow> (\<exists>pre r. msg_type (parse r) = proto_OK \<and> stdout t = pre @ ''[SERVER] '' @ r @ [nl])"

definition auth_reason :: "(string + bool) \<times> terminal \<Rightarrow> bool" where
  "auth_reason res = (case res of
     (Inl e, t) \<Rightarrow> e = ''Server disconnected during menu.''
   | (Inr a, t) \<Rightarrow> if a then said_ok t else stdin t = [])"

lemma said_okI: "msg_type (parse r) = proto_OK \<Longrightarrow> said_ok (print (''[SERVER] '' @ r @ [nl]) t)"
  by (auto simp: said_ok_def print_def)

lemma do_register_ok: "do_register c cl t = (True, t') \<Longrightarrow> said_ok t'"
  by (auto simp: do_register_def Let_def split: prod.splits option.splits intro: said_okI [simplified])

lemma do_login_ok: "do_login c cl t = (True, t') \<Longrightarrow> said_ok t'"
  by (auto simp: do_login_def Let_def split: prod.splits option.splits intro: said_okI [simplified])

lemma stdin_ended: "read_stdin t = (None, t') \<Longrightarrow> stdin t' = []"
  by (auto simp: read_stdin_def split: list.splits)

lemma auth_once_reason:
  "auth_once_client c cl t = (r, t') \<Longrightarrow>
   (case r of Throw e \<Rightarrow> auth_reason (Inl e, t') | Break \<Rightarrow> auth_reason (Inr False, t')
    | Auth a \<Rightarrow> a \<longrightarrow> auth_reason (Inr True, t'))"
  by (auto simp: auth_once_client_def auth_reason_def Let_def split: if_splits prod.splits option.splits
      dest!: stdin_ended) (erule do_register_ok do_login_ok)+


text \<open>At the end of the user's input the client leaves the loop without an exception, and \<open>run\<close>
  goes on to the chat although nobody has been authenticated.\<close>

theorem eof_enters_chat:
  assumes "connect_to_server env cl0 t0 = (None, cl, dialogue c cl (serialise make_menu @ i) out [] txt t)"
  shows "client_run c env sp cl0 t0
    = (None, send_loop_begin c sp cl (dialogue c cl i out [] (txt @ menu_text) t))"
proof -
  have "auth_once_client c cl (dialogue c cl (serialise make_menu @ i) out [] txt t)
      = (Break, dialogue c cl i out [] (txt @ menu_text) t)"
    by (simp add: auth_once_client_def menu_frame(1,3-5) dialogue_recv [OF menu_frame(2)] menu_text_def
        Let_def del: proto_MENU_def)
  then show ?thesis using assms by (simp add: client_run_def auth_loop.simps)
qed

subsection \<open>Client and server against each other\<close>

lemma refuse_link:
  assumes "link c h f i out w"
  shows "refuse c h m w = Some (False, wire_to c f i (out @ serialise (make_err m)) w)"
  using send_link [OF assms] by (simp add: refuse_def)

lemma link_set_username:
  assumes "link c h f i out w" "call_set_username (session_ptr h) u (wstore w) = Some st"
  shows "link c h f i out (w\<lparr>wstore := st, bman := bm\<rparr>)"
  using assms by (auto simp: link_def call_set_username_def set_username_def get_fd_def bind_Some_iff)

lemma admit_link:
  assumes "link c h f i out w" "admit c h u m w = Some (b, w')"
  shows "b \<and> link c h f i (out @ serialise (make_ok m)) w'"
proof -
  from assms(2) obtain st bm x where st: "call_set_username (session_ptr h) u (wstore w) = Some st"
    and s: "send_encrypted c h (serialise (make_ok m)) (w\<lparr>wstore := st, bman := bm\<rparr>) = Some (x, w')"
    and b: "b = True" by (auto simp: admit_def bind_Some_iff)
  note l = link_set_username [OF assms(1) st, of bm]
  from send_link [OF l] s have "w' = wire_to c f i (out @ serialise (make_ok m)) (w\<lparr>wstore := st, bman := bm\<rparr>)"
    by simp
  with link_wire [OF l] b show ?thesis by simp
qed

text \<open>The reply that ends a dialogue: one frame, \<open>OK\<close> exactly when the client was let in.\<close>

definition answers :: "cipher \<Rightarrow> handler \<Rightarrow> int \<Rightarrow> string \<Rightarrow> string \<Rightarrow> bool \<Rightarrow> world \<Rightarrow> bool" where
  "answers c h f i out b w \<longleftrightarrow> (\<exists>r. nl \<notin> set (frame_body r) \<and> parse (frame_body r) = r
     \<and> (msg_type r = proto_OK \<longleftrightarrow> b) \<and> link c h f i (out @ serialise r) w)"

lemma reply_parse:
  assumes "payload r = a @ x # b" "\<not> eol (last (x # b))" "colon \<notin> set (msg_type r)" "nl \<notin> set (msg_type r @ payload r)"
  shows "nl \<notin> set (frame_body r) \<and> parse (frame_body r) = r"
proof -
  have "strip_eol (payload r) = payload r" using assms(1,2) by (intro strip_eol_clean) simp
  then show ?thesis using assms parse_serialise_gen [of r] by (simp add: serialise_frame)
qed

lemma refuse_answers:
  assumes "link c h f i out w" "nl \<notin> set m" "m \<noteq> []" "\<not> eol (last m)"
    and "refuse c h m w = Some (b, w')"
  shows "answers c h f i out b w'"
  unfolding answers_def
proof (intro exI [of _ "make_err m"] conjI)
  show "nl \<notin> set (frame_body (make_err m))" "parse (frame_body (make_err m)) = make_err m"
    using reply_parse [of "make_err m" "[]" "hd m" "tl m"] assms(2-4) by (simp_all add: make_err_def)
qed (use assms(5) refuse_link [OF assms(1)] link_wire [OF assms(1)] in \<open>auto simp: make_err_def\<close>)

lemma admit_answers:
  assumes "link c h f i out w" "nl \<notin> set m" "m \<noteq> []" "\<not> eol (last m)"
    and "admit c h u m w = Some (b, w')"
  shows "answers c h f i out b w'"
  unfolding answers_def
proof (intro exI [of _ "make_ok m"] conjI)
  show "nl \<notin> set (frame_body (make_ok m))" "parse (frame_body (make_ok m)) = make_ok m"
    using reply_parse [of "make_ok m" "[]" "hd m" "tl m"] assms(2-4) by (simp_all add: make_ok_def)
qed (use admit_link [OF assms(1,5)] in \<open>auto simp: make_ok_def\<close>)

lemma link_next_io: "link c h f i out w \<Longrightarrow> next_io w = (io, w1) \<Longrightarrow> link c h f i out w1"
  by (auto simp: next_io_def split: list.splits)

lemma finish_register_answers:
  assumes "link c h f i out w" "nl \<notin> set u" "finish_register c h u pw w = Some (b, w')"
  shows "answers c h f i out b w'"
proof -
  obtain io w1 where n: "next_io w = (io, w1)" by force
  note l = link_next_io [OF assms(1) n]
  obtain b0 fs ls where r: "register_user io (registry w1) u (encrypt c pw) (wfs w1) = (b0, fs, ls)"
    by (metis prod_cases3)
  show ?thesis
  proof (cases b0)
    case True
    with assms(3) n r obtain ip where "admit c h u (''Registration successful. Welcome, '' @ u @ ''!'')
        (w_log INFO (''New user registered: '' @ u @ '' from '' @ ip) (w1\<lparr>wfs := fs, logs := logs w1 @ ls\<rparr>))
        = Some (b, w')"
      by (auto simp: finish_register_def Let_def bind_Some_iff)
    from admit_answers [OF _ _ _ _ this] l assms(2) show ?thesis by simp
  next
    case False
    with assms(3) n r have "refuse c h ''User already exists.'' (w_log WARNING
        (''Registration failed '' @ endash @ '' user already exists: '' @ u) (w1\<lparr>wfs := fs, logs := logs w1 @ ls\<rparr>))
        = Some (b, w')" by (simp add: finish_register_def Let_def)
    from refuse_answers [OF _ _ _ _ this] l show ?thesis by simp
  qed
qed

lemma finish_login_answers:
  assumes "link c h f i out w" "nl \<notin> set u" "finish_login c h u pw w = Some (b, w')"
  shows "answers c h f i out b w'"
proof -
  obtain io w1 where n: "next_io w = (io, w1)" by force
  note l = link_next_io [OF assms(1) n]
  show ?thesis
  proof (cases "authenticate (find_opens io) (registry w1) u (encrypt c pw) (wfs w1)")
    case True
    with assms(3) n obtain ip where "admit c h u (''Login successful. Welcome back, '' @ u @ ''!'')
        (w_log INFO (''User logged in: '' @ u @ '' from '' @ ip) w1) = Some (b, w')"
      by (auto simp: finish_login_def bind_Some_iff)
    from admit_answers [OF _ _ _ _ this] l assms(2) show ?thesis by simp
  next
    case False
    with assms(3) n obtain ip where "refuse c h ''Invalid credentials.''
        (w_log WARNING (''Login failed for user: '' @ u @ '' from '' @ ip) w1) = Some (b, w')"
      by (auto simp: finish_login_def bind_Some_iff)
    from refuse_answers [OF _ _ _ _ this] l show ?thesis by simp
  qed
qed

lemma choice_frame_eq: "choice_frame (to_string k) = (''CHOICE:'' @ to_string k) @ [nl]"
  by (simp add: choice_frame_def serialise_def)

lemma to_string_12: "to_string 1 = ''1''" "to_string 2 = ''2''"
  by code_simp+

lemma present_menu_choice:
  assumes "link c h f i0 o0 w" "- (2 ^ 31) \<le> k" "k < 2 ^ 31"
  shows "present_menu c h (wire_to c f (choice_frame (to_string k) @ inp) out w)
    = Some (k, wire_to c f inp (out @ serialise make_menu) w)"
proof -
  have l: "nl \<notin> set (''CHOICE:'' @ to_string k)" using set_to_string [of nl k] by auto
  show ?thesis
    using present_menu_talk [OF assms(1) l, of inp out] choice_of_frame [OF assms(2,3)]
    by (simp add: choice_frame_eq)
qed

lemma attempt_of_handler:
  assumes "present_menu c h w = Some (k, w1)"
  shows "k = 1 \<Longrightarrow> auth_once c h w
      = Option.bind (handle_register c h w1) (\<lambda>(b, w). Some (if b then Admitted else Again, w))"
    and "k = 2 \<Longrightarrow> auth_once c h w
      = Option.bind (handle_login c h w1) (\<lambda>(b, w). Some (if b then Admitted else Again, w))"
  using assms by (simp_all add: auth_once_def)

lemma auth_once_answers:
  assumes l: "link c h f (choice_frame n @ u @ nl # pw @ nl # inp) out w" and n: "n = ''1'' \<or> n = ''2''"
    and inv: "auth_inv (session_ptr h) w"
    and ok: "validate_username u" "validate_password pw" "nl \<notin> set pw"
  shows "\<exists>b w'. auth_once c h w = Some (if b then Admitted else Again, w')
    \<and> answers c h f inp (out @ serialise make_menu @ prompts) b w'"
proof -
  let ?o1 = "out @ serialise make_menu"
  define w1 where "w1 = wire_to c f (u @ nl # pw @ nl # inp) ?o1 w"
  define w2 where "w2 = wire_to c f inp (?o1 @ prompts) w1"
  have l1: "link c h f (u @ nl # pw @ nl # inp) ?o1 w1" unfolding w1_def by (rule link_wire [OF l])
  have l2: "link c h f inp (?o1 @ prompts) w2" unfolding w2_def by (rule link_wire [OF l1])
  have u: "u \<noteq> []" "nl \<notin> set u" "pw \<noteq> []"
    using ok name_no_nl [OF ok(1)] by (auto simp: validate_username_def validate_password_def)
  from auth_once_wp [OF inv, of c] obtain r w' where o: "auth_once c h w = Some (r, w')"
    by (auto simp: wp_def)
  have menu: "n = to_string k \<Longrightarrow> - (2 ^ 31) \<le> k \<Longrightarrow> k < 2 ^ 31 \<Longrightarrow> present_menu c h w = Some (k, w1)" for k
    using present_menu_choice [OF l, of k "u @ nl # pw @ nl # inp" out] link_same [OF l] by (simp add: w1_def)
  from n show ?thesis
  proof
    assume "n = ''1''"
    then have "present_menu c h w = Some (1, w1)" using menu [of 1] by (simp add: to_string_12)
    from attempt_of_handler(1) [OF this] o handle_register_talk [OF l1 ok]
    have "Option.bind (finish_register c h u pw w2) (\<lambda>(b, w). Some (if b then Admitted else Again, w))
      = Some (r, w')" by (simp add: w2_def)
    then obtain b where "finish_register c h u pw w2 = Some (b, w')" "r = (if b then Admitted else Again)"
      by (auto simp: bind_Some_iff)
    with o finish_register_answers [OF l2 u(2)] show ?thesis by auto
  next
    assume "n = ''2''"
    then have "present_menu c h w = Some (2, w1)" using menu [of 2] by (simp add: to_string_12)
    from attempt_of_handler(2) [OF this] o handle_login_talk [OF l1 u ok(3)]
    have "Option.bind (finish_login c h u pw w2) (\<lambda>(b, w). Some (if b then Admitted else Again, w))
      = Some (r, w')" by (simp add: w2_def)
    then obtain b where "finish_login c h u pw w2 = Some (b, w')" "r = (if b then Admitted else Again)"
      by (auto simp: bind_Some_iff)
    with o finish_login_answers [OF l2 u(2)] show ?thesis by auto
  qed
qed

text \<open>C11: client and server agree on authentication. Let the server's handler read what the client sends for
  a choice of register or login with an acceptable name and password: it makes one pass of its loop and
  answers with some bytes. The client that reads these bytes while its user types the same
  choice, name and password sends exactly what the handler had read, takes exactly these bytes
  from the connection, and holds itself authenticated exactly when the handler let it in.\<close>

theorem client_server_agree:
  assumes "link c h f (choice_frame n @ u @ nl # pw @ nl # inp) out w" and "n = ''1'' \<or> n = ''2''"
    and "auth_inv (session_ptr h) w"
    and "validate_username u" and "validate_password pw" and "nl \<notin> set pw"
  shows "\<exists>b w' says. auth_once c h w = Some (if b then Admitted else Again, w')
    \<and> link c h f inp (out @ says) w'
    \<and> (\<forall>cl i sent ls txt t. \<exists>txt'.
         auth_once_client c cl (dialogue c cl (says @ i) sent (n # u # pw # ls) txt t)
         = (Auth b, dialogue c cl i (sent @ choice_frame n @ u @ nl # pw @ [nl]) ls txt' t))"
proof -
  from auth_once_answers [OF assms] obtain b w' r where
    o: "auth_once c h w = Some (if b then Admitted else Again, w')" and
    r: "nl \<notin> set (frame_body r)" "parse (frame_body r) = r" "msg_type r = proto_OK \<longleftrightarrow> b"
      "link c h f inp ((out @ serialise make_menu @ prompts) @ serialise r) w'"
    by (auto simp: answers_def)
  let ?says = "serialise make_menu @ prompts @ serialise r"
  have says: "?says @ i = serialise make_menu @ ''Enter username: '' @ nl # ''Enter password: '' @ nl
      # frame_body r @ nl # i" for i
    by (simp add: prompts_def serialise_frame)
  have p: "nl \<notin> set ''Enter username: ''" "nl \<notin> set ''Enter password: ''" by simp_all
  note reg = do_register_dialogue [OF p r(1)] and log = do_login_dialogue [OF p r(1)]
  have "\<exists>txt'. auth_once_client c cl (dialogue c cl (?says @ i) sent (n # u # pw # ls) shown t)
      = (Auth b, dialogue c cl i (sent @ choice_frame n @ u @ nl # pw @ [nl]) ls txt' t)"
    for cl i sent ls shown t
    unfolding says auth_once_dialogue using assms(2) r(2,3) reg log by (auto simp: Let_def)
  with o r(4) show ?thesis by (intro exI [of _ b] exI [of _ w'] exI [of _ ?says]) simp
qed

text \<open>C36: an invalid name makes client and server lose step. The handler answers it with an error at once;
  the client takes that for the password prompt, sends the password, and takes the next menu for
  the reply. The handler then reads the password as the choice of the next menu.\<close>

theorem invalid_username_desyncs:
  assumes "link c h f (choice_frame ''1'' @ u @ nl # pw @ nl # inp) out w"
    and "u \<noteq> []" and "nl \<notin> set u" and "\<not> validate_username u" and "pw \<noteq> []" and "nl \<notin> set pw"
  shows "\<exists>w' says. auth_once c h w = Some (Again, w') \<and> link c h f (pw @ nl # inp) (out @ says) w'
    \<and> present_menu c h w' = Some (choice_of pw, wire_to c f inp (out @ says @ serialise make_menu) w')
    \<and> (\<forall>cl i sent ls txt t. \<exists>txt'.
        auth_once_client c cl (dialogue c cl (says @ serialise make_menu @ i) sent (''1'' # u # pw # ls) txt t)
        = (Auth False, dialogue c cl i (sent @ choice_frame ''1'' @ u @ nl # pw @ [nl]) ls txt' t))"
proof -
  note l = assms(1)
  define e where "e = make_err ''Invalid username. Use [a-zA-Z0-9_], max 64 chars.''"
  define says where "says = serialise make_menu @ ''Enter username: '' @ nl # serialise e"
  define w1 where "w1 = wire_to c f (u @ nl # pw @ nl # inp) (out @ serialise make_menu) w"
  define w' where "w' = wire_to c f (pw @ nl # inp) (out @ says) w"
  have m: "present_menu c h w = Some (1, w1)"
    using present_menu_choice [OF l, of 1 "u @ nl # pw @ nl # inp" out] link_same [OF l]
    by (simp add: w1_def to_string_12)
  have "handle_register c h w1 = Some (False, w')"
    using assms(2-4) talk [OF l] by (simp add: handle_register_def refuse_def w1_def w'_def says_def e_def)
  with attempt_of_handler(1) [OF m] have o: "auth_once c h w = Some (Again, w')" by simp
  have l': "link c h f (pw @ nl # inp) (out @ says) w'" unfolding w'_def by (rule link_wire [OF l])
  have p: "present_menu c h w' = Some (choice_of pw, wire_to c f inp (out @ says @ serialise make_menu) w')"
    using present_menu_talk [OF l' assms(6,5), of inp "out @ says"] link_same [OF l'] by simp
  have s: "says @ serialise make_menu @ i = serialise make_menu @ ''Enter username: '' @ nl # frame_body e @ nl
      # frame_body make_menu @ nl # i" for i
    by (simp add: says_def serialise_frame)
  have nl: "nl \<notin> set ''Enter username: ''" "nl \<notin> set (frame_body e)"
    by (simp_all add: e_def make_err_def)
  have "\<exists>txt'. auth_once_client c cl (dialogue c cl (says @ serialise make_menu @ i) sent (''1'' # u # pw # ls) shown t)
      = (Auth False, dialogue c cl i (sent @ choice_frame ''1'' @ u @ nl # pw @ [nl]) ls txt' t)"
    for cl i sent ls shown t
    unfolding s auth_once_dialogue using do_register_dialogue [OF nl menu_frame(2)]
    by (auto simp: Let_def menu_frame(3,5))
  with o l' p show ?thesis by (intro exI [of _ w'] exI [of _ says]) simp
qed

subsection \<open>The client at work\<close>

text \<open>A client on descriptor \<open>n\<close>; a terminal whose socket 7 is interrupted once and then takes a byte.\<close>

definition demo_client :: "int \<Rightarrow> client" where
  "demo_client n = (mk_client ''127.0.0.1'' 8080)\<lparr>sock_fd := mk_fd n\<rparr>"

definition demo_terminal :: "kernel \<Rightarrow> string list \<Rightarrow> terminal" where
  "demo_terminal k ls = \<lparr>tkern = k, tthreads = \<lparr>created = [], joined = []\<rparr>, stdin = ls, stdout = [], tlogs = [], dialled = None\<rparr>"

definition shaky_kernel :: kernel where
  "shaky_kernel = \<lparr>socks = [7 \<mapsto> \<lparr>rx = [], sends = [Send_intr, Sent 1], tx = [], shut = False\<rparr>], closes = []\<rparr>"

lemma demo_client_fd [simp]: "fd (sock_fd (demo_client n)) = n" "recv_thread (demo_client n) = mk_thread"
  by (simp_all add: demo_client_def mk_client_def mk_fd_def)

lemma demo_terminal_parts [simp]:
  "tkern (demo_terminal k ls) = k" "stdin (demo_terminal k ls) = ls" "stdout (demo_terminal k ls) = []"
  by (simp_all add: demo_terminal_def)

theorem recv_line_client_server_witness:
  "\<exists>w'. recv_line default_cipher newcomer (demo_world (''hi'' @ [nl]))
     = Some (fst (c_recv_line default_cipher (demo_client 6)
         (demo_terminal (kern (wstore (demo_world (''hi'' @ [nl])))) [])), w')"
  using recv_line_client_server [of "demo_world (''hi'' @ [nl])" newcomer "demo_client 6"
      "demo_terminal (kern (wstore (demo_world (''hi'' @ [nl])))) []" default_cipher] by simp

theorem client_send_spec_witness:
  "\<exists>sent rest. encrypt default_cipher ''hello'' = sent @ rest
     \<and> sent_upto 7 sent shaky_kernel
         (tkern (snd (c_send_encrypted default_cipher (demo_client 7) ''hello'' (demo_terminal shaky_kernel []))))
     \<and> rest = []"
proof -
  have "only_interrupted (fd (sock_fd (demo_client 7))) (tkern (demo_terminal shaky_kernel []))"
    by (simp add: only_interrupted_def shaky_kernel_def)
  with client_send_spec [of default_cipher "''hello''" "demo_client 7" "demo_terminal shaky_kernel []"]
  show ?thesis by fastforce
qed

theorem client_server_agree_witness:
  "\<exists>b w' says. auth_once default_cipher newcomer
        (demo_world (choice_frame ''1'' @ ''Niya'' @ nl # ''secret'' @ nl # []))
      = Some (if b then Admitted else Again, w')
    \<and> link default_cipher newcomer 6 [] ([] @ says) w'
    \<and> (\<forall>cl i sent ls txt t. \<exists>txt'.
         auth_once_client default_cipher cl
           (dialogue default_cipher cl (says @ i) sent (''1'' # ''Niya'' # ''secret'' # ls) txt t)
         = (Auth b, dialogue default_cipher cl i
             (sent @ choice_frame ''1'' @ ''Niya'' @ nl # ''secret'' @ [nl]) ls txt' t))"
proof (rule client_server_agree [OF demo_link])
  show "auth_inv (session_ptr newcomer)
      (demo_world (choice_frame ''1'' @ ''Niya'' @ nl # ''secret'' @ nl # []))" using demo_auth by simp
  show "validate_username ''Niya''" by (simp add: validate_username_def isalnum_def isdigit_def MAX_USERNAME_LEN_def)
  show "validate_password ''secret''" by (simp add: validate_password_def MAX_PASS_LEN_def)
qed simp_all

theorem invalid_username_desyncs_witness:
  "\<exists>w' says. auth_once default_cipher newcomer
        (demo_world (choice_frame ''1'' @ ''no good'' @ nl # ''2'' @ nl # [])) = Some (Again, w')
    \<and> link default_cipher newcomer 6 (''2'' @ nl # []) ([] @ says) w'
    \<and> present_menu default_cipher newcomer w'
      = Some (choice_of ''2'', wire_to default_cipher 6 [] ([] @ says @ serialise make_menu) w')
    \<and> (\<forall>cl i sent ls txt t. \<exists>txt'.
        auth_once_client default_cipher cl (dialogue default_cipher cl (says @ serialise make_menu @ i) sent
          (''1'' # ''no good'' # ''2'' # ls) txt t)
        = (Auth False, dialogue default_cipher cl i
            (sent @ choice_frame ''1'' @ ''no good'' @ nl # ''2'' @ [nl]) ls txt' t))"
proof (rule invalid_username_desyncs [OF demo_link])
  show "\<not> validate_username ''no good''"
    by (simp add: validate_username_def isalnum_def isdigit_def MAX_USERNAME_LEN_def)
qed simp_all

end
