(* ===== verification/Client_Chat.thy ===== *)
theory Client_Chat
  imports Client_Protocol
begin

text \<open>
  The chat of the client, main thread and receive thread in any interleaving: it ends, what it
  transmits, what it shows, and what becomes of the connection and the thread.
\<close>

subsection \<open>Frames of the turns\<close>

lemma show_line_frame [simp]:
  "tkern (show_line l t) = tkern t" "stdin (show_line l t) = stdin t"
  "tthreads (show_line l t) = tthreads t" "tlogs (show_line l t) = tlogs t"
  by (simp_all add: show_line_def print_def Let_def)

lemma print_frame [simp]:
  "tkern (print s t) = tkern t" "stdin (print s t) = stdin t"
  "tthreads (print s t) = tthreads t" "tlogs (print s t) = tlogs t" "stdout (print s t) = stdout t @ s"
  by (simp_all add: print_def)

lemma c_send_frame [simp]:
  "stdin (snd (c_send_encrypted c cl m t)) = stdin t" "stdout (snd (c_send_encrypted c cl m t)) = stdout t"
  "tthreads (snd (c_send_encrypted c cl m t)) = tthreads t"
  by (simp_all add: c_send_encrypted_def case_prod_unfold Let_def)

lemma c_recv_frame [simp]:
  "stdin (snd (c_recv_line c cl t)) = stdin t" "stdout (snd (c_recv_line c cl t)) = stdout t"
  "tthreads (snd (c_recv_line c cl t)) = tthreads t"
  by (simp_all add: c_recv_line_def case_prod_unfold Let_def)

lemma send_line_frame:
  "stdin (snd (send_line c cl l t)) = stdin t" "tthreads (snd (send_line c cl l t)) = tthreads t"
  "rx_left cl' (snd (send_line c cl l t)) = rx_left cl' t"
proof -
  have p: "rx_left cl' (print s t) = rx_left cl' t" for s t by simp
  show "rx_left cl' (snd (send_line c cl l t)) = rx_left cl' t"
    using rx_left_simps(3) [of cl' c cl] by (simp add: send_line_def case_prod_unfold Let_def p del: rx_left_simps(3))
qed (simp_all add: send_line_def case_prod_unfold Let_def)

lemma pending_shutdown: "pending_rx g (fd_shutdown_rdwr u k) = pending_rx g k"
  by (simp add: fd_shutdown_rdwr_def sys_shutdown_def pending_rx_def split: option.splits)

subsection \<open>The chat ends\<close>

text \<open>What is left to do: lines to type, bytes to receive, and the states still to go through.\<close>

fun main_rank :: "main_phase \<Rightarrow> nat" where
  "main_rank Reading = 2" | "main_rank Joining = 1" | "main_rank Ended = 0"

fun recv_rank :: "recv_phase \<Rightarrow> nat" where
  "recv_rank Checking = 2" | "recv_rank Receiving = 1" | "recv_rank _ = 0"

definition chat_work :: "chat \<Rightarrow> nat" where
  "chat_work y = length (stdin (console y)) + main_rank (mainp y)
     + 2 * rx_left (me y) (console y) + recv_rank (recvp y)"

lemma rx_left_me: "sock_fd cl = sock_fd cl' \<Longrightarrow> tkern t = tkern t' \<Longrightarrow> rx_left cl t = rx_left cl' t'"
  by (simp add: rx_left_def)

lemma stop_sending_frame [simp]:
  "sock_fd (me (stop_sending y)) = sock_fd (me y)" "recv_thread (me (stop_sending y)) = recv_thread (me y)"
  "crunning (me (stop_sending y)) = False" "stdin (console (stop_sending y)) = stdin (console y)"
  "tthreads (console (stop_sending y)) = tthreads (console y)" "mainp (stop_sending y) = Joining"
  "recvp (stop_sending y) = recvp y"
  "rx_left (me (stop_sending y)) (console (stop_sending y)) = rx_left (me y) (console y)"
  by (simp_all add: stop_sending_def rx_left_def pending_shutdown)

lemma main_turn_cases:
  obtains (eof) "stdin (console y) = []" "main_turn c y = stop_sending y"
  | (line) l ls go t where "stdin (console y) = l # ls"
      "send_line c (me y) l ((console y)\<lparr>stdin := ls\<rparr>) = (go, t)"
      "main_turn c y = (if go then y\<lparr>console := t\<rparr> else stop_sending (y\<lparr>console := t\<rparr>))"
proof (cases "stdin (console y)")
  case Nil
  then show ?thesis by (intro eof) (simp_all add: main_turn_def read_stdin_def)
next
  case (Cons l ls)
  obtain go t where s: "send_line c (me y) l ((console y)\<lparr>stdin := ls\<rparr>) = (go, t)" by force
  with Cons show ?thesis by (intro line [OF Cons s]) (simp add: main_turn_def read_stdin_def Let_def)
qed

lemma main_turn_work:
  assumes "mainp y = Reading"
  shows "chat_work (main_turn c y) < chat_work y"
proof (cases rule: main_turn_cases [of y c])
  case eof
  then show ?thesis using assms by (simp add: chat_work_def)
next
  case (line l ls go t)
  have r: "rx_left (me y) ((console y)\<lparr>stdin := ls\<rparr>) = rx_left (me y) (console y)" by (rule rx_left_me) simp_all
  have "stdin t = ls" "rx_left (me y) t = rx_left (me y) (console y)"
    using send_line_frame(1,3) [where cl = "me y" and l = l and t = "(console y)\<lparr>stdin := ls\<rparr>" and c = c] line(2) r
    by simp_all
  with line assms show ?thesis by (simp add: chat_work_def)
qed

lemma recv_turn_cases:
  assumes "recvp y = Checking \<or> recvp y = Receiving"
  obtains (check) "recvp y = Checking"
      "recv_turn c y = y\<lparr>recvp := (if crunning (me y) then Receiving else Returned)\<rparr>"
  | (gone) t where "recvp y = Receiving" "c_recv_line c (me y) (console y) = ([], t)"
      "recv_turn c y = y\<lparr>console := t, recvp := Returned\<rparr>"
  | (got) l t where "recvp y = Receiving" "c_recv_line c (me y) (console y) = (l, t)" "l \<noteq> []"
      "recv_turn c y = y\<lparr>console := show_line l t, recvp := Checking\<rparr>"
proof -
  obtain l t where "c_recv_line c (me y) (console y) = (l, t)" by force
  with assms that show ?thesis by (cases "l = []") (auto simp: recv_turn_def)
qed

lemma recv_turn_work:
  assumes "recvp y = Checking \<or> recvp y = Receiving"
  shows "chat_work (recv_turn c y) < chat_work y"
  using assms
proof (cases rule: recv_turn_cases [where c = c])
  case check
  then show ?thesis by (simp add: chat_work_def)
next
  case (gone t)
  with c_recv_left(1) [of "me y" c "console y"] c_recv_frame(1) [of c "me y" "console y"] show ?thesis
    by (simp add: chat_work_def)
next
  case (got l t)
  have "rx_left (me y) (show_line l t) = rx_left (me y) t" by (rule rx_left_me) simp_all
  with got c_recv_left(2) [of c "me y" "console y"] c_recv_frame(1) [of c "me y" "console y"] show ?thesis
    by (simp add: chat_work_def)
qed

lemma join_frame [simp]:
  "stdin (console (join_and_leave y)) = stdin (console y)" "mainp (join_and_leave y) = Ended"
  "recvp (join_and_leave y) = recvp y" "tkern (console (join_and_leave y)) = tkern (console y)"
  "sock_fd (me (join_and_leave y)) = sock_fd (me y)"
  "tthreads (console (join_and_leave y)) = snd (jt_join (recv_thread (me y)) (tthreads (console y)))"
  "recv_thread (me (join_and_leave y)) = fst (jt_join (recv_thread (me y)) (tthreads (console y)))"
  by (simp_all add: join_and_leave_def case_prod_unfold Let_def)

lemma chat_step_work: "chat_step c y y' \<Longrightarrow> chat_work y' < chat_work y"
proof (induction rule: chat_step.induct)
  case (join y)
  have "rx_left (me (join_and_leave y)) (console (join_and_leave y)) = rx_left (me y) (console y)"
    by (rule rx_left_me) simp_all
  with join show ?case by (simp add: chat_work_def)
qed (rule main_turn_work recv_turn_work; assumption)+

lemma chat_steps_bounded: "(chat_step c ^^ n) y y' \<Longrightarrow> n + chat_work y' \<le> chat_work y"
proof (induction n arbitrary: y')
  case (Suc n)
  then obtain z where z: "(chat_step c ^^ n) y z" "chat_step c z y'" by auto
  from Suc.IH [OF z(1)] chat_step_work [OF z(2)] show ?case by simp
qed simp

text \<open>The receive thread \<open>i\<close> was created after \<open>ts\<close>; what each phase of the main thread knows of it.\<close>

definition chat_wf :: "nat \<Rightarrow> threads \<Rightarrow> chat \<Rightarrow> bool" where
  "chat_wf i ts y \<longleftrightarrow> created (tthreads (console y)) = created ts @ [i]
     \<and> (mainp y = Reading \<longleftrightarrow> crunning (me y)) \<and> recvp y \<noteq> Not_running
     \<and> (if mainp y = Ended
        then recvp y = Returned \<and> joined (tthreads (console y)) = joined ts @ [i]
          \<and> recv_thread (me y) = mk_thread
        else joined (tthreads (console y)) = joined ts
          \<and> recv_thread (me y) = \<lparr>tid = i, started = True\<rparr>)"

lemma main_turn_wf: "chat_wf i ts y \<Longrightarrow> mainp y = Reading \<Longrightarrow> chat_wf i ts (main_turn c y)"
proof (cases rule: main_turn_cases [of y c])
  case (line l ls go t)
  assume wf: "chat_wf i ts y" "mainp y = Reading"
  have "tthreads t = tthreads (console y)"
    using send_line_frame(2) [of c "me y" l "(console y)\<lparr>stdin := ls\<rparr>"] line(2) by simp
  with wf line(3) show ?thesis by (cases go) (simp_all add: chat_wf_def)
qed (simp add: chat_wf_def)

lemma recv_turn_wf:
  assumes "chat_wf i ts y" "recvp y = Checking \<or> recvp y = Receiving"
  shows "chat_wf i ts (recv_turn c y)"
  using assms(2)
proof (cases rule: recv_turn_cases [where c = c])
  case check
  then show ?thesis using assms by (cases "mainp y") (simp_all add: chat_wf_def)
next
  case (gone t)
  then show ?thesis using assms c_recv_frame(3) [of c "me y" "console y"] by (simp add: chat_wf_def)
next
  case (got l t)
  then show ?thesis using assms c_recv_frame(3) [of c "me y" "console y"] by (auto simp: chat_wf_def)
qed

lemma chat_step_wf: "chat_step c y y' \<Longrightarrow> chat_wf i ts y \<Longrightarrow> chat_wf i ts y'"
proof (induction rule: chat_step.induct)
  case (join y)
  then show ?case
    by (simp add: chat_wf_def jt_join_def pthread_join_def mk_thread_def)
       (simp add: join_and_leave_def case_prod_unfold Let_def)
qed (simp_all add: main_turn_wf recv_turn_wf)

lemma chat_steps_wf: "(chat_step c ^^ n) y y' \<Longrightarrow> chat_wf i ts y \<Longrightarrow> chat_wf i ts y'"
  by (induction n arbitrary: y') (auto intro: chat_step_wf)

lemma send_loop_begin_wf:
  assumes "attr_ok env" "create_rc env = 0" "\<not> started (recv_thread cl)"
  shows "chat_wf (new_tid env) (tthreads t) (send_loop_begin c env cl t)
    \<and> mainp (send_loop_begin c env cl t) = Reading"
  using assms by (simp add: send_loop_begin_def case_prod_unfold Let_def jt_start_def attr_valid_def
      mk_attr_def pthread_create_def chat_wf_def)


subsection \<open>What the user's lines become\<close>

text \<open>What the lines typed are to become on the wire.\<close>

fun typed :: "string list \<Rightarrow> string" where
  "typed [] = []"
| "typed (l # ls) =
     (if l = ''/help'' then typed ls
      else if l = ''exit'' \<or> l = ''quit'' then serialise make_exit
      else serialise (make_msg l) @ typed ls)"

definition outgoing :: "chat \<Rightarrow> string option" where
  "outgoing y = map_option tx (socks (tkern (console y)) (fd (sock_fd (me y))))"

definition clear_way :: "chat \<Rightarrow> bool" where
  "clear_way y \<longleftrightarrow> (\<exists>s. socks (tkern (console y)) (fd (sock_fd (me y))) = Some s \<and> sends s = [] \<and> \<not> shut s)"

text \<open>What the main thread has sent and has yet to send makes \<open>all\<close>.\<close>

definition sent_plan :: "cipher \<Rightarrow> string \<Rightarrow> chat \<Rightarrow> bool" where
  "sent_plan c plan y \<longleftrightarrow> (if mainp y = Reading
     then clear_way y \<and> (\<exists>out. outgoing y = Some (encrypt c out) \<and> out @ typed (stdin (console y)) = plan)
     else outgoing y = Some (encrypt c plan))"

lemma c_send_clear:
  assumes "socks (tkern t) (fd (sock_fd cl)) = Some s" "sends s = []" "\<not> shut s"
  shows "socks (tkern (snd (c_send_encrypted c cl m t))) (fd (sock_fd cl)) = Some (s\<lparr>tx := tx s @ encrypt c m\<rparr>)"
  using assms by (cases m) (simp_all add: c_send_encrypted_def csend_from.simps [of _ _ 0]
      csend_from.simps [of _ _ "Suc _"] sys_send_def Let_def encrypt_Cons encrypt_append)

lemma crecv_sock: "map_option (\<lambda>s. (tx s, sends s, shut s)) (socks (snd (crecv_bytes c f buf k)) g)
    = map_option (\<lambda>s. (tx s, sends s, shut s)) (socks k g)"
proof (induction c f buf k rule: crecv_bytes.induct)
  case (1 c f buf k)
  obtain r k1 where s: "sys_recv f k = (r, k1)" by force
  have "map_option (\<lambda>s. (tx s, sends s, shut s)) (socks k1 g) = map_option (\<lambda>s. (tx s, sends s, shut s)) (socks k g)"
    using s by (auto simp: sys_recv_def split: option.splits if_splits list.splits)
  with 1 s show ?case
    by (cases r) (auto simp: crecv_bytes.simps [of c f buf k] Let_def)
qed

lemma c_recv_sock: "map_option (\<lambda>s. (tx s, sends s, shut s)) (socks (tkern (snd (c_recv_line c cl t))) g)
    = map_option (\<lambda>s. (tx s, sends s, shut s)) (socks (tkern t) g)"
  using crecv_sock by (simp add: c_recv_line_def case_prod_unfold Let_def)

lemma sent_plan_cong:
  assumes "sock_fd (me y') = sock_fd (me y)" "stdin (console y') = stdin (console y)" "mainp y' = mainp y"
    and "map_option (\<lambda>s. (tx s, sends s, shut s)) (socks (tkern (console y')) (fd (sock_fd (me y))))
      = map_option (\<lambda>s. (tx s, sends s, shut s)) (socks (tkern (console y)) (fd (sock_fd (me y))))"
  shows "sent_plan c plan y' = sent_plan c plan y"
proof -
  have "outgoing y' = outgoing y" "clear_way y' = clear_way y"
    using assms(1,4) by (auto simp: outgoing_def clear_way_def map_option_case split: option.splits)
  then show ?thesis using assms by (simp add: sent_plan_def)
qed

lemma outgoing_stop [simp]: "outgoing (stop_sending y) = outgoing y"
  by (simp add: outgoing_def stop_sending_def fd_shutdown_rdwr_def sys_shutdown_def split: option.splits)

lemma main_turn_sent:
  assumes "sent_plan c plan y" "mainp y = Reading"
  shows "sent_plan c plan (main_turn c y)"
proof -
  from assms obtain out s where out: "out @ typed (stdin (console y)) = plan"
    and s: "socks (tkern (console y)) (fd (sock_fd (me y))) = Some s" "sends s = []" "\<not> shut s" "tx s = encrypt c out"
    by (auto simp: sent_plan_def clear_way_def outgoing_def)
  show ?thesis
  proof (cases rule: main_turn_cases [of y c])
    case eof
    with assms out s show ?thesis by (simp add: sent_plan_def)
  next
    case (line l ls go t)
    let ?t = "(console y)\<lparr>stdin := ls\<rparr>"
    have sent: "socks (tkern (snd (c_send_encrypted c (me y) m ?t))) (fd (sock_fd (me y)))
        = Some (s\<lparr>tx := encrypt c (out @ m)\<rparr>)" for m
      using c_send_clear [of ?t "me y" s c m] s by (simp add: encrypt_append)
    have t: "stdin t = ls"
      using send_line_frame(1) [of c "me y" l ?t] line(2) by simp
    have e: "send_line c (me y) l ?t = (go, t)" by (fact line(2))
    show ?thesis
    proof (cases "l = ''exit'' \<or> l = ''quit''")
      case True
      then have l: "l \<noteq> ''/help''" by auto
      with True e have "\<not> go" "t = snd (c_send_encrypted c (me y) (serialise make_exit) ?t)"
        by (auto simp: send_line_def case_prod_unfold Let_def)
      with line(1,3) True l out sent [of "serialise make_exit"] assms(2) show ?thesis
        by (simp add: sent_plan_def) (simp add: outgoing_def)
    next
      case False
      show ?thesis
      proof (cases "l = ''/help''")
        case True
        with e have "go" "t = print help_text ?t" by (auto simp: send_line_def)
        with line(1,3) True out s assms(2) show ?thesis
          by (simp add: sent_plan_def clear_way_def outgoing_def)
      next
        case nohelp: False
        with False e have "go" "t = print ''You: '' (snd (c_send_encrypted c (me y) (serialise (make_msg l)) ?t))"
          by (auto simp: send_line_def case_prod_unfold Let_def)
        with line(1,3) False nohelp out s(2,3) sent [of "serialise (make_msg l)"] assms(2) show ?thesis
          by (simp add: sent_plan_def clear_way_def outgoing_def)
      qed
    qed
  qed
qed

lemma chat_step_sent: "chat_step c y y' \<Longrightarrow> sent_plan c plan y \<Longrightarrow> sent_plan c plan y'"
proof (induction rule: chat_step.induct)
  case (recv y)
  from recv(1) have "sent_plan c plan (recv_turn c y) = sent_plan c plan y"
  proof (cases rule: recv_turn_cases [where c = c])
    case check
    then show ?thesis by (intro sent_plan_cong) simp_all
  next
    case (gone t)
    with c_recv_sock [of c "me y" "console y"] c_recv_frame(1) [of c "me y" "console y"] show ?thesis
      by (intro sent_plan_cong) simp_all
  next
    case (got l t)
    with c_recv_sock [of c "me y" "console y"] c_recv_frame(1) [of c "me y" "console y"] show ?thesis
      by (intro sent_plan_cong) simp_all
  qed
  with recv show ?case by simp
next
  case (join y)
  then show ?case by (simp add: sent_plan_def outgoing_def)
qed (simp add: main_turn_sent)

lemma chat_steps_sent: "(chat_step c ^^ n) y y' \<Longrightarrow> sent_plan c plan y \<Longrightarrow> sent_plan c plan y'"
  by (induction n arbitrary: y') (auto intro: chat_step_sent)

lemma send_loop_begin_sent:
  assumes "attr_ok env" "create_rc env = 0" "\<not> started (recv_thread cl)"
    and "socks (tkern t) (fd (sock_fd cl)) = Some s" "sends s = []" "\<not> shut s" "tx s = encrypt c out"
  shows "sent_plan c (out @ typed (stdin t)) (send_loop_begin c env cl t)"
  using assms c_recv_sock [of c "cl\<lparr>crunning := True\<rparr>" t "fd (sock_fd cl)"]
  by (auto simp: send_loop_begin_def case_prod_unfold Let_def jt_start_def attr_valid_def
      mk_attr_def pthread_create_def sent_plan_def clear_way_def outgoing_def map_option_case
      split: option.splits)


subsection \<open>From the keyboard of one client to the screen of another\<close>

text \<open>C12: a text that is neither empty nor a command or \<open>exit\<close> and that a client sends from a room arrives: the
  frame the client makes of it is handled as a chat text, every active member of the room under
  another name gets one frame, and the client there prints one line with the sender's name and
  the text, and, twice, the name of the room.\<close>

theorem message_end_to_end:
  assumes "chat_inv h u w" and "current_room h \<noteq> []" and "length l \<le> MAX_MSG_LEN"
    and "l \<noteq> []" and "strip_eol l = l" and "hd l \<noteq> slash" and "l \<noteq> ''exit''" and "l \<noteq> ''quit''"
    and "nl \<notin> set l" and "nl \<notin> set u" and "nl \<notin> set (current_room h)"
  shows "typed [l] = frame_body (make_msg l) @ [nl] \<and>
    (\<exists>w' line. chat_line c place h (frame_body (make_msg l)) w = Some (True, h, w') \<and> nl \<notin> set line
      \<and> (\<forall>p. in_room (rman w) (current_room h) p \<and> wants (wstore w) u p \<longrightarrow>
           got (encrypt c (line @ [nl])) (wstore w) p (wstore w'))
      \<and> (\<forall>t. show_line line t = print ([cr] @ ''['' @ u @ '']: ['' @ current_room h @ ''] [''
               @ current_room h @ ''] '' @ l @ [nl] @ ''You: '') t))"
proof
  have "l \<noteq> ''/help''" using assms(6) by auto
  then show "typed [l] = frame_body (make_msg l) @ [nl]" using assms(7,8) by (simp add: serialise_frame)
  let ?t = "room_tag (current_room h) l"
  let ?m = "make_bcast u (room_tag (current_room h) ?t)"
  have "rm_wf (rman w) (wstore w)" "fds_distinct (wstore w)" "store_wf (wstore w)"
    using assms(1) by (simp_all add: chat_inv_def world_wf_def)
  from broadcast_to_room_delivery [OF this, of c "current_room h" u ?t] obtain st
    where b: "broadcast_to_room c (current_room h) u ?t (rman w) (wstore w) = Some st"
      and d: "delivery (encrypt c (serialise ?m)) (wstore w)
        {p. in_room (rman w) (current_room h) p \<and> wants (wstore w) u p} st" by blast
  have p: "parse (frame_body (make_msg l)) = make_msg l"
    using parse_serialise_gen [of "make_msg l"] assms(4,5) by (simp add: serialise_frame make_msg_def)
  have x: "\<not> is_exit (frame_body (make_msg l))"
    using assms(4,7,8) p by (auto simp: is_exit_def make_msg_def frame_body_def)
  let ?w = "(w_log DEBUG (''MSG from '' @ u @ '': '' @ l) w)\<lparr>wstore := st\<rparr>"
  have "chat_line c place h (frame_body (make_msg l)) w = chat_text c h l w"
    using x p assms(4,6) by (simp add: chat_line_def make_msg_def)
  also have "\<dots> = Some (True, h, ?w)"
    using assms(2,3) b name_of_chat [OF assms(1)] by (simp add: chat_text_def room_tag_def Let_def)
  finally have line: "chat_line c place h (frame_body (make_msg l)) w = Some (True, h, ?w)" .
  have "?t \<noteq> []" "strip_eol ?t = ?t"
    using strip_eol_front [OF assms(4,5), of "''['' @ current_room h @ ''] ''"] by (simp_all add: room_tag_def)
  from parse_room_text [OF this, of u "current_room h"]
  have m: "parse (frame_body ?m) = \<lparr>msg_type = ''BCAST'', payload = ''['' @ u @ '']: [''
      @ current_room h @ ''] ['' @ current_room h @ ''] '' @ l\<rparr>"
    by (simp add: serialise_frame room_tag_def)
  have n: "nl \<notin> set (frame_body ?m)"
    using assms(9-11) by (auto simp: make_bcast_def room_tag_def)
  show "\<exists>w' line. chat_line c place h (frame_body (make_msg l)) w = Some (True, h, w') \<and> nl \<notin> set line
      \<and> (\<forall>p. in_room (rman w) (current_room h) p \<and> wants (wstore w) u p \<longrightarrow>
           got (encrypt c (line @ [nl])) (wstore w) p (wstore w'))
      \<and> (\<forall>t. show_line line t = print ([cr] @ ''['' @ u @ '']: ['' @ current_room h @ ''] [''
               @ current_room h @ ''] '' @ l @ [nl] @ ''You: '') t)"
  proof (intro exI [of _ ?w] exI [of _ "frame_body ?m"] conjI allI impI)
    show "show_line (frame_body ?m) t = print ([cr] @ ''['' @ u @ '']: ['' @ current_room h @ ''] [''
               @ current_room h @ ''] '' @ l @ [nl] @ ''You: '') t" for t
      by (simp add: show_line_def m)
  qed (use line n d in \<open>simp_all add: delivery_def serialise_frame\<close>)
qed

text \<open>The server's banner has two lines; the client shows the first, and its receive thread drops the
  second, the list of commands, because it is no frame.\<close>

lemma dialogue_me: "sock_fd cl' = sock_fd cl \<Longrightarrow> dialogue c cl i out ls txt t = dialogue c cl' i out ls txt t"
  by (simp add: dialogue_def)

theorem banner_commands_dropped:
  assumes "attr_ok env" and "create_rc env = 0" and "\<not> started (recv_thread cl)"
  shows "\<exists>shown hidden. chat_banner = shown @ nl # hidden @ [nl] \<and> hidden \<noteq> []
    \<and> stdout (console (recv_turn c (recv_turn c
        (send_loop_begin c env cl (dialogue c cl (chat_banner @ i) out ls txt t)))))
      = txt @ ''[SERVER] '' @ shown @ [nl] @ ''You: ''"
proof -
  define shown where "shown = ''Type your message and press Enter. Type '' @ [CHR 0x27] @ ''exit''
      @ [CHR 0x27] @ '' to quit.''"
  define hidden where "hidden = ''Commands: /join room, /leave, /pm user msg''"
  have b: "chat_banner = shown @ nl # hidden @ [nl]" by (simp add: chat_banner_def shown_def hidden_def)
  have n: "nl \<notin> set shown" "nl \<notin> set hidden" "shown \<noteq> []" "hidden \<noteq> []" by (simp_all add: shown_def hidden_def)
  let ?c1 = "cl\<lparr>crunning := True\<rparr>" and ?ts = "(tthreads t)\<lparr>created := created (tthreads t) @ [new_tid env]\<rparr>"
  let ?c2 = "?c1\<lparr>recv_thread := \<lparr>tid = new_tid env, started = True\<rparr>\<rparr>"
  let ?out = "txt @ ''[SERVER] '' @ shown @ [nl] @ ''You: ''"
  have "send_loop_begin c env cl (dialogue c cl (chat_banner @ i) out ls txt t)
      = \<lparr>me = ?c2, console = (dialogue c ?c1 (hidden @ nl # i) out ls ?out t)\<lparr>tthreads := ?ts\<rparr>,
         mainp = Reading, recvp = Checking\<rparr>"
    using assms n dialogue_me [of ?c1 cl c "chat_banner @ i" out ls "txt" t]
    by (simp add: send_loop_begin_def b jt_start_def attr_valid_def mk_attr_def pthread_create_def Let_def)
       (simp add: dialogue_def print_def)
  moreover have "(dialogue c ?c1 (hidden @ nl # i) out ls ?out t)\<lparr>tthreads := ?ts\<rparr>
      = dialogue c ?c2 (hidden @ nl # i) out ls ?out (t\<lparr>tthreads := ?ts\<rparr>)" by (simp add: dialogue_def)
  moreover have "parse hidden = \<lparr>msg_type = ''Commands'', payload = '' /join room, /leave, /pm user msg''\<rparr>"
    using parse_tagged [of "''Commands''" "'' /join room, /leave, /pm user msg''"]
    by (simp add: hidden_def strip_eol_clean)
  ultimately show ?thesis using n b
    by (intro exI [of _ shown] exI [of _ hidden]) (simp add: recv_turn_def show_line_def)
qed

subsection \<open>What the client leaves behind\<close>

text \<open>No operation but the destructor and \<open>connect_to_server\<close> closes a descriptor, and only the
  start and the join of the receive thread touch threads.\<close>

definition keeps :: "terminal \<Rightarrow> terminal \<Rightarrow> bool" where
  "keeps t t' \<longleftrightarrow> closes (tkern t') = closes (tkern t) \<and> tthreads t' = tthreads t"

lemma keeps_refl [simp]: "keeps t t" by (simp add: keeps_def)

lemma keeps_trans: "keeps t t1 \<Longrightarrow> keeps t1 t2 \<Longrightarrow> keeps t t2" by (simp add: keeps_def)

lemma crecv_closes: "closes (snd (crecv_bytes c f buf k)) = closes k"
proof (induction c f buf k rule: crecv_bytes.induct)
  case (1 c f buf k)
  obtain r k1 where s: "sys_recv f k = (r, k1)" by force
  have "closes k1 = closes k" using sys_recv_frame(1) [of f k] s by simp
  with 1 s show ?case by (cases r) (auto simp: crecv_bytes.simps [of c f buf k] Let_def)
qed

lemma keeps_recv: "c_recv_line c cl t = (l, t') \<Longrightarrow> keeps t t'"
  using crecv_closes by (auto simp: keeps_def c_recv_line_def case_prod_unfold Let_def)

lemma keeps_send: "c_send_encrypted c cl m t = (b, t') \<Longrightarrow> keeps t t'"
  using client_send.keeps_closes by (auto simp: keeps_def c_send_encrypted_def case_prod_unfold Let_def)

lemma keeps_read: "read_stdin t = (x, t') \<Longrightarrow> keeps t t'"
  using read_stdin_left [of t x t'] by (simp add: keeps_def)

lemma keeps_print [simp]: "keeps (print s t) t' = keeps t t'" "keeps t (print s t') = keeps t t'"
  by (simp_all add: keeps_def)

lemmas keeps_ops = keeps_recv keeps_send keeps_read

lemma keeps_register: "do_register c cl t = (a, t') \<Longrightarrow> keeps t t'"
  by (auto simp: do_register_def Let_def split: prod.splits option.splits dest!: keeps_ops)
     (simp_all add: keeps_def)

lemma keeps_login: "do_login c cl t = (a, t') \<Longrightarrow> keeps t t'"
  by (auto simp: do_login_def Let_def split: prod.splits option.splits dest!: keeps_ops)
     (simp_all add: keeps_def)

lemma keeps_auth_once: "auth_once_client c cl t = (r, t') \<Longrightarrow> keeps t t'"
  by (auto simp: auth_once_client_def Let_def split: prod.splits option.splits if_splits
      dest!: keeps_ops keeps_register keeps_login) (simp_all add: keeps_def)

lemma keeps_auth: "auth_loop c cl t = (r, t') \<Longrightarrow> keeps t t'"
proof (induction c cl t arbitrary: r t' rule: auth_loop.induct)
  case (1 c cl t)
  obtain x t1 where o: "auth_once_client c cl t = (x, t1)" by force
  note k = keeps_auth_once [OF o]
  show ?case
  proof (cases "x = Auth False")
    case True
    with "1.IH" [OF o [symmetric] True] "1.prems" o have "keeps t1 t'" by (simp add: auth_loop.simps [of c cl t])
    with k show ?thesis by (rule keeps_trans)
  next
    case False
    with "1.prems" o k show ?thesis by (cases x) (auto simp: auth_loop.simps [of c cl t] split: bool.splits)
  qed
qed

text \<open>Closed descriptors and the client's socket along the chat.\<close>

lemma chat_step_fd: "chat_step c y y' \<Longrightarrow>
    closes (tkern (console y')) = closes (tkern (console y)) \<and> sock_fd (me y') = sock_fd (me y)"
proof (induction rule: chat_step.induct)
  case (main y)
  have stop: "closes (tkern (console (stop_sending z))) = closes (tkern (console z))" for z
    by (simp add: stop_sending_def fd_shutdown_rdwr_def sys_shutdown_def split: option.splits)
  show ?case
  proof (cases rule: main_turn_cases [of y c])
    case eof
    then show ?thesis by (simp add: stop)
  next
    case (line l ls go t)
    from line(2) have "keeps ((console y)\<lparr>stdin := ls\<rparr>) t"
      by (auto simp: send_line_def Let_def split: if_splits prod.splits dest: keeps_send)
    with line show ?thesis by (simp add: keeps_def stop)
  qed
next
  case (recv y)
  from recv show ?case
    by (cases rule: recv_turn_cases [where c = c]) (auto simp: keeps_def dest!: keeps_recv)
qed simp

lemma chat_steps_fd: "(chat_step c ^^ n) y y' \<Longrightarrow>
    closes (tkern (console y')) = closes (tkern (console y)) \<and> sock_fd (me y') = sock_fd (me y)"
  by (induction n arbitrary: y') (auto dest: chat_step_fd)

lemma no_steps: "(chat_step c ^^ n) y y' \<Longrightarrow> mainp y = Ended \<Longrightarrow> recvp y = Not_running \<Longrightarrow> y' = y"
proof (induction n arbitrary: y')
  case (Suc n)
  then obtain z where z: "(chat_step c ^^ n) y z" "chat_step c z y'" by auto
  from Suc.IH [OF z(1) Suc.prems(2,3)] z(2) have "chat_step c y y'" by simp
  then show ?case using Suc.prems(2,3) by cases simp_all
qed simp

lemma connect_eff:
  assumes "connect_to_server env (mk_client hh pp) t = (r, cl, t1)"
  shows "fd (sock_fd cl) = csock_ret env \<and> closes (tkern t1) = closes (tkern t) \<and> tthreads t1 = tthreads t
    \<and> recv_thread cl = mk_thread"
  using assms by (auto simp: connect_to_server_def mk_client_def fd_default_def fd_reset_def t_log_def
      Let_def split: if_splits)

lemma destroy_eff:
  "closes (tkern (client_destroy cl t)) = closes (tkern t) @ (if 0 \<le> fd (sock_fd cl) then [fd (sock_fd cl)] else [])"
  "tthreads (client_destroy cl t) = snd (jt_join (recv_thread cl) (tthreads t))"
  by (simp_all add: client_destroy_def fd_valid_def fd_reset_def fd_destroy_def fd_shutdown_rdwr_def
      sys_shutdown_def sys_close_def jt_destroy_def Let_def split: option.splits)

text \<open>The chat is over: either its thread was joined, or none was started.\<close>

lemma chat_over:
  assumes "recv_thread cl = mk_thread" "(chat_step c ^^ n) (send_loop_begin c sp cl t) y" "mainp y = Ended"
  shows "\<not> started (recv_thread (me y)) \<and> (\<exists>new. created (tthreads (console y)) = created (tthreads t) @ new
    \<and> joined (tthreads (console y)) = joined (tthreads t) @ new)"
proof (cases "attr_ok sp \<and> create_rc sp = 0")
  case True
  have "chat_wf (new_tid sp) (tthreads t) y"
    by (rule chat_steps_wf [OF assms(2)]) (use True assms(1) send_loop_begin_wf [of sp cl t c] in
      \<open>simp add: mk_thread_def\<close>)
  with assms(3) show ?thesis by (auto simp: chat_wf_def mk_thread_def)
next
  case False
  then have b: "mainp (send_loop_begin c sp cl t) = Ended" "recvp (send_loop_begin c sp cl t) = Not_running"
    "tthreads (console (send_loop_begin c sp cl t)) = tthreads t"
    "\<not> started (recv_thread (me (send_loop_begin c sp cl t)))"
    using assms(1) by (auto simp: send_loop_begin_def case_prod_unfold Let_def jt_start_def attr_valid_def
        mk_attr_def pthread_create_def mk_thread_def t_log_def)
  from no_steps [OF assms(2) b(1,2)] b show ?thesis by auto
qed

lemma send_loop_begin_fd:
  "closes (tkern (console (send_loop_begin c sp cl t))) = closes (tkern t)
   \<and> sock_fd (me (send_loop_begin c sp cl t)) = sock_fd cl"
  using crecv_closes by (simp add: send_loop_begin_def case_prod_unfold Let_def c_recv_line_def t_log_def)

text \<open>C24: whichever way \<open>run\<close> ends, with an exception out of the connection or the authentication, without a
  receive thread, or after any interleaving of the chat, once the client object is destroyed its
  socket, if it got one, has been closed exactly once, and each thread it created has been joined exactly once.\<close>

theorem client_releases_all:
  assumes "client_run c env sp (mk_client hh pp) t = (r, y0)"
    and "(chat_step c ^^ n) y0 y" and "mainp y = Ended"
  shows "closes (tkern (client_destroy (me y) (console y)))
      = closes (tkern t) @ (if 0 \<le> csock_ret env then [csock_ret env] else [])
    \<and> (\<exists>new. created (tthreads (client_destroy (me y) (console y))) = created (tthreads t) @ new
      \<and> joined (tthreads (client_destroy (me y) (console y))) = joined (tthreads t) @ new)"
proof -
  obtain r1 cl t1 where c: "connect_to_server env (mk_client hh pp) t = (r1, cl, t1)" by (metis prod_cases3)
  obtain r2 t2 where a: "auth_loop c cl t1 = (r2, t2)" by force
  note ce = connect_eff [OF c] and ka = keeps_auth [OF a, unfolded keeps_def]
  consider (early) t3 where "y0 = \<lparr>me = cl, console = t3, mainp = Ended, recvp = Not_running\<rparr>"
      "closes (tkern t3) = closes (tkern t)" "tthreads t3 = tthreads t"
    | (chat) "y0 = send_loop_begin c sp cl t2"
    using assms(1) c a ce ka by (cases r1; cases r2) (auto simp: client_run_def)
  then show ?thesis
  proof cases
    case early
    then have "y = y0" using no_steps [OF assms(2)] by simp
    with early ce show ?thesis by (simp add: destroy_eff jt_join_def mk_thread_def)
  next
    case chat
    note o = chat_over [OF _ assms(2) [unfolded chat] assms(3)]
    note f = chat_steps_fd [OF assms(2)] send_loop_begin_fd [of c sp cl t2]
    show ?thesis using o ce ka f chat by (simp add: destroy_eff jt_join_def)
  qed
qed

subsection \<open>A chat\<close>

definition demo_env :: spawn_env where
  "demo_env = \<lparr>attr_ok = True, create_rc = 0, new_tid = 5\<rparr>"

definition typing :: "string list \<Rightarrow> terminal" where
  "typing ls = dialogue default_cipher (demo_client 7) [] [] ls [] (demo_terminal shaky_kernel ls)"

text \<open>The user says hello and leaves; the receive thread notices that the connection is down.\<close>

definition demo_start :: chat where
  "demo_start = send_loop_begin default_cipher demo_env (demo_client 7) (typing [''hello'', ''exit''])"

definition demo_end :: chat where
  "demo_end = join_and_leave (recv_turn default_cipher
     (main_turn default_cipher (main_turn default_cipher demo_start)))"

lemma demo_start_wf: "chat_wf 5 (tthreads (typing [''hello'', ''exit''])) demo_start"
  "mainp demo_start = Reading" "crunning (me demo_start)"
proof -
  show wf: "chat_wf 5 (tthreads (typing [''hello'', ''exit''])) demo_start" and m: "mainp demo_start = Reading"
    using send_loop_begin_wf [of demo_env "demo_client 7" "typing [''hello'', ''exit'']" default_cipher]
    by (simp_all add: demo_env_def mk_thread_def demo_start_def)
  from wf m show "crunning (me demo_start)" by (simp add: chat_wf_def)
qed

lemma demo_start_parts: "stdin (console demo_start) = [''hello'', ''exit'']" "recvp demo_start = Checking"
  by (simp_all add: demo_start_def send_loop_begin_def case_prod_unfold Let_def demo_env_def jt_start_def
      mk_thread_def attr_valid_def mk_attr_def pthread_create_def typing_def)

lemma demo_steps: "(chat_step default_cipher ^^ 4) demo_start demo_end \<and> mainp demo_end = Ended"
proof -
  let ?c = default_cipher
  define y1 where "y1 = main_turn ?c demo_start"
  define y2 where "y2 = main_turn ?c y1"
  define y3 where "y3 = recv_turn ?c y2"
  have y1: "mainp y1 = Reading" "stdin (console y1) = [''exit'']" "recvp y1 = Checking"
    using demo_start_parts demo_start_wf(2)
    by (simp_all add: y1_def main_turn_def read_stdin_def send_line_def case_prod_unfold Let_def)
  have y2: "mainp y2 = Joining" "recvp y2 = Checking" "\<not> crunning (me y2)"
    using y1 by (simp_all add: y2_def main_turn_def read_stdin_def send_line_def case_prod_unfold Let_def)
  have y3: "mainp y3 = Joining" "recvp y3 = Returned" using y2 by (simp_all add: y3_def recv_turn_def)
  have e: "demo_end = join_and_leave y3" by (simp add: demo_end_def y3_def y2_def y1_def)
  have s: "chat_step ?c demo_start y1" "chat_step ?c y1 y2" "chat_step ?c y2 y3" "chat_step ?c y3 demo_end"
    using chat_step.main [OF demo_start_wf(2), of ?c] chat_step.main [OF y1(1), of ?c]
      chat_step.recv [of y2 ?c] chat_step.join [OF y3, of ?c] y2 by (simp_all add: y1_def y2_def y3_def e)
  have "(chat_step ?c ^^ Suc (Suc (Suc (Suc 0)))) demo_start demo_end"
    by (rule relpowp_Suc_I [OF relpowp_Suc_I [OF relpowp_Suc_I [OF relpowp_Suc_I [OF relpowp_0_I]]]]) (fact s)+
  then show ?thesis by (simp add: e numeral_Bit0 del: relpowp.simps)
qed



theorem message_end_to_end_witness:
  "\<exists>w' line. chat_line default_cipher append_place alice (frame_body (make_msg ''hi'')) (demo_world [])
      = Some (True, alice, w')
    \<and> got (encrypt default_cipher (line @ [nl])) (wstore (demo_world [])) 2 (wstore w')
    \<and> (\<forall>t. show_line line t = print ([cr] @ ''[alice]: [lobby] [lobby] hi'' @ [nl] @ ''You: '') t)"
proof -
  have n: "nl \<notin> set (current_room alice)" "''hi'' \<noteq> []" "strip_eol ''hi'' = ''hi''" "length ''hi'' \<le> MAX_MSG_LEN"
    by (simp_all add: strip_eol_clean MAX_MSG_LEN_def)
  have "\<exists>w' line. chat_line default_cipher append_place alice (frame_body (make_msg ''hi'')) (demo_world [])
      = Some (True, alice, w') \<and> nl \<notin> set line
    \<and> (\<forall>p. in_room (rman (demo_world [])) (current_room alice) p \<and> wants (wstore (demo_world [])) ''alice'' p \<longrightarrow>
      got (encrypt default_cipher (line @ [nl])) (wstore (demo_world [])) p (wstore w'))
    \<and> (\<forall>t. show_line line t = print ([cr] @ ''['' @ ''alice'' @ '']: ['' @ current_room alice @ ''] [''
        @ current_room alice @ ''] '' @ ''hi'' @ [nl] @ ''You: '') t)"
    by (rule message_end_to_end [OF demo_chat _ n(4) n(2,3) _ _ _ _ _ n(1), THEN conjunct2]) simp_all
  then obtain w' line where
    w: "chat_line default_cipher append_place alice (frame_body (make_msg ''hi'')) (demo_world []) = Some (True, alice, w')"
    and g: "\<And>p. in_room (rman (demo_world [])) (current_room alice) p \<and> wants (wstore (demo_world [])) ''alice'' p \<longrightarrow>
      got (encrypt default_cipher (line @ [nl])) (wstore (demo_world [])) p (wstore w')"
    and s: "\<And>t. show_line line t = print ([cr] @ ''['' @ ''alice'' @ '']: ['' @ current_room alice @ ''] [''
        @ current_room alice @ ''] '' @ ''hi'' @ [nl] @ ''You: '') t" by metis
  from g [of 2] have "got (encrypt default_cipher (line @ [nl])) (wstore (demo_world [])) 2 (wstore w')" by simp
  with w s show ?thesis by (intro exI [of _ w'] exI [of _ line]) simp
qed

theorem client_releases_all_witness:
  "\<exists>y0. client_run default_cipher \<lparr>csock_ret = 7, addr_ok = True, connect_ok = False, cerr = ''refused'',
      peer = sock_of default_cipher [] []\<rparr> demo_env (mk_client ''127.0.0.1'' 8080) (demo_terminal shaky_kernel [])
      = (Some ''connect() failed'', y0)
    \<and> closes (tkern (client_destroy (me y0) (console y0))) = [7]"
proof -
  let ?env = "\<lparr>csock_ret = 7, addr_ok = True, connect_ok = False, cerr = ''refused'',
      peer = sock_of default_cipher [] []\<rparr>"
  let ?t = "demo_terminal shaky_kernel []"
  obtain y0 where y0: "client_run default_cipher ?env demo_env (mk_client ''127.0.0.1'' 8080) ?t
      = (Some ''connect() failed'', y0)" "mainp y0 = Ended"
    by (simp add: client_run_def connect_to_server_def mk_client_def fd_default_def fd_reset_def fd_valid_def)
  from client_releases_all [OF y0(1) relpowp_0_I y0(2)] y0(1) show ?thesis
    by (auto simp: shaky_kernel_def)
qed

end
