(* ===== verification/Programs.thy ===== *)
theory Programs
  imports Server_System Client_Chat
begin

text \<open>
  \<open>src/server/server_main.cpp\<close> and \<open>src/client/client_main.cpp\<close>: the two \<open>main\<close> functions, which
  read their options and run a server or a client. An exception that \<open>main\<close> does not catch ends the program
  through \<open>std::terminate\<close>.
\<close>

subsection \<open>Options\<close>

text \<open>\<open>parse_level\<close>, which both programs define for themselves (\<open>c_parse_level\<close> is the client's); none is the
  \<open>invalid_argument\<close> it throws.\<close>

definition parse_level :: "string \<Rightarrow> log_level option" where
  "parse_level s =
     (if s = ''FATAL'' then Some FATAL
      else if s = ''WARNING'' then Some WARNING
      else if s = ''INFO'' then Some INFO
      else if s = ''DEBUG'' then Some DEBUG
      else None)"

definition c_parse_level :: "string \<Rightarrow> log_level option" where
  "c_parse_level s =
     (if s = ''FATAL'' then Some FATAL
      else if s = ''WARNING'' then Some WARNING
      else if s = ''INFO'' then Some INFO
      else if s = ''DEBUG'' then Some DEBUG
      else None)"

lemma parse_level_same [simp]: "c_parse_level = parse_level"
  by (intro ext) (simp only: c_parse_level_def parse_level_def)

definition level_error :: "string \<Rightarrow> string" where
  "level_error s = ''[ERROR] Unknown log level: '' @ s"

text \<open>What reading the options comes to: a configuration to run with, \<open>EXIT_FAILURE\<close> after the error text, the
  usage text alone, or the exception of \<open>std::stoi\<close>.\<close>

datatype 'cfg outcome = Run 'cfg | Refuse string | Help | Uncaught stoi_exn

record server_cfg =
  s_port :: int
  s_level :: log_level
  s_file :: string

definition server_default :: server_cfg where
  "server_default = \<lparr>s_port = 8080, s_level = INFO, s_file = ''./logs/mpcc_server.log''\<rparr>"

text \<open>The loop over \<open>argv\<close>: \<open>i + 1 < argc\<close> is that another argument follows.\<close>

function server_args :: "string list \<Rightarrow> server_cfg \<Rightarrow> server_cfg outcome" where
  "server_args [] g = Run g"
| "server_args (arg # rest) g =
     (if (arg = ''--port'' \<or> arg = ''-p'') \<and> rest \<noteq> []
      then case stoi (hd rest) of
             Inl e \<Rightarrow> Uncaught e
           | Inr n \<Rightarrow> server_args (tl rest) (g\<lparr>s_port := n\<rparr>)
      else if (arg = ''--loglevel'' \<or> arg = ''-l'') \<and> rest \<noteq> []
      then case parse_level (hd rest) of
             None \<Rightarrow> Refuse (level_error (hd rest))
           | Some l \<Rightarrow> server_args (tl rest) (g\<lparr>s_level := l\<rparr>)
      else if (arg = ''--logfile'' \<or> arg = ''-f'') \<and> rest \<noteq> []
      then server_args (tl rest) (g\<lparr>s_file := hd rest\<rparr>)
      else if arg = ''--help'' \<or> arg = ''-h'' then Help
      else Refuse (''[ERROR] Unknown argument: '' @ arg))"
  by pat_completeness auto
termination
  by (relation "measure (\<lambda>(args, g). length args)") auto

record client_cfg =
  c_host :: string
  c_port :: int
  c_level :: log_level

definition client_default :: client_cfg where
  "client_default = \<lparr>c_host = ''127.0.0.1'', c_port = 8080, c_level = INFO\<rparr>"

function client_args :: "string list \<Rightarrow> client_cfg \<Rightarrow> client_cfg outcome" where
  "client_args [] g = Run g"
| "client_args (arg # rest) g =
     (if (arg = ''--host'' \<or> arg = ''-H'') \<and> rest \<noteq> []
      then client_args (tl rest) (g\<lparr>c_host := hd rest\<rparr>)
      else if (arg = ''--port'' \<or> arg = ''-p'') \<and> rest \<noteq> []
      then case stoi (hd rest) of
             Inl e \<Rightarrow> Uncaught e
           | Inr n \<Rightarrow> client_args (tl rest) (g\<lparr>c_port := n\<rparr>)
      else if (arg = ''--loglevel'' \<or> arg = ''-l'') \<and> rest \<noteq> []
      then case c_parse_level (hd rest) of
             None \<Rightarrow> Refuse (level_error (hd rest))
           | Some l \<Rightarrow> client_args (tl rest) (g\<lparr>c_level := l\<rparr>)
      else if arg = ''--help'' \<or> arg = ''-h'' then Help
      else Refuse (''[ERROR] Unknown argument: '' @ arg))"
  by pat_completeness auto
termination
  by (relation "measure (\<lambda>(args, g). length args)") auto

declare server_args.simps(2) [simp del] client_args.simps(2) [simp del]

subsection \<open>The two programs\<close>

text \<open>How a program ends: with an exit status and the lines on the error stream, by \<open>std::terminate\<close>; or it is
  still serving.\<close>

datatype main_end = Exits int "string list" | Terminates stoi_exn | Serving

definition server_usage :: "string \<Rightarrow> string" where
  "server_usage prog = ''Usage: '' @ prog @ '' [--port <port>] [--loglevel <FATAL|WARNING|INFO|DEBUG>] [--logfile <path>]''"

definition client_usage :: "string \<Rightarrow> string" where
  "client_usage prog = ''Usage: '' @ prog @ '' [--host <ip>] [--port <port>] [--loglevel <FATAL|WARNING|INFO|DEBUG>]''"

text \<open>
  \<open>main\<close> of the server. \<open>w\<close> is the shared state that the constructor makes (its log file and level are no
  part of it), \<open>es\<close> what happens in the accept loop, \<open>drain\<close> what the workers do while they
  are joined. The backlog is the constructor's default.
\<close>

definition server_main ::
    "string \<Rightarrow> string list \<Rightarrow> setup_env \<Rightarrow> accept_event list \<Rightarrow> (world \<Rightarrow> world) \<Rightarrow> world \<Rightarrow> threads
      \<Rightarrow> (main_end \<times> server option) option" where
  "server_main prog args env es drain w ts =
     (case server_args args server_default of
        Uncaught e \<Rightarrow> Some (Terminates e, None)
      | Help \<Rightarrow> Some (Exits 0 [server_usage prog], None)
      | Refuse m \<Rightarrow> Some (Exits 1 [m, server_usage prog], None)
      | Run g \<Rightarrow>
          (case start env es (mk_server (s_port g) 10 w ts) of
             (Inl e, s) \<Rightarrow> Some (Exits 1 [''[FATAL] Server failed to start: '' @ e], Some (server_destroy s))
           | (Inr False, s) \<Rightarrow> Some (Serving, Some s)
           | (Inr True, s) \<Rightarrow> do {
               s \<leftarrow> shutdown drain s;
               Some (Exits 0 [], Some (server_destroy s))
             }))"

text \<open>\<open>main\<close> of the client up to the chat, and after it: the chat is the step relation of \<open>Client\<close>.\<close>

definition client_main ::
    "cipher \<Rightarrow> string \<Rightarrow> string list \<Rightarrow> connect_env \<Rightarrow> spawn_env \<Rightarrow> terminal
      \<Rightarrow> main_end \<times> chat option" where
  "client_main c prog args env sp t =
     (case client_args args client_default of
        Uncaught e \<Rightarrow> (Terminates e, None)
      | Help \<Rightarrow> (Exits 0 [client_usage prog], None)
      | Refuse m \<Rightarrow> (Exits 1 [m, client_usage prog], None)
      | Run g \<Rightarrow>
          (case client_run c env sp (mk_client (c_host g) (c_port g)) t of
             (Some e, y) \<Rightarrow> (Exits 1 [''[FATAL] '' @ e], Some y)
           | (None, y) \<Rightarrow> (if mainp y = Ended then Exits 0 [] else Serving, Some y)))"

subsection \<open>Options written and read\<close>

datatype server_option = Opt_port int | Opt_level log_level | Opt_file string

datatype client_option = Opt_host string | Copt_port int | Copt_level log_level

fun level_name :: "log_level \<Rightarrow> string" where
  "level_name FATAL = ''FATAL''" | "level_name WARNING = ''WARNING''"
| "level_name INFO = ''INFO''" | "level_name DEBUG = ''DEBUG''"

lemma parse_level_name [simp]: "parse_level (level_name l) = Some l"
  by (cases l) (simp_all add: parse_level_def)

text \<open>An option in its short or long form.\<close>

fun write_option :: "bool \<times> server_option \<Rightarrow> string list" where
  "write_option (short, Opt_port n) = [if short then ''-p'' else ''--port'', to_string n]"
| "write_option (short, Opt_level l) = [if short then ''-l'' else ''--loglevel'', level_name l]"
| "write_option (short, Opt_file f) = [if short then ''-f'' else ''--logfile'', f]"

fun apply_option :: "bool \<times> server_option \<Rightarrow> server_cfg \<Rightarrow> server_cfg" where
  "apply_option (b, Opt_port n) g = g\<lparr>s_port := n\<rparr>"
| "apply_option (b, Opt_level l) g = g\<lparr>s_level := l\<rparr>"
| "apply_option (b, Opt_file f) g = g\<lparr>s_file := f\<rparr>"

fun write_client_option :: "bool \<times> client_option \<Rightarrow> string list" where
  "write_client_option (short, Opt_host a) = [if short then ''-H'' else ''--host'', a]"
| "write_client_option (short, Copt_port n) = [if short then ''-p'' else ''--port'', to_string n]"
| "write_client_option (short, Copt_level l) = [if short then ''-l'' else ''--loglevel'', level_name l]"

fun apply_client_option :: "bool \<times> client_option \<Rightarrow> client_cfg \<Rightarrow> client_cfg" where
  "apply_client_option (b, Opt_host a) g = g\<lparr>c_host := a\<rparr>"
| "apply_client_option (b, Copt_port n) g = g\<lparr>c_port := n\<rparr>"
| "apply_client_option (b, Copt_level l) g = g\<lparr>c_level := l\<rparr>"

definition int_range :: "int \<Rightarrow> bool" where
  "int_range n \<longleftrightarrow> - (2 ^ 31) \<le> n \<and> n < 2 ^ 31"

lemma server_args_options:
  "(\<And>b n. (b, Opt_port n) \<in> set opts \<Longrightarrow> int_range n) \<Longrightarrow>
   server_args (concat (map write_option opts) @ rest) g = server_args rest (fold apply_option opts g)"
proof (induction opts arbitrary: g)
  case (Cons x opts)
  obtain short v where x: "x = (short, v)" by force
  have IH: "server_args (concat (map write_option opts) @ rest) g' = server_args rest (fold apply_option opts g')" for g'
    by (rule Cons.IH) (use Cons.prems in auto)
  show ?case
  proof (cases v)
    case (Opt_port n)
    then have "stoi (to_string n) = Inr n"
      using Cons.prems [of short n] x by (intro stoi_to_string) (simp_all add: int_range_def)
    with Opt_port IH show ?thesis by (simp add: x server_args.simps(2))
  qed (simp_all add: x server_args.simps(2) IH)
qed simp

lemma client_args_options:
  "(\<And>b n. (b, Copt_port n) \<in> set opts \<Longrightarrow> int_range n) \<Longrightarrow>
   client_args (concat (map write_client_option opts) @ rest) g = client_args rest (fold apply_client_option opts g)"
proof (induction opts arbitrary: g)
  case (Cons x opts)
  obtain short v where x: "x = (short, v)" by force
  have IH: "client_args (concat (map write_client_option opts) @ rest) g'
      = client_args rest (fold apply_client_option opts g')" for g'
    by (rule Cons.IH) (use Cons.prems in auto)
  show ?case
  proof (cases v)
    case (Copt_port n)
    then have "stoi (to_string n) = Inr n"
      using Cons.prems [of short n] x by (intro stoi_to_string) (simp_all add: int_range_def)
    with Copt_port IH show ?thesis by (simp add: x client_args.simps(2))
  qed (simp_all add: x client_args.simps(2) IH)
qed simp

text \<open>C34: options in any number and order, each short or long, give the configuration in which the last
  of each kind holds and the default stands where there was none, for the server and for the client.\<close>

theorem options_roundtrip:
  assumes "\<And>b n. (b, Opt_port n) \<in> set opts \<Longrightarrow> int_range n"
    and "\<And>b n. (b, Copt_port n) \<in> set copts \<Longrightarrow> int_range n"
  shows "server_args (concat (map write_option opts)) g = Run (fold apply_option opts g)
    \<and> client_args (concat (map write_client_option copts)) cg = Run (fold apply_client_option copts cg)"
  using server_args_options [of opts "[]"] client_args_options [of copts "[]"] assms by simp

theorem options_roundtrip_witness:
  "server_args [''-p'', ''80'', ''--loglevel'', ''DEBUG'', ''--port'', ''443''] server_default
      = Run (server_default\<lparr>s_port := 443, s_level := DEBUG\<rparr>)
   \<and> client_args [''--port'', ''443''] client_default = Run (client_default\<lparr>c_port := 443\<rparr>)"
proof -
  have n: "to_string 80 = ''80''" "to_string 443 = ''443''" by code_simp+
  let ?opts = "[(True, Opt_port 80), (False, Opt_level DEBUG), (False, Opt_port 443)]"
  have "server_args (concat (map write_option ?opts)) server_default = Run (fold apply_option ?opts server_default)
      \<and> client_args (concat (map write_client_option [(False, Copt_port 443)])) client_default
        = Run (fold apply_client_option [(False, Copt_port 443)] client_default)"
    by (rule options_roundtrip) (auto simp: int_range_def)
  then show ?thesis by (simp add: n server_default_def)
qed

text \<open>C35: a port that is no number, or is none that fits an \<open>int\<close>, ends both programs through
  \<open>std::terminate\<close>: the exception of \<open>std::stoi\<close> leaves \<open>main\<close>, whose \<open>try\<close> block begins
  after the options, where an unknown log level or option gets an error text and the usage.\<close>

theorem bad_port_terminates:
  assumes "stoi v = Inl e" and "\<And>b n. (b, Opt_port n) \<in> set opts \<Longrightarrow> int_range n"
    and "\<And>b n. (b, Copt_port n) \<in> set copts \<Longrightarrow> int_range n"
  shows "server_main prog (concat (map write_option opts) @ ''--port'' # v # rest) env es drain w ts
      = Some (Terminates e, None)
    \<and> client_main c prog (concat (map write_client_option copts) @ ''--port'' # v # rest) cenv sp t
      = (Terminates e, None)
    \<and> (parse_level v = None \<longrightarrow>
        server_main prog (concat (map write_option opts) @ ''--loglevel'' # v # rest) env es drain w ts
        = Some (Exits 1 [level_error v, server_usage prog], None))"
  using assms(1) server_args_options [OF assms(2)] client_args_options [OF assms(3)]
  by (simp add: server_main_def client_main_def server_args.simps(2) client_args.simps(2))

theorem bad_port_terminates_witness:
  "\<forall>env es drain w ts. server_main ''mpcc_server'' [''--port'', ''http''] env es drain w ts
     = Some (Terminates Invalid_argument, None)"
proof (intro allI)
  fix env es drain w ts
  have e: "stoi ''http'' = Inl Invalid_argument" by (simp add: stoi_def isspace_def isdigit_def)
  show "server_main ''mpcc_server'' [''--port'', ''http''] env es drain w ts
      = Some (Terminates Invalid_argument, None)"
    using bad_port_terminates [OF e, of "[]" "[]" "''mpcc_server''" "[]" env es drain w ts] by simp
qed

text \<open>The command line of the README, \<open>./mpcc_server <port>\<close>, is refused.\<close>

theorem positional_port_refused:
  "server_main prog [to_string n] env es drain w ts
    = Some (Exits 1 [''[ERROR] Unknown argument: '' @ to_string n, server_usage prog], None)" if "0 \<le> n"
proof -
  have "isdigit (hd (to_string n))" using that hd_nat_digits [of "nat n"] by (simp add: to_string_def)
  then have "to_string n \<noteq> ''--help'' \<and> to_string n \<noteq> ''-h''" by (auto simp: isdigit_def)
  then show ?thesis by (simp add: server_main_def server_args.simps)
qed

end
