(* ===== verification/Signals.thy ===== *)
theory Signals
  imports Programs
begin

text \<open>
  The signals of \<open>src/server/server.cpp\<close>: the static \<open>instance_\<close> through which the handler of \<open>SIGINT\<close> finds
  the server, the dispositions that the constructor sets, and what the two signals do at each time in the
  life of the server process. \<open>Server\<close> has the signals that arrive while the main thread is in the
  accept loop; here are those before it and after it.
\<close>

subsection \<open>The process\<close>

text \<open>The \<open>Server\<close> objects that exist, by address; the static pointer; whether the handler has been
  installed and \<open>SIGPIPE\<close> is ignored.\<close>

record process =
  server_at :: "ptr \<rightharpoonup> server"
  instance_ptr :: ptr
  sigint_set :: bool
  sigpipe_ignored :: bool

definition new_process :: process where
  "new_process = \<lparr>server_at = Map.empty, instance_ptr = nullptr, sigint_set = False, sigpipe_ignored = False\<rparr>"

text \<open>What a signal does: the default action ends the process; the handler follows a pointer to an object
  that does not exist, or it runs.\<close>

datatype delivery = Killed | Dangling | Handled process

definition sigint :: "process \<Rightarrow> delivery" where
  "sigint pr =
     (if \<not> sigint_set pr then Killed
      else if instance_ptr pr = nullptr then Handled pr
      else case server_at pr (instance_ptr pr) of
             None \<Rightarrow> Dangling
           | Some s \<Rightarrow> Handled (pr\<lparr>server_at := (server_at pr)(instance_ptr pr \<mapsto> sigint_handler s)\<rparr>))"

definition sigpipe :: "process \<Rightarrow> delivery" where
  "sigpipe pr = (if sigpipe_ignored pr then Handled pr else Killed)"

text \<open>The constructor, its members first, and the destructor, which is empty: the members'
  destructors run and the object ceases to exist.\<close>

definition server_ctor :: "ptr \<Rightarrow> int \<Rightarrow> int \<Rightarrow> world \<Rightarrow> threads \<Rightarrow> process \<Rightarrow> process" where
  "server_ctor p n b w ts pr =
     (let pr = pr\<lparr>server_at := (server_at pr)(p \<mapsto> mk_server n b w ts)\<rparr>;
          pr = pr\<lparr>instance_ptr := p\<rparr>;
          pr = pr\<lparr>sigint_set := True\<rparr>
      in pr\<lparr>sigpipe_ignored := True\<rparr>)"

definition server_dtor :: "ptr \<Rightarrow> process \<Rightarrow> process" where
  "server_dtor p pr = pr\<lparr>server_at := (server_at pr)(p := None)\<rparr>"

subsection \<open>Before the accept loop\<close>

text \<open>\<open>start\<close> with a signal, if \<open>sg i\<close> says so, before each of its steps.\<close>

definition start_under ::
    "(nat \<Rightarrow> bool) \<Rightarrow> setup_env \<Rightarrow> accept_event list \<Rightarrow> server \<Rightarrow> (string + bool) \<times> server" where
  "start_under sg env es s =
     (case create_socket env (maybe_sigint (sg 0) s) of
        (Some e, s) \<Rightarrow> (Inl e, s)
      | (None, s) \<Rightarrow>
          (case bind_socket env (maybe_sigint (sg 1) s) of
             (Some e, s) \<Rightarrow> (Inl e, s)
           | (None, s) \<Rightarrow>
               (case listen_socket env (maybe_sigint (sg 2) s) of
                  (Some e, s) \<Rightarrow> (Inl e, s)
                | (None, s) \<Rightarrow>
                    let s = s_log INFO (''MPCC Server listening on port '' @ to_string (port s)) s;
                        s = s_log INFO ''Press Ctrl-C to shut down.'' s;
                        s = maybe_sigint (sg 3) s;
                        s = s\<lparr>running := True\<rparr>;
                        (left, s) = accept_loop es (maybe_sigint (sg 4) s)
                    in (Inr left, s))))"

lemma maybe_sigint_idle: "\<not> running s \<Longrightarrow> maybe_sigint b s = s"
  by (simp add: maybe_sigint_def sigint_handler_def)

lemma setup_running:
  "create_socket env s = (r, s1) \<Longrightarrow> running s1 = running s"
  "bind_socket env s = (r, s1) \<Longrightarrow> running s1 = running s"
  "listen_socket env s = (r, s1) \<Longrightarrow> running s1 = running s"
  by (auto simp: create_socket_def bind_socket_def listen_socket_def Let_def split: if_splits)

lemma sigint_over_store: "(maybe_sigint b s)\<lparr>running := True\<rparr> = s\<lparr>running := True\<rparr>"
  by (simp add: maybe_sigint_def sigint_handler_def)

text \<open>A \<open>SIGINT\<close> that arrives after the handler was installed and before \<open>start\<close> sets \<open>running_\<close> is lost,
  whatever step it interrupts: the server goes on as if it had not come. One that comes right after the store
  ends the loop before the first \<open>accept\<close>.\<close>

theorem early_sigint_lost:
  assumes "\<not> running s"
  shows "if sg 4 then fst (start_under sg env es s) \<in> {Inl ''socket() failed'', Inl ''bind() failed'', Inl ''listen() failed'', Inr True}
    else start_under sg env es s = start env es s"
proof -
  obtain r1 s1 where c: "create_socket env s = (r1, s1)" by force
  obtain r2 s2 where b: "bind_socket env s1 = (r2, s2)" by force
  obtain r3 s3 where l: "listen_socket env s2 = (r3, s3)" by force
  have idle: "\<not> running s1" "\<not> running s2" using setup_running(1) [OF c] setup_running(2) [OF b] assms by simp_all
  note eqs = maybe_sigint_idle [OF assms] maybe_sigint_idle [OF idle(1)] maybe_sigint_idle [OF idle(2)] c b l
  show ?thesis
  proof (cases "sg 4")
    case True
    have err: "e = ''socket() failed''" if "r1 = Some e" for e
      using c that by (auto simp: create_socket_def Let_def split: if_splits)
    have "e = ''bind() failed''" if "r2 = Some e" for e
      using b that by (auto simp: bind_socket_def Let_def split: if_splits)
    moreover have "e = ''listen() failed''" if "r3 = Some e" for e
      using l that by (auto simp: listen_socket_def Let_def split: if_splits)
    ultimately show ?thesis
      using True err by (auto simp: start_under_def eqs Let_def accept_loop_def maybe_sigint_def [of True]
          sigint_handler_def split: option.splits)
  next
    case False
    then show ?thesis
      by (simp add: start_under_def start_def eqs Let_def sigint_over_store maybe_sigint_def [of False]
          split: option.splits)
  qed
qed

subsection \<open>After the server\<close>

text \<open>The \<open>try\<close> block of the server's \<open>main\<close>, with the object at address \<open>p\<close>.\<close>

definition server_block ::
    "ptr \<Rightarrow> server_cfg \<Rightarrow> setup_env \<Rightarrow> accept_event list \<Rightarrow> (world \<Rightarrow> world) \<Rightarrow> world \<Rightarrow> threads \<Rightarrow> process
      \<Rightarrow> (main_end \<times> process) option" where
  "server_block p g env es drain w ts pr =
     (let pr = server_ctor p (s_port g) 10 w ts pr;
          now = (\<lambda>s. pr\<lparr>server_at := (server_at pr)(p \<mapsto> s)\<rparr>)
      in case server_at pr p of
           None \<Rightarrow> None
         | Some s \<Rightarrow>
             (case start env es s of
                (Inl e, s) \<Rightarrow> Some (Exits 1 [''[FATAL] Server failed to start: '' @ e], server_dtor p (now s))
              | (Inr False, s) \<Rightarrow> Some (Serving, now s)
              | (Inr True, s) \<Rightarrow> do {
                  s \<leftarrow> shutdown drain s;
                  Some (Exits 0 [], server_dtor p (now s))
                }))"

lemma server_main_block:
  "server_args args server_default = Run g \<Longrightarrow>
   map_option fst (server_main prog args env es drain w ts) = map_option fst (server_block p g env es drain w ts pr)"
  by (cases "start env es (mk_server (s_port g) 10 w ts)")
     (auto simp: server_main_def server_block_def server_ctor_def Let_def map_option_bind o_def
        split: sum.splits bool.splits intro!: arg_cong2 [where f = Option.bind])

text \<open>C33: \<open>SIGINT\<close> in the three times of the server process: before the constructor it kills the process; while
  the server serves it clears its flag; from the end of the \<open>try\<close> block to the end of the process, whether
  the server was shut down or never started, the handler follows a pointer to a destroyed object. A broken
  pipe does not end the process once the constructor has run.\<close>

theorem sigint_follows_destroyed_server:
  assumes "p \<noteq> nullptr" and "server_block p g env es drain w ts new_process = Some (m, pr)"
  shows "sigint new_process = Killed \<and> sigpipe new_process = Killed \<and> sigpipe pr = Handled pr
    \<and> (if m = Serving
       then \<exists>s. server_at pr p = Some s
         \<and> sigint pr = Handled (pr\<lparr>server_at := (server_at pr)(p \<mapsto> sigint_handler s)\<rparr>)
       else sigint pr = Dangling)"
  using assms
  by (auto simp: server_block_def Let_def server_ctor_def server_dtor_def sigint_def sigpipe_def new_process_def
      bind_Some_iff split: prod.splits sum.splits bool.splits)

theorem sigint_follows_destroyed_server_witness:
  "\<exists>pr. server_block 1 server_default \<lparr>sock_ret = -1, opt_ok = True, bind_ok = True, listen_ok = True, errmsg = ''EMFILE''\<rparr>
       [] id empty_world \<lparr>created = [], joined = []\<rparr> new_process
     = Some (Exits 1 [''[FATAL] Server failed to start: socket() failed''], pr) \<and> sigint pr = Dangling"
proof -
  let ?env = "\<lparr>sock_ret = -1, opt_ok = True, bind_ok = True, listen_ok = True, errmsg = ''EMFILE''\<rparr>"
  obtain pr where pr: "server_block 1 server_default ?env [] id empty_world \<lparr>created = [], joined = []\<rparr> new_process
      = Some (Exits 1 [''[FATAL] Server failed to start: socket() failed''], pr)"
    by (simp add: server_block_def server_ctor_def Let_def start_def create_socket_def fd_valid_def)
  from sigint_follows_destroyed_server [OF _ pr] pr show ?thesis by simp
qed

text \<open>A server on which every step of the start-up is interrupted.\<close>

theorem early_sigint_lost_witness:
  "start_under (\<lambda>i. i < 4) \<lparr>sock_ret = 3, opt_ok = True, bind_ok = True, listen_ok = True, errmsg = []\<rparr> [] demo_server
     = start \<lparr>sock_ret = 3, opt_ok = True, bind_ok = True, listen_ok = True, errmsg = []\<rparr> [] demo_server"
  using early_sigint_lost [of demo_server "\<lambda>i. i < 4"] by (simp add: demo_server_def mk_server_def)

end
