(* ===== verification/Test_Cases.thy ===== *)
theory Test_Cases
  imports Room_Manager User_Registry
begin

text \<open>
  The unit tests of the repository (\<open>tests/core\<close>, \<open>tests/server\<close>) on the model: each \<open>CHECK\<close> of a test
  case is a conjunct, in its order. The \<open>FakeSession\<close>s of the tests are sessions on working sockets here; what the
  \<open>FakeBroadcast\<close> is given are the members of the room and the tagged text.
\<close>

subsection \<open>\<open>tests/core\<close>\<close>

lemma test_cipher_roundtrip:
  "let c = mk_cipher 0x5A;
       plain = ''hello world'' @ [nl] @ ''with'' @ [CHR 0x00] @ ''nul''
   in decrypt c (encrypt c plain) = plain"
  by code_simp

lemma test_cipher_keys: "encrypt (mk_cipher 0x01) ''same'' \<noteq> encrypt (mk_cipher 0x02) ''same''"
  by code_simp

lemma test_message_serialise:
  "serialise \<lparr>msg_type = proto_EXIT, payload = []\<rparr> = ''EXIT'' @ [nl]
   \<and> serialise \<lparr>msg_type = proto_MSG, payload = ''hello''\<rparr> = ''MSG:hello'' @ [nl]"
  by code_simp

lemma test_message_parse:
  "parse (''EXIT'' @ [nl]) = \<lparr>msg_type = ''EXIT'', payload = []\<rparr>
   \<and> parse (''BCAST:[alice]: hello:world'' @ [nl]) = \<lparr>msg_type = ''BCAST'', payload = ''[alice]: hello:world''\<rparr>
   \<and> parse (''OK:done'' @ [cr, nl]) = \<lparr>msg_type = ''OK'', payload = ''done''\<rparr>"
  by code_simp

lemma test_message_factories:
  "serialise make_exit = ''EXIT'' @ [nl]
   \<and> serialise make_menu = ''MENU:1=Register 2=Login'' @ [nl]
   \<and> serialise (make_msg ''hi'') = ''MSG:hi'' @ [nl]
   \<and> serialise (make_ok ''done'') = ''OK:done'' @ [nl]
   \<and> serialise (make_err ''bad'') = ''ERR:bad'' @ [nl]
   \<and> serialise (make_reg ''alice'' ''p'') = ''REG:alice:p'' @ [nl]
   \<and> serialise (make_login ''alice'' ''p'') = ''LOGIN:alice:p'' @ [nl]
   \<and> serialise (make_bcast ''alice'' ''hello'') = ''BCAST:[alice]: hello'' @ [nl]"
  by code_simp

lemma test_message_parse_empty:
  "parse [nl] = \<lparr>msg_type = [], payload = []\<rparr> \<and> parse [cr, nl] = \<lparr>msg_type = [], payload = []\<rparr>"
  by code_simp

subsection \<open>\<open>tests/server\<close>\<close>

text \<open>Alice and bob are the first two sessions of \<open>demo_store\<close>; its third gets the name charlie.\<close>

definition charlie_store :: store where
  "charlie_store = the (call_set_username 3 ''charlie'' demo_store)"

lemma test_broadcast_excludes_sender:
  "do { bm \<leftarrow> add_client 1 demo_store mk_broadcast_manager;
        bm \<leftarrow> add_client 2 demo_store bm;
        st \<leftarrow> broadcast default_cipher ''alice'' ''hello'' bm demo_store;
        Some (out_of st 4 = Some [], out_of st 5 \<noteq> Some []) } = Some (True, True)"
  by code_simp

lemma test_send_private:
  "do { bm \<leftarrow> add_client 1 charlie_store mk_broadcast_manager;
        bm \<leftarrow> add_client 2 charlie_store bm;
        bm \<leftarrow> add_client 3 charlie_store bm;
        st \<leftarrow> send_private default_cipher ''alice'' ''bob'' ''secret'' bm charlie_store;
        Some (out_of st 5 \<noteq> Some [], out_of st 4 = Some [], out_of st 6 = Some []) } = Some (True, True, True)"
  by code_simp

lemma test_room_manager:
  "let rm = join_room append_place ''room1'' 2 (join_room append_place ''room1'' 1 mk_room_manager)
   in map_option length (rooms rm ''room1'') = Some 2 \<and> take 7 (room_tag ''room1'' ''hello'') = ''[room1]''"
  by code_simp

text \<open>The tests of the registry start without a data file; \<open>alice\<close> and \<open>bob\<close> register.\<close>

definition no_files :: filesystem where
  "no_files = \<lparr>files = Map.empty, mkdirs = []\<rparr>"

lemma two_users:
  fixes pw1 pw2 path :: string
  defines "r \<equiv> \<lparr>filepath = path, has_logger = False, banned = {}\<rparr>"
  assumes "length pw1 < 100" "length pw2 < 100"
  shows "\<exists>fs1 fs2. register_user io_ok r ''alice'' pw1 no_files = (True, fs1, [])
    \<and> register_user io_ok r ''bob'' pw2 fs1 = (True, fs2, [])
    \<and> users r no_files = Map.empty \<and> users r fs1 = [''alice'' \<mapsto> pw1]
    \<and> users r fs2 = [''alice'' \<mapsto> pw1, ''bob'' \<mapsto> pw2]"
proof -
  have hex: "length (to_hex s) = 2 * length s" for s
    by (induction s) (simp_all add: to_hex_def hex_byte_def Let_def)
  have recs0: "load_records True path no_files = []"
    by (simp add: load_records_def read_all_lines_def no_files_def)
  have "recs_fit disk_ok [(''alice'', to_hex pw1)]"
    using assms(2) by (simp add: recs_fit_def record_line_def hex disk_ok_def)
  with disk_registers [of "''alice''" r no_files pw1] recs0 obtain fs1
    where fs1: "register_user io_ok r ''alice'' pw1 no_files = (True, fs1, [])"
      "load_records True path fs1 = [(''alice'', to_hex pw1)]"
    by (auto simp: r_def find_user_locked_def name_ok_def)
  have "recs_fit disk_ok [(''alice'', to_hex pw1), (''bob'', to_hex pw2)]"
    using assms(2,3) by (simp add: recs_fit_def record_line_def hex disk_ok_def)
  with disk_registers [of "''bob''" r fs1 pw2] fs1(2) obtain fs2
    where fs2: "register_user io_ok r ''bob'' pw2 fs1 = (True, fs2, [])"
      "load_records True path fs2 = [(''alice'', to_hex pw1), (''bob'', to_hex pw2)]"
    by (auto simp: r_def find_user_locked_def name_ok_def)
  have "users r fs = (\<lambda>u. map_option from_hex (find_record u (load_records True path fs)))" for fs
    by (intro ext) (simp add: users_def find_user_locked_def r_def)
  then have "users r no_files = Map.empty" "users r fs1 = [''alice'' \<mapsto> pw1]"
    "users r fs2 = [''alice'' \<mapsto> pw1, ''bob'' \<mapsto> pw2]"
    using recs0 fs1(2) fs2(2) by (auto intro!: ext)
  with fs1(1) fs2(1) show ?thesis by blast
qed

text \<open>\<open>test_user_registry.cpp\<close>: one user.\<close>

lemma test_registry_roundtrip:
  "\<exists>fs1. let r = \<lparr>filepath = ''./build/test_registered_users.dat'', has_logger = False, banned = {}\<rparr> in
     \<not> user_exists True r ''alice'' no_files
     \<and> register_user io_ok r ''alice'' ''xorbytes'' no_files = (True, fs1, [])
     \<and> user_exists True r ''alice'' fs1
     \<and> authenticate True r ''alice'' ''xorbytes'' fs1 \<and> \<not> authenticate True r ''alice'' ''wrong'' fs1
     \<and> \<not> fst (register_user io_ok r ''alice'' ''xorbytes'' fs1)"
proof -
  let ?r = "\<lparr>filepath = ''./build/test_registered_users.dat'', has_logger = False, banned = {}\<rparr>"
  obtain fs1 where "register_user io_ok ?r ''alice'' ''xorbytes'' no_files = (True, fs1, [])"
    "users ?r no_files = Map.empty" "users ?r fs1 = [''alice'' \<mapsto> ''xorbytes'']"
    using two_users [of "''xorbytes''" "''xorbytes''" "''./build/test_registered_users.dat''"] by auto
  moreover from this(3) have "register_user io_ok ?r ''alice'' ''xorbytes'' fs1 = (False, fs1, [])"
    by (intro register_known) (simp_all add: io_ok_def)
  ultimately show ?thesis
    by (auto simp: authenticate_users user_exists_users Let_def intro!: exI [of _ fs1])
qed

text \<open>\<open>test_user_registry_persistence.cpp\<close>: two users, read back by a second registry object on the file.\<close>

lemma test_registry_persistence:
  "\<exists>fs1 fs2. let r = \<lparr>filepath = ''./build/test_registered_users_persist.dat'', has_logger = False, banned = {}\<rparr>;
       (r2, fs3) = mk_registry disk_ok ''./build/test_registered_users_persist.dat'' False fs2 in
     register_user io_ok r ''alice'' ''xorbytes1'' no_files = (True, fs1, [])
     \<and> register_user io_ok r ''bob'' ''xorbytes2'' fs1 = (True, fs2, [])
     \<and> user_exists True r2 ''alice'' fs3 \<and> user_exists True r2 ''bob'' fs3
     \<and> authenticate True r2 ''alice'' ''xorbytes1'' fs3 \<and> authenticate True r2 ''bob'' ''xorbytes2'' fs3
     \<and> \<not> authenticate True r2 ''bob'' ''wrong'' fs3"
proof -
  let ?p = "''./build/test_registered_users_persist.dat''"
  let ?r = "\<lparr>filepath = ?p, has_logger = False, banned = {}\<rparr>"
  obtain fs1 fs2 where r: "register_user io_ok ?r ''alice'' ''xorbytes1'' no_files = (True, fs1, [])"
    "register_user io_ok ?r ''bob'' ''xorbytes2'' fs1 = (True, fs2, [])"
    "users ?r fs2 = [''alice'' \<mapsto> ''xorbytes1'', ''bob'' \<mapsto> ''xorbytes2'']"
    using two_users [of "''xorbytes1''" "''xorbytes2''" ?p] by auto
  obtain r2 fs3 where m: "mk_registry disk_ok ?p False fs2 = (r2, fs3)" by force
  then have "r2 = ?r" "files fs3 = files fs2"
    using ensure_parent_dir_files [of disk_ok ?p fs2]
    by (auto simp: mk_registry_def case_prod_unfold Let_def simp del: ensure_parent_dir_files)
  then have "users r2 fs3 = [''alice'' \<mapsto> ''xorbytes1'', ''bob'' \<mapsto> ''xorbytes2'']"
    using r(3) by (simp add: users_def [abs_def] find_user_locked_def load_records_def read_all_lines_def)
  with r(1,2) m \<open>r2 = ?r\<close> show ?thesis
    by (auto simp: authenticate_users user_exists_users intro!: exI [of _ fs1] exI [of _ fs2])
qed

end
