(* ===== verification/Lock_Guard.thy ===== *)
theory Lock_Guard
  imports Broadcast_Manager
begin

text \<open>
  \<open>include/mpcc/core/lock_guard.h\<close>: the mutex of a shared object and the scope that holds it. The
  other theories take a method that runs under a \<open>LockGuard\<close> as one step. Here its accesses to
  the object interleave with those of all other threads, and the result is the same: the
  threads' scopes can be run one after the other, in the order in which they took the mutex.
\<close>

subsection \<open>Scopes\<close>

text \<open>
  An access works on the thread's own variables and the shared object, and says whether the scope goes on:
  a \<open>return\<close> or an exception leaves it early, and the destructor of the guard still runs.
\<close>

type_synonym ('l, 's) access = "'l \<times> 's \<Rightarrow> ('l \<times> 's) \<times> bool"

type_synonym ('l, 's) body = "('l, 's) access list"

fun run_body :: "('l, 's) body \<Rightarrow> 'l \<times> 's \<Rightarrow> 'l \<times> 's" where
  "run_body [] x = x"
| "run_body (f # fs) x = (let (x', go) = f x in if go then run_body fs x' else x')"

text \<open>\<open>todo\<close> are the scopes a thread is yet to enter; \<open>inside\<close> is what it has left of the one it is in.
  \<open>history\<close> is no part of the program: who entered which scope, in order.\<close>

record ('l, 's) guarded =
  mutex :: "nat option"
  object :: 's
  vars :: "nat \<Rightarrow> 'l"
  inside :: "nat \<Rightarrow> ('l, 's) body option"
  todo :: "nat \<Rightarrow> ('l, 's) body list"
  history :: "(nat \<times> ('l, 's) body) list"

text \<open>The constructor, which waits until the mutex is free, and the destructor.\<close>

definition guard_construct :: "nat \<Rightarrow> ('l, 's) guarded \<Rightarrow> ('l, 's) guarded option" where
  "guard_construct i y = (if mutex y = None then Some (y\<lparr>mutex := Some i\<rparr>) else None)"

definition guard_destroy :: "('l, 's) guarded \<Rightarrow> ('l, 's) guarded" where
  "guard_destroy y = y\<lparr>mutex := None\<rparr>"

inductive guard_step :: "('l, 's) guarded \<Rightarrow> ('l, 's) guarded \<Rightarrow> bool" where
  enter: "inside y i = None \<Longrightarrow> todo y i = b # bs \<Longrightarrow> guard_construct i y = Some y' \<Longrightarrow>
    guard_step y (y'\<lparr>inside := (inside y)(i \<mapsto> b), todo := (todo y)(i := bs), history := history y @ [(i, b)]\<rparr>)"
| access: "inside y i = Some (f # fs) \<Longrightarrow> f (vars y i, object y) = ((l, s), go) \<Longrightarrow>
    guard_step y (y\<lparr>vars := (vars y)(i := l), object := s, inside := (inside y)(i \<mapsto> (if go then fs else []))\<rparr>)"
| leave: "inside y i = Some [] \<Longrightarrow> guard_step y ((guard_destroy y)\<lparr>inside := (inside y)(i := None)\<rparr>)"

inductive_cases guard_stepE: "guard_step y y'"

subsection \<open>One scope after the other\<close>

text \<open>A whole scope as one step on the variables of all threads and the object.\<close>

definition run_scope :: "nat \<times> ('l, 's) body \<Rightarrow> (nat \<Rightarrow> 'l) \<times> 's \<Rightarrow> (nat \<Rightarrow> 'l) \<times> 's" where
  "run_scope x z = (let (l, s) = run_body (snd x) (fst z (fst x), snd z) in ((fst z)(fst x := l), s))"

definition unlocked :: "('l, 's) guarded \<Rightarrow> bool" where
  "unlocked y \<longleftrightarrow> mutex y = None \<and> inside y = (\<lambda>_. None) \<and> history y = []"

definition scopes_of :: "nat \<Rightarrow> (nat \<times> ('l, 's) body) list \<Rightarrow> ('l, 's) body list" where
  "scopes_of i h = map snd (filter (\<lambda>x. fst x = i) h)"

definition guard_inv :: "('l, 's) guarded \<Rightarrow> ('l, 's) guarded \<Rightarrow> bool" where
  "guard_inv y0 y \<longleftrightarrow> (\<forall>i. inside y i \<noteq> None \<longleftrightarrow> mutex y = Some i)
     \<and> (\<forall>i. scopes_of i (history y) @ todo y i = todo y0 i)
     \<and> fold run_scope (history y) (vars y0, object y0) =
        (case mutex y of
           None \<Rightarrow> (vars y, object y)
         | Some i \<Rightarrow> run_scope (i, the (inside y i)) (vars y, object y))"

lemma guard_inv_init: "unlocked y \<Longrightarrow> guard_inv y y"
  by (simp add: unlocked_def guard_inv_def scopes_of_def)

lemma guard_step_inv: "guard_step y y' \<Longrightarrow> guard_inv y0 y \<Longrightarrow> guard_inv y0 y'"
proof (induction rule: guard_step.induct)
  case (enter y i b bs y')
  then have y': "mutex y = None" "y' = y\<lparr>mutex := Some i\<rparr>" by (auto simp: guard_construct_def split: if_splits)
  from enter.prems enter.hyps(2) have "scopes_of i (history y) @ b # bs = todo y0 i"
    by (auto simp: guard_inv_def dest: spec [of _ i])
  with y' enter.prems show ?case by (auto simp: guard_inv_def scopes_of_def)
next
  case (access y i f fs l s go)
  then have m: "mutex y = Some i" by (auto simp: guard_inv_def)
  have "run_scope (i, f # fs) (vars y, object y)
      = run_scope (i, if go then fs else []) ((vars y)(i := l), s)"
    using access(2) by (simp add: run_scope_def)
  with access m show ?case by (auto simp: guard_inv_def split: if_splits)
next
  case (leave y i)
  then have "mutex y = Some i" by (auto simp: guard_inv_def)
  with leave show ?case by (auto simp: guard_inv_def guard_destroy_def run_scope_def)
qed

lemma guard_steps_inv: "guard_step\<^sup>*\<^sup>* y0 y \<Longrightarrow> unlocked y0 \<Longrightarrow> guard_inv y0 y"
  by (induction rule: rtranclp_induct) (auto intro: guard_inv_init guard_step_inv)

text \<open>C17: methods that run under a \<open>LockGuard\<close> are atomic. In every interleaving at most one thread is
  in a scope, the one that holds the mutex; whenever the mutex is free the object and the threads'
  variables are what running the entered scopes one after the other gives, each thread's in its own order; and
  no thread waits for ever: as long as one has something to do, some thread can move, since every
  exit from a scope, an early one too, unlocks the mutex.\<close>

theorem guarded_methods_atomic:
  assumes "unlocked y0" and "guard_step\<^sup>*\<^sup>* y0 y"
  shows "(\<forall>i. inside y i \<noteq> None \<longleftrightarrow> mutex y = Some i)
    \<and> (\<forall>i. scopes_of i (history y) @ todo y i = todo y0 i)
    \<and> (mutex y = None \<longrightarrow> (vars y, object y) = fold run_scope (history y) (vars y0, object y0))
    \<and> ((\<exists>i. inside y i \<noteq> None \<or> todo y i \<noteq> []) \<longrightarrow> (\<exists>y'. guard_step y y'))"
proof -
  note inv = guard_steps_inv [OF assms(2,1)]
  have "\<exists>y'. guard_step y y'" if "inside y i \<noteq> None \<or> todo y i \<noteq> []" for i
  proof (cases "mutex y")
    case None
    then have "inside y i = None" using inv by (auto simp: guard_inv_def)
    with that obtain b bs where "todo y i = b # bs" by (cases "todo y i") auto
    from guard_step.enter [OF \<open>inside y i = None\<close> this, of "y\<lparr>mutex := Some i\<rparr>"] None show ?thesis
      by (auto simp: guard_construct_def)
  next
    case (Some j)
    then obtain b where b: "inside y j = Some b" using inv by (auto simp: guard_inv_def)
    show ?thesis
    proof (cases b)
      case Nil
      from guard_step.leave [OF b [unfolded Nil]] show ?thesis by blast
    next
      case (Cons f fs)
      obtain l s go where "f (vars y j, object y) = ((l, s), go)" by (metis prod.exhaust)
      from guard_step.access [OF b [unfolded Cons] this] show ?thesis by blast
    qed
  qed
  with inv show ?thesis by (auto simp: guard_inv_def)
qed

subsection \<open>Destroying the mutex\<close>

text \<open>\<open>pthread_mutex_destroy\<close>, in the destructors of the managers, the registry and the logger: on a mutex that
  is locked its behaviour is undefined.\<close>

definition mutex_destroy :: "('l, 's) guarded \<Rightarrow> unit option" where
  "mutex_destroy y = (if mutex y = None then Some () else None)"

text \<open>It is defined exactly when no thread is inside a scope, as after all threads have been joined.\<close>

lemma destroy_after_join:
  "unlocked y0 \<Longrightarrow> guard_step\<^sup>*\<^sup>* y0 y \<Longrightarrow> mutex_destroy y \<noteq> None \<longleftrightarrow> (\<forall>i. inside y i = None)"
  using guard_steps_inv [of y0 y] by (cases "mutex y") (auto simp: guard_inv_def mutex_destroy_def)

subsection \<open>\<open>add_client\<close> and \<open>remove_client\<close>, access by access\<close>

text \<open>The shared object: the registry and the sessions, or none after a dead pointer was followed.\<close>

type_synonym registry_object = "(store \<times> broadcast_manager) option"

definition add_client_body :: "ptr \<Rightarrow> (unit, registry_object) body" where
  "add_client_body p =
     [\<lambda>(l, x). ((l, map_option (\<lambda>(st, bm). (st, bm\<lparr>clients := clients bm @ [p]\<rparr>)) x), True),
      \<lambda>(l, x). ((l, do { (st, bm) \<leftarrow> x;
                         if p \<noteq> nullptr then do {
                           u \<leftarrow> call_get_username p st;
                           Some (st, bm\<lparr>by_name := (by_name bm)(u \<mapsto> p)\<rparr>)
                         } else Some (st, bm) }), True)]"

definition remove_client_body :: "ptr \<Rightarrow> (unit, registry_object) body" where
  "remove_client_body p =
     [\<lambda>(l, x). ((l, map_option (\<lambda>(st, bm). (st, bm\<lparr>clients := filter (\<lambda>q. q \<noteq> p) (clients bm)\<rparr>)) x), True),
      \<lambda>(l, x). ((l, do { (st, bm) \<leftarrow> x;
                         if p \<noteq> nullptr then do {
                           u \<leftarrow> call_get_username p st;
                           Some (st, if by_name bm u = Some p then bm\<lparr>by_name := (by_name bm)(u := None)\<rparr> else bm)
                         } else Some (st, bm) }), True)]"

lemma registry_bodies:
  "run_body (add_client_body p) (l, Some (st, bm)) = (l, map_option (Pair st) (add_client p st bm))"
  "run_body (remove_client_body p) (l, Some (st, bm)) = (l, map_option (Pair st) (remove_client p st bm))"
  by (auto simp: add_client_body_def remove_client_body_def add_client_def remove_client_def Let_def map_option_case
      split: option.splits bind_splits)

text \<open>Two threads: one is in the middle of \<open>add_client\<close> while the other waits to remove.\<close>

definition demo_guarded :: "(unit, registry_object) guarded" where
  "demo_guarded = \<lparr>mutex = None, object = Some (demo_store, mk_broadcast_manager), vars = (\<lambda>_. ()),
     inside = (\<lambda>_. None),
     todo = (\<lambda>i. if i = 0 then [add_client_body 1] else if i = 1 then [remove_client_body 1] else []),
     history = []\<rparr>"

theorem guarded_methods_atomic_witness:
  "\<exists>y. guard_step\<^sup>*\<^sup>* demo_guarded y \<and> mutex y = Some 0 \<and> inside y 1 = None \<and> (\<exists>y'. guard_step y y')"
proof -
  have u: "unlocked demo_guarded" by (simp add: unlocked_def demo_guarded_def)
  have "\<exists>y. guard_step demo_guarded y \<and> mutex y = Some 0"
    using guard_step.enter [of demo_guarded 0 "add_client_body 1" "[]" "demo_guarded\<lparr>mutex := Some 0\<rparr>"]
    by (auto simp: demo_guarded_def guard_construct_def intro!: exI)
  then obtain y where y: "guard_step demo_guarded y" "mutex y = Some 0" by blast
  then have r: "guard_step\<^sup>*\<^sup>* demo_guarded y" by blast
  from guarded_methods_atomic [OF u r] y(2) have "inside y 1 = None" "inside y 0 \<noteq> None" "\<exists>y'. guard_step y y'"
    by auto
  with r y(2) show ?thesis by blast
qed

end
