(* ===== verification/Handler_Calls.thy ===== *)
theory Handler_Calls
  imports Server_System
begin

text \<open>
  The handler of \<open>src/server/client_handler.cpp\<close> call by call. \<open>Client_Handler\<close> runs a turn of a
  worker thread in one go; here the same code is the tree of the calls it makes, each with what the
  thread does on its result, so that other threads can run between any two of them. A call is the
  method of a shared object under its mutex, one \<open>recv\<close> of a byte, or one call through the pointer
  of another client's session, as \<open>broadcast\<close>, \<open>send_private\<close> and \<open>broadcast_to_recipients\<close> make
  them after their mutex has been released. Run without interruption the tree is the turn.
\<close>

subsection \<open>Threads as trees of calls\<close>

text \<open>\<open>Call\<close>: a call on the thread's own session or on a shared object. \<open>Foreign q\<close>: a call through a
  pointer \<open>q\<close> copied out of a shared object. \<open>Line q\<close>: \<open>recv_line\<close> on \<open>q\<close>'s connection.\<close>

datatype 'r act =
    Ret 'r
  | Call "world \<Rightarrow> ('r act \<times> world) option"
  | Foreign ptr "world \<Rightarrow> ('r act \<times> world) option"
  | Line ptr "string \<Rightarrow> 'r act"

definition call :: "(world \<Rightarrow> ('x \<times> world) option) \<Rightarrow> ('x \<Rightarrow> 'r act) \<Rightarrow> 'r act" where
  "call f k = Call (\<lambda>w. map_option (\<lambda>(x, w'). (k x, w')) (f w))"

definition foreign :: "ptr \<Rightarrow> (world \<Rightarrow> ('x \<times> world) option) \<Rightarrow> ('x \<Rightarrow> 'r act) \<Rightarrow> 'r act" where
  "foreign q f k = Foreign q (\<lambda>w. map_option (\<lambda>(x, w'). (k x, w')) (f w))"

text \<open>Without interruption.\<close>

primrec run_act :: "cipher \<Rightarrow> 'r act \<Rightarrow> world \<Rightarrow> ('r \<times> world) option" where
  "run_act c (Ret r) = (\<lambda>w. Some (r, w))"
| "run_act c (Call f) = (\<lambda>w. Option.bind ((map_option (map_prod (run_act c) id) \<circ> f) w) (\<lambda>(g, w'). g w'))"
| "run_act c (Foreign q f) = (\<lambda>w. Option.bind ((map_option (map_prod (run_act c) id) \<circ> f) w) (\<lambda>(g, w'). g w'))"
| "run_act c (Line q k) = (\<lambda>w. Option.bind (recv_bytes c q [] (wstore w))
     (\<lambda>(line, st). (run_act c \<circ> k) line (w\<lparr>wstore := st\<rparr>)))"

lemma run_call [simp]:
  "run_act c (call f k) w = Option.bind (f w) (\<lambda>(x, w'). run_act c (k x) w')"
  "run_act c (foreign q f k) w = Option.bind (f w) (\<lambda>(x, w'). run_act c (k x) w')"
  by (cases "f w"; simp add: call_def foreign_def case_prod_unfold)+

subsection \<open>The calls\<close>

text \<open>A method of \<open>ISession\<close> that only reads; a change of the store; one of the rooms.\<close>

definition reading :: "(store \<Rightarrow> 'x option) \<Rightarrow> world \<Rightarrow> ('x \<times> world) option" where
  "reading f w = map_option (\<lambda>x. (x, w)) (f (wstore w))"

definition storing :: "(store \<Rightarrow> store option) \<Rightarrow> world \<Rightarrow> (unit \<times> world) option" where
  "storing f w = map_option (\<lambda>st. ((), w\<lparr>wstore := st\<rparr>)) (f (wstore w))"

definition rooming :: "(room_manager \<Rightarrow> room_manager) \<Rightarrow> world \<Rightarrow> (unit \<times> world) option" where
  "rooming f w = Some ((), w\<lparr>rman := f (rman w)\<rparr>)"

definition managing ::
    "(store \<Rightarrow> broadcast_manager \<Rightarrow> broadcast_manager option) \<Rightarrow> world \<Rightarrow> (unit \<times> world) option" where
  "managing f w = map_option (\<lambda>bm. ((), w\<lparr>bman := bm\<rparr>)) (f (wstore w) (bman w))"

definition logging :: "log_level \<Rightarrow> string \<Rightarrow> world \<Rightarrow> (unit \<times> world) option" where
  "logging l m w = Some ((), w_log l m w)"

definition sending :: "ptr \<Rightarrow> string \<Rightarrow> world \<Rightarrow> (bool \<times> world) option" where
  "sending q wire w = map_option (\<lambda>(ok, st). (ok, w\<lparr>wstore := st\<rparr>)) (call_send_msg q wire (wstore w))"

text \<open>\<open>registry_.register_user\<close> and \<open>registry_.authenticate\<close>, each under the registry's mutex.\<close>

definition registering :: "string \<Rightarrow> string \<Rightarrow> world \<Rightarrow> (bool \<times> world) option" where
  "registering user enc_pass w =
     (let (io, w) = next_io w;
          (ok, fs, ls) = register_user io (registry w) user enc_pass (wfs w)
      in Some (ok, w\<lparr>wfs := fs, logs := logs w @ ls\<rparr>))"

definition authenticating :: "string \<Rightarrow> string \<Rightarrow> world \<Rightarrow> (bool \<times> world) option" where
  "authenticating user enc_pass w =
     (let (io, w) = next_io w
      in Some (authenticate (find_opens io) (registry w) user enc_pass (wfs w), w))"

lemmas calling_defs = reading_def storing_def rooming_def managing_def logging_def sending_def
  registering_def authenticating_def

definition send_c :: "cipher \<Rightarrow> handler \<Rightarrow> string \<Rightarrow> (bool \<Rightarrow> 'r act) \<Rightarrow> 'r act" where
  "send_c c h plain k = call (sending (session_ptr h) (encrypt c plain)) k"

lemma run_send_c [simp]:
  "run_act c' (send_c c h m k) w = Option.bind (send_encrypted c h m w) (\<lambda>(b, w). run_act c' (k b) w)"
  by (cases "call_send_msg (session_ptr h) (encrypt c m) (wstore w)")
     (auto simp: send_c_def sending_def send_encrypted_def)

lemma run_line [simp]:
  "run_act c (Line (session_ptr h) k) w = Option.bind (recv_line c h w) (\<lambda>(l, w). run_act c (k l) w)"
  by (cases "recv_bytes c (session_ptr h) [] (wstore w)") (auto simp: recv_line_def)

declare run_act.simps(4) [simp del]

subsection \<open>Authentication\<close>

definition present_menu_c :: "cipher \<Rightarrow> handler \<Rightarrow> (int \<Rightarrow> 'r act) \<Rightarrow> 'r act" where
  "present_menu_c c h k =
     send_c c h (serialise make_menu) (\<lambda>sent.
     if \<not> sent then k (-1)
     else Line (session_ptr h) (\<lambda>line.
     if line = [] then k (-1)
     else let m = parse line;
              choice_str = (if msg_type m = proto_CHOICE then payload m else msg_type m)
          in k (case stoi choice_str of Inr n \<Rightarrow> n | Inl _ \<Rightarrow> 0)))"

definition admit_c :: "cipher \<Rightarrow> handler \<Rightarrow> string \<Rightarrow> string \<Rightarrow> (bool \<Rightarrow> 'r act) \<Rightarrow> 'r act" where
  "admit_c c h user msg k =
     call (storing (call_set_username (session_ptr h) user)) (\<lambda>_.
     call (managing (add_client (session_ptr h))) (\<lambda>_.
     send_c c h (serialise (make_ok msg)) (\<lambda>_. k True)))"

definition refuse_c :: "cipher \<Rightarrow> handler \<Rightarrow> string \<Rightarrow> (bool \<Rightarrow> 'r act) \<Rightarrow> 'r act" where
  "refuse_c c h msg k = send_c c h (serialise (make_err msg)) (\<lambda>_. k False)"

definition finish_register_c ::
    "cipher \<Rightarrow> handler \<Rightarrow> string \<Rightarrow> string \<Rightarrow> (bool \<Rightarrow> 'r act) \<Rightarrow> 'r act" where
  "finish_register_c c h user password k =
     call (registering user (encrypt c password)) (\<lambda>done.
     if \<not> done
     then call (logging WARNING (''Registration failed '' @ endash @ '' user already exists: '' @ user)) (\<lambda>_.
          refuse_c c h ''User already exists.'' k)
     else call (reading (call_get_ip (session_ptr h))) (\<lambda>ip.
          call (logging INFO (''New user registered: '' @ user @ '' from '' @ ip)) (\<lambda>_.
          admit_c c h user (''Registration successful. Welcome, '' @ user @ ''!'') k)))"

definition handle_register_c :: "cipher \<Rightarrow> handler \<Rightarrow> (bool \<Rightarrow> 'r act) \<Rightarrow> 'r act" where
  "handle_register_c c h k =
     send_c c h (''Enter username: '' @ [nl]) (\<lambda>sent.
     if \<not> sent then k False else
     Line (session_ptr h) (\<lambda>user.
     if user = [] then k False
     else if \<not> validate_username user
     then refuse_c c h ''Invalid username. Use [a-zA-Z0-9_], max 64 chars.'' k
     else send_c c h (''Enter password: '' @ [nl]) (\<lambda>sent.
     if \<not> sent then k False else
     Line (session_ptr h) (\<lambda>password.
     if password = [] then k False
     else if \<not> validate_password password
     then refuse_c c h ''Invalid password. Max 128 chars, no colons.'' k
     else finish_register_c c h user password k))))"

definition finish_login_c ::
    "cipher \<Rightarrow> handler \<Rightarrow> string \<Rightarrow> string \<Rightarrow> (bool \<Rightarrow> 'r act) \<Rightarrow> 'r act" where
  "finish_login_c c h user password k =
     call (authenticating user (encrypt c password)) (\<lambda>known.
     call (reading (call_get_ip (session_ptr h))) (\<lambda>ip.
     if \<not> known
     then call (logging WARNING (''Login failed for user: '' @ user @ '' from '' @ ip)) (\<lambda>_.
          refuse_c c h ''Invalid credentials.'' k)
     else call (logging INFO (''User logged in: '' @ user @ '' from '' @ ip)) (\<lambda>_.
          admit_c c h user (''Login successful. Welcome back, '' @ user @ ''!'') k)))"

definition handle_login_c :: "cipher \<Rightarrow> handler \<Rightarrow> (bool \<Rightarrow> 'r act) \<Rightarrow> 'r act" where
  "handle_login_c c h k =
     send_c c h (''Enter username: '' @ [nl]) (\<lambda>sent.
     if \<not> sent then k False else
     Line (session_ptr h) (\<lambda>user.
     if user = [] then k False
     else send_c c h (''Enter password: '' @ [nl]) (\<lambda>sent.
     if \<not> sent then k False else
     Line (session_ptr h) (\<lambda>password.
     if password = [] then k False
     else finish_login_c c h user password k))))"

definition auth_once_c :: "cipher \<Rightarrow> handler \<Rightarrow> (attempt \<Rightarrow> 'r act) \<Rightarrow> 'r act" where
  "auth_once_c c h k =
     present_menu_c c h (\<lambda>choice.
     if choice < 0 then k Lost
     else if choice = 1 then handle_register_c c h (\<lambda>done. k (if done then Admitted else Again))
     else if choice = 2 then handle_login_c c h (\<lambda>done. k (if done then Admitted else Again))
     else send_c c h (serialise (make_err ''Invalid choice. Please enter 1 or 2.'')) (\<lambda>_. k Again))"

subsection \<open>The chat\<close>

definition enter_chat_c :: "cipher \<Rightarrow> placement \<Rightarrow> handler \<Rightarrow> (unit \<Rightarrow> 'r act) \<Rightarrow> 'r act" where
  "enter_chat_c c place h k =
     call (reading (call_get_username (session_ptr h))) (\<lambda>u.
     call (logging INFO (''recv_loop started for user: '' @ u)) (\<lambda>_.
     call (rooming (join_room place (current_room h) (session_ptr h))) (\<lambda>_.
     send_c c h chat_banner (\<lambda>_. k ()))))"

definition reply_c ::
    "cipher \<Rightarrow> handler \<Rightarrow> message \<Rightarrow> (bool \<times> handler \<Rightarrow> 'r act) \<Rightarrow> 'r act" where
  "reply_c c h m k = send_c c h (serialise m) (\<lambda>_. k (True, h))"

definition cmd_join_c ::
    "cipher \<Rightarrow> placement \<Rightarrow> handler \<Rightarrow> string \<Rightarrow> (bool \<times> handler \<Rightarrow> 'r act) \<Rightarrow> 'r act" where
  "cmd_join_c c place h args k =
     (let (room, _) = extract_word args in
      if room = [] then reply_c c h (make_err ''Usage: /join room'') k
      else
        let h' = h\<lparr>current_room := room\<rparr>;
            joining = call (rooming (join_room place (current_room h') (session_ptr h'))) (\<lambda>_.
              reply_c c h' (make_ok (''Joined room: '' @ current_room h')) k)
        in if current_room h \<noteq> []
           then call (rooming (leave_room (current_room h) (session_ptr h))) (\<lambda>_. joining)
           else joining)"

definition cmd_leave_c ::
    "cipher \<Rightarrow> handler \<Rightarrow> (bool \<times> handler \<Rightarrow> 'r act) \<Rightarrow> 'r act" where
  "cmd_leave_c c h k =
     (if current_room h \<noteq> []
      then call (rooming (leave_room (current_room h) (session_ptr h))) (\<lambda>_.
           reply_c c (h\<lparr>current_room := []\<rparr>) (make_ok ''Left current room.'') k)
      else reply_c c h (make_err ''Not in a room.'') k)"

text \<open>\<open>send_private\<close>: the index is read, and the target tested, under the mutex; the send is after it.\<close>

definition find_target :: "string \<Rightarrow> broadcast_manager \<Rightarrow> store \<Rightarrow> ptr option option" where
  "find_target dest bm st =
     (case by_name bm dest of
        None \<Rightarrow> Some None
      | Some p \<Rightarrow>
          if p = nullptr then Some None
          else do { a \<leftarrow> call_is_active p st; Some (if a then Some p else None) })"

definition send_private_c ::
    "cipher \<Rightarrow> string \<Rightarrow> string \<Rightarrow> string \<Rightarrow> (unit \<Rightarrow> 'r act) \<Rightarrow> 'r act" where
  "send_private_c c from dest msg k =
     call (\<lambda>w. map_option (\<lambda>t. (t, w)) (find_target dest (bman w) (wstore w))) (\<lambda>t.
     case t of
       None \<Rightarrow> k ()
     | Some p \<Rightarrow> foreign p (sending p (encrypt c (serialise (make_bcast from (pm_text from msg))))) (\<lambda>_. k ()))"

definition cmd_pm_c ::
    "cipher \<Rightarrow> handler \<Rightarrow> string \<Rightarrow> (bool \<times> handler \<Rightarrow> 'r act) \<Rightarrow> 'r act" where
  "cmd_pm_c c h args k =
     (let (target, rest) = extract_word args;
          line = takeWhile (\<lambda>ch. ch \<noteq> nl) rest;
          text = (if line \<noteq> [] \<and> hd line = CHR '' '' then tl line else line)
      in if target = [] \<or> text = []
         then reply_c c h (make_err ''Usage: /pm user message'') k
         else call (reading (call_get_username (session_ptr h))) (\<lambda>u.
              send_private_c c u target text (\<lambda>_. k (True, h))))"

definition chat_command_c ::
    "cipher \<Rightarrow> placement \<Rightarrow> handler \<Rightarrow> string \<Rightarrow> (bool \<times> handler \<Rightarrow> 'r act) \<Rightarrow> 'r act" where
  "chat_command_c c place h text k =
     (let (cmd, args) = extract_word text in
      if cmd = ''/join'' then cmd_join_c c place h args k
      else if cmd = ''/leave'' then cmd_leave_c c h k
      else if cmd = ''/pm'' then cmd_pm_c c h args k
      else reply_c c h (make_err ''Unknown command.'') k)"

text \<open>The sends of \<open>broadcast\<close>, and of \<open>broadcast_to_recipients\<close>, which also asks each pointer whether
  it is active and what its name is.\<close>

fun send_each_c :: "cipher \<Rightarrow> string \<Rightarrow> ptr list \<Rightarrow> (unit \<Rightarrow> 'r act) \<Rightarrow> 'r act" where
  "send_each_c c wire_plain [] k = k ()"
| "send_each_c c wire_plain (p # ps) k =
     foreign p (sending p (encrypt c wire_plain)) (\<lambda>_. send_each_c c wire_plain ps k)"

fun deliver_c :: "string \<Rightarrow> string \<Rightarrow> ptr list \<Rightarrow> (unit \<Rightarrow> 'r act) \<Rightarrow> 'r act" where
  "deliver_c wire_enc sender [] k = k ()"
| "deliver_c wire_enc sender (p # ps) k =
     (if p = nullptr then deliver_c wire_enc sender ps k
      else foreign p (reading (call_is_active p)) (\<lambda>a.
        if \<not> a then deliver_c wire_enc sender ps k
        else foreign p (reading (call_get_username p)) (\<lambda>u.
          if u = sender then deliver_c wire_enc sender ps k
          else foreign p (sending p wire_enc) (\<lambda>_. deliver_c wire_enc sender ps k))))"

definition broadcast_c :: "cipher \<Rightarrow> string \<Rightarrow> string \<Rightarrow> (unit \<Rightarrow> 'r act) \<Rightarrow> 'r act" where
  "broadcast_c c sender msg k =
     call (\<lambda>w. map_option (\<lambda>ps. (ps, w)) (snapshot (wstore w) sender (clients (bman w)))) (\<lambda>ps.
     send_each_c c (serialise (make_bcast sender msg)) ps k)"

definition broadcast_to_room_c ::
    "cipher \<Rightarrow> string \<Rightarrow> string \<Rightarrow> string \<Rightarrow> (unit \<Rightarrow> 'r act) \<Rightarrow> 'r act" where
  "broadcast_to_room_c c room sender msg k =
     call (\<lambda>w. Some (rooms (rman w) room, w)) (\<lambda>found.
     case found of
       None \<Rightarrow> k ()
     | Some room_members \<Rightarrow>
         deliver_c (encrypt c (serialise (make_bcast sender (room_tag room msg)))) sender room_members k)"

definition chat_text_c ::
    "cipher \<Rightarrow> handler \<Rightarrow> string \<Rightarrow> (bool \<times> handler \<Rightarrow> 'r act) \<Rightarrow> 'r act" where
  "chat_text_c c h text k =
     (if MAX_MSG_LEN < length text
      then reply_c c h (make_err ''Message too long (max 4096 chars).'') k
      else call (reading (call_get_username (session_ptr h))) (\<lambda>u.
           call (logging DEBUG (''MSG from '' @ u @ '': '' @ text)) (\<lambda>_.
           call (reading (call_get_username (session_ptr h))) (\<lambda>u.
           if current_room h \<noteq> []
           then broadcast_to_room_c c (current_room h) u (''['' @ current_room h @ ''] '' @ text) (\<lambda>_. k (True, h))
           else broadcast_c c u text (\<lambda>_. k (True, h))))))"

definition chat_line_c ::
    "cipher \<Rightarrow> placement \<Rightarrow> handler \<Rightarrow> string \<Rightarrow> (bool \<times> handler \<Rightarrow> 'r act) \<Rightarrow> 'r act" where
  "chat_line_c c place h line k =
     (if is_exit line
      then call (reading (call_get_username (session_ptr h))) (\<lambda>u.
           call (logging INFO (''User '' @ u @ '' sent EXIT.'')) (\<lambda>_.
           send_c c h (serialise (make_ok ''Goodbye!'')) (\<lambda>_. k (False, h))))
      else
        let m = parse line;
            text = (if msg_type m = proto_MSG then payload m else line)
        in if text = [] then k (True, h)
           else if hd text = slash then chat_command_c c place h text k
           else chat_text_c c h text k)"

definition chat_turn_c ::
    "cipher \<Rightarrow> placement \<Rightarrow> handler \<Rightarrow> (bool \<times> handler \<Rightarrow> 'r act) \<Rightarrow> 'r act" where
  "chat_turn_c c place h k =
     Line (session_ptr h) (\<lambda>line. if line = [] then k (False, h) else chat_line_c c place h line k)"

subsection \<open>The clean-up, and the turns of a thread\<close>

definition cleanup_c :: "handler \<Rightarrow> 'r act \<Rightarrow> 'r act" where
  "cleanup_c h k =
     (if session_ptr h = nullptr then k
      else call (reading (call_get_username (session_ptr h))) (\<lambda>u.
           call (logging INFO (''ClientHandler: client '' @ u @ '' disconnecting.'')) (\<lambda>_.
           call (rooming (leave_all (session_ptr h))) (\<lambda>_.
           call (managing (remove_client (session_ptr h))) (\<lambda>_.
           call (storing (call_close (session_ptr h))) (\<lambda>_.
           call (storing (delete_session (session_ptr h))) (\<lambda>_. k)))))))"

type_synonym next_turn = "(phase \<times> handler) option"

fun turn_calls :: "cipher \<Rightarrow> placement \<Rightarrow> phase \<times> handler \<Rightarrow> next_turn act" where
  "turn_calls c place (Menu 0, h) =
     send_c c h (serialise (make_err ''Authentication failed. Disconnecting.'')) (\<lambda>_. Ret (Some (Leaving, h)))"
| "turn_calls c place (Menu (Suc n), h) = auth_once_c c h (\<lambda>r. Ret (Some (after_attempt r n, h)))"
| "turn_calls c place (Entering, h) = enter_chat_c c place h (\<lambda>_. Ret (Some (Talking, h)))"
| "turn_calls c place (Talking, h) =
     chat_turn_c c place h (\<lambda>(go, h). Ret (Some (if go then Talking else Leaving, h)))"
| "turn_calls c place (Leaving, h) = cleanup_c h (Ret None)"

text \<open>What \<open>run\<close> does first.\<close>

definition run_calls :: "cipher \<Rightarrow> placement \<Rightarrow> handler \<Rightarrow> next_turn act" where
  "run_calls c place h =
     call (reading (call_get_ip (session_ptr h))) (\<lambda>ip.
     call (logging INFO (''ClientHandler::run() '' @ endash @ '' new client from '' @ ip)) (\<lambda>_.
     turn_calls c place (Menu MAX_AUTH_ATTEMPTS, h)))"

subsection \<open>The tree is the turn\<close>

text \<open>Each function of calls, run without interruption, is its counterpart in \<open>Client_Handler\<close>,
  \<open>Broadcast_Manager\<close> and \<open>Room_Manager\<close>, followed by the continuation.\<close>

lemma run_reading [simp]:
  "Option.bind (reading f w) g = Option.bind (f (wstore w)) (\<lambda>x. g (x, w))"
  by (cases "f (wstore w)") (simp_all add: reading_def)

lemma run_storing [simp]:
  "Option.bind (storing f w) g = Option.bind (f (wstore w)) (\<lambda>st. g ((), w\<lparr>wstore := st\<rparr>))"
  by (cases "f (wstore w)") (simp_all add: storing_def)

lemma run_managing [simp]:
  "Option.bind (managing f w) g = Option.bind (f (wstore w) (bman w)) (\<lambda>bm. g ((), w\<lparr>bman := bm\<rparr>))"
  by (cases "f (wstore w) (bman w)") (simp_all add: managing_def)

lemma run_rooming [simp]: "Option.bind (rooming f w) g = g ((), w\<lparr>rman := f (rman w)\<rparr>)"
  by (simp add: rooming_def)

lemma run_logging [simp]: "Option.bind (logging l m w) g = g ((), w_log l m w)"
  by (simp add: logging_def)

lemma bind_if: "Option.bind (if b then x else y) f = (if b then Option.bind x f else Option.bind y f)"
  by simp

lemma run_if: "run_act c (if b then x else y) w = (if b then run_act c x w else run_act c y w)"
  by simp

lemmas run_simps = bind_if run_if Let_def case_prod_unfold

lemma run_present_menu [simp]:
  "run_act c' (present_menu_c c' h k) w = Option.bind (present_menu c' h w) (\<lambda>(n, w). run_act c' (k n) w)"
  by (simp add: present_menu_c_def present_menu_def run_simps cong: if_cong)

lemma run_admit [simp]:
  "run_act c (admit_c c h u m k) w = Option.bind (admit c h u m w) (\<lambda>(b, w). run_act c (k b) w)"
  by (simp add: admit_c_def admit_def run_simps cong: if_cong)

lemma run_refuse [simp]:
  "run_act c (refuse_c c h m k) w = Option.bind (refuse c h m w) (\<lambda>(b, w). run_act c (k b) w)"
  by (simp add: refuse_c_def refuse_def run_simps cong: if_cong)

lemma run_finish_register [simp]:
  "run_act c (finish_register_c c h u pw k) w
     = Option.bind (finish_register c h u pw w) (\<lambda>(b, w). run_act c (k b) w)"
  by (simp add: finish_register_c_def finish_register_def registering_def run_simps cong: if_cong)

lemma run_finish_login [simp]:
  "run_act c (finish_login_c c h u pw k) w
     = Option.bind (finish_login c h u pw w) (\<lambda>(b, w). run_act c (k b) w)"
  by (simp add: finish_login_c_def finish_login_def authenticating_def run_simps cong: if_cong)

lemma run_handle_register [simp]:
  "run_act c (handle_register_c c h k) w = Option.bind (handle_register c h w) (\<lambda>(b, w). run_act c (k b) w)"
  by (simp add: handle_register_c_def handle_register_def run_simps cong: if_cong)

lemma run_handle_login [simp]:
  "run_act c (handle_login_c c h k) w = Option.bind (handle_login c h w) (\<lambda>(b, w). run_act c (k b) w)"
  by (simp add: handle_login_c_def handle_login_def run_simps cong: if_cong)

lemma run_auth_once [simp]:
  "run_act c (auth_once_c c h k) w = Option.bind (auth_once c h w) (\<lambda>(r, w). run_act c (k r) w)"
  by (simp add: auth_once_c_def auth_once_def run_simps cong: if_cong)

lemma run_enter_chat [simp]:
  "run_act c (enter_chat_c c place h k) w = Option.bind (enter_chat c place h w) (\<lambda>w. run_act c (k ()) w)"
  by (simp add: enter_chat_c_def enter_chat_def run_simps cong: if_cong)

lemma run_reply [simp]:
  "run_act c (reply_c c h m k) w = Option.bind (reply c h m w) (\<lambda>(b, h, w). run_act c (k (b, h)) w)"
  by (simp add: reply_c_def reply_def run_simps cong: if_cong)

lemma run_cmd_join [simp]:
  "run_act c (cmd_join_c c place h args k) w
     = Option.bind (cmd_join c place h args w) (\<lambda>(b, h, w). run_act c (k (b, h)) w)"
  by (simp add: cmd_join_c_def cmd_join_def run_simps cong: if_cong)

lemma run_cmd_leave [simp]:
  "run_act c (cmd_leave_c c h k) w = Option.bind (cmd_leave c h w) (\<lambda>(b, h, w). run_act c (k (b, h)) w)"
  by (simp add: cmd_leave_c_def cmd_leave_def run_simps cong: if_cong)

lemma run_send_private [simp]:
  "run_act c' (send_private_c c from dest m k) w
     = Option.bind (send_private c from dest m (bman w) (wstore w)) (\<lambda>st. run_act c' (k ()) (w\<lparr>wstore := st\<rparr>))"
proof (cases "by_name (bman w) dest")
  case (Some p)
  show ?thesis
  proof (cases "call_is_active p (wstore w)")
    case None
    with Some show ?thesis by (simp add: send_private_c_def send_private_def find_target_def)
  next
    case act: (Some a)
    from Some act show ?thesis
      by (cases "call_send_msg p (encrypt c (serialise (make_bcast from (pm_text from m)))) (wstore w)")
         (auto simp: send_private_c_def send_private_def find_target_def sending_def)
  qed
qed (simp add: send_private_c_def send_private_def find_target_def)

lemma run_cmd_pm [simp]:
  "run_act c (cmd_pm_c c h args k) w = Option.bind (cmd_pm c h args w) (\<lambda>(b, h, w). run_act c (k (b, h)) w)"
  by (simp add: cmd_pm_c_def cmd_pm_def run_simps cong: if_cong)

lemma run_chat_command [simp]:
  "run_act c (chat_command_c c place h text k) w
     = Option.bind (chat_command c place h text w) (\<lambda>(b, h, w). run_act c (k (b, h)) w)"
  by (simp add: chat_command_c_def chat_command_def run_simps cong: if_cong)

lemma run_send_each [simp]:
  "run_act c' (send_each_c c m ps k) w
     = Option.bind (send_each c m ps (wstore w)) (\<lambda>st. run_act c' (k ()) (w\<lparr>wstore := st\<rparr>))"
proof (induction ps arbitrary: w)
  case (Cons p ps)
  then show ?case
    by (cases "call_send_msg p (encrypt c m) (wstore w)") (auto simp: sending_def)
qed simp

lemma active_name: "call_is_active p st = None \<longleftrightarrow> call_get_username p st = None"
  by (simp add: call_is_active_def call_get_username_def)

lemma run_deliver [simp]:
  "run_act c (deliver_c m s ps k) w
     = Option.bind (deliver m s ps (wstore w)) (\<lambda>st. run_act c (k ()) (w\<lparr>wstore := st\<rparr>))"
proof (induction ps arbitrary: w)
  case (Cons p ps)
  show ?case
  proof (cases "call_is_active p (wstore w)")
    case None
    with Cons show ?thesis by simp
  next
    case (Some a)
    then obtain u where u: "call_get_username p (wstore w) = Some u"
      using active_name [of p "wstore w"] by fastforce
    from Some u Cons show ?thesis
      by (cases "call_send_msg p m (wstore w)") (auto simp: sending_def)
  qed
qed simp

lemma run_broadcast [simp]:
  "run_act c' (broadcast_c c s m k) w
     = Option.bind (broadcast c s m (bman w) (wstore w)) (\<lambda>st. run_act c' (k ()) (w\<lparr>wstore := st\<rparr>))"
  by (cases "snapshot (wstore w) s (clients (bman w))") (simp_all add: broadcast_c_def broadcast_def)

lemma run_broadcast_to_room [simp]:
  "run_act c' (broadcast_to_room_c c r s m k) w
     = Option.bind (broadcast_to_room c r s m (rman w) (wstore w)) (\<lambda>st. run_act c' (k ()) (w\<lparr>wstore := st\<rparr>))"
  by (cases "rooms (rman w) r")
     (simp_all add: broadcast_to_room_c_def broadcast_to_room_def broadcast_to_recipients_def)

lemma run_chat_text [simp]:
  "run_act c (chat_text_c c h text k) w
     = Option.bind (chat_text c h text w) (\<lambda>(b, h, w). run_act c (k (b, h)) w)"
  by (cases "call_get_username (session_ptr h) (wstore w)")
     (simp_all add: chat_text_c_def chat_text_def run_simps)

lemma run_chat_line [simp]:
  "run_act c (chat_line_c c place h line k) w
     = Option.bind (chat_line c place h line w) (\<lambda>(b, h, w). run_act c (k (b, h)) w)"
  by (simp add: chat_line_c_def chat_line_def run_simps cong: if_cong)

lemma run_chat_turn [simp]:
  "run_act c (chat_turn_c c place h k) w
     = Option.bind (chat_turn c place h w) (\<lambda>(b, h, w). run_act c (k (b, h)) w)"
  by (simp add: chat_turn_c_def chat_turn_def run_simps cong: if_cong)

lemma run_cleanup [simp]:
  "run_act c (cleanup_c h k) w = Option.bind (cleanup_and_exit h w) (\<lambda>(_, w). run_act c k w)"
  by (simp add: cleanup_c_def cleanup_and_exit_def run_simps cong: if_cong)

text \<open>Run without interruption, the calls of a thread are its turn.\<close>

lemma calls_make_the_turn: "run_act c (turn_calls c place x) w = turn_of c place x w"
  by (cases "(c, place, x)" rule: turn_calls.cases) (simp_all add: turn_of_def run_simps cong: if_cong)

end
