(* ===== verification/Accounts.thy ===== *)
theory Accounts
  imports Client_Handler
begin

text \<open>
  What the accounts file of \<open>UserRegistry\<close> holds. The handlers write it only through
  \<open>register_user\<close>, with a name and a password that \<open>ClientHandler\<close> has validated, so its records have
  a type: a valid user name, and the hexadecimal form of an encrypted valid password. The type
  survives every failure of the disk, but for the last line, which a failed flush may cut short.
\<close>

subsection \<open>The type of a record\<close>

definition account_typed :: "cipher \<Rightarrow> user_record \<Rightarrow> bool" where
  "account_typed c r \<longleftrightarrow> validate_username (fst r)
     \<and> (\<exists>pw cut. validate_password pw \<and> to_hex (encrypt c pw) = snd r @ cut)"

definition accounts_ok :: "cipher \<Rightarrow> world \<Rightarrow> bool" where
  "accounts_ok c w \<longleftrightarrow>
     (\<forall>r \<in> set (load_records True (filepath (registry w)) (wfs w)). account_typed c r)"

lemma accounts_ok_cong:
  "registry w' = registry w \<Longrightarrow> wfs w' = wfs w \<Longrightarrow> accounts_ok c w' = accounts_ok c w"
  by (simp add: accounts_ok_def)

lemma valid_name_chars: "validate_username u \<Longrightarrow> name_ok u"
  by (auto simp: validate_username_def name_ok_def list_all_iff isalnum_def isdigit_def)

lemma typed_record_ok: "account_typed c r \<Longrightarrow> record_ok r"
proof -
  assume t: "account_typed c r"
  then obtain pw cut where "to_hex (encrypt c pw) = snd r @ cut" by (auto simp: account_typed_def)
  then have "set (snd r) \<subseteq> set (to_hex (encrypt c pw))" by simp
  with t show ?thesis using set_to_hex valid_name_chars by (auto simp: account_typed_def record_ok_def)
qed

subsection \<open>A file cut short\<close>

text \<open>The lines of a prefix of a file are prefixes of its lines.\<close>

lemma getlines_plain: "nl \<notin> set l \<Longrightarrow> getlines l = (if l = [] then [] else [l])"
proof -
  assume "nl \<notin> set l"
  moreover have "nl \<notin> set l \<Longrightarrow> getlines_from acc l = (if acc @ l = [] then [] else [acc @ l])" for acc
    by (induction l arbitrary: acc) auto
  ultimately show ?thesis by (simp add: getlines_def)
qed

lemma getlines_cut:
  "(\<And>l. l \<in> set ls \<Longrightarrow> nl \<notin> set l) \<Longrightarrow> x \<in> set (getlines (take n (unlines ls))) \<Longrightarrow>
   \<exists>l \<in> set ls. \<exists>m. x = take m l"
proof (induction ls arbitrary: n)
  case (Cons l ls)
  show ?case
  proof (cases "n \<le> length l")
    case True
    then have "take n (unlines (l # ls)) = take n l" by simp
    moreover have "nl \<notin> set (take n l)" using Cons.prems(1) [of l] by (auto dest: in_set_takeD)
    ultimately show ?thesis
      using Cons.prems(2) getlines_plain [of "take n l"] by (auto split: if_splits)
  next
    case False
    then obtain j where j: "n - length l = Suc j" by (metis Suc_diff_Suc not_le)
    with False have "take n (unlines (l # ls)) = l @ nl # take j (unlines ls)" by simp
    moreover have "nl \<notin> set l" using Cons.prems(1) by simp
    ultimately have "x = l \<or> x \<in> set (getlines (take j (unlines ls)))" using Cons.prems(2) by simp
    then show ?thesis using Cons.IH [of j] Cons.prems(1) by (auto intro: exI [of _ "length l"])
  qed
qed simp

lemma parse_records_line:
  assumes "x \<in> set (parse_records lines)"
  shows "\<exists>line \<in> set lines. \<exists>k. str_find colon line = Some k \<and> x = (take k line, drop (k + 1) line)"
  using assms by (induction lines rule: parse_records.induct) (auto split: option.splits if_splits)

lemma cut_record_typed:
  assumes "account_typed c r" "str_find colon (take m (record_line r)) = Some k"
  shows "account_typed c (take k (take m (record_line r)), drop (k + 1) (take m (record_line r)))"
proof -
  have no: "colon \<notin> set (fst r)"
    using typed_record_ok [OF assms(1)] by (simp add: record_ok_def name_ok_def)
  have "length (fst r) < m"
  proof (rule ccontr)
    assume "\<not> length (fst r) < m"
    then have "take m (record_line r) = take m (fst r)" by (simp add: record_line_def)
    with no assms(2) show False
      by (metis in_set_takeD option.distinct(1) str_find_None_iff)
  qed
  then obtain j where j: "m - length (fst r) = Suc j" by (metis Suc_diff_Suc)
  with \<open>length (fst r) < m\<close> have t: "take m (record_line r) = fst r @ colon # take j (snd r)"
    by (simp add: record_line_def)
  with assms(2) no have "k = length (fst r)" by simp
  moreover obtain pw cut where "validate_password pw" "to_hex (encrypt c pw) = snd r @ cut"
    using assms(1) by (auto simp: account_typed_def)
  then have "\<exists>pw cut. validate_password pw \<and> to_hex (encrypt c pw) = take j (snd r) @ cut"
    by (metis append.assoc append_take_drop_id)
  ultimately show ?thesis using assms(1) by (simp add: account_typed_def t)
qed

lemma cut_file_typed:
  assumes "\<And>r. r \<in> set rs \<Longrightarrow> account_typed c r"
    and "x \<in> set (parse_records (getlines (take n (unlines (map record_line rs)))))"
  shows "account_typed c x"
proof -
  from parse_records_line [OF assms(2)] obtain line k
    where l: "line \<in> set (getlines (take n (unlines (map record_line rs))))"
      "str_find colon line = Some k" "x = (take k line, drop (k + 1) line)" by blast
  have "nl \<notin> set l" if "l \<in> set (map record_line rs)" for l
    using that nl_record_line [OF typed_record_ok [OF assms(1)]] by auto
  from getlines_cut [OF this l(1)] obtain r m where r: "r \<in> set rs" "line = take m (record_line r)" by auto
  from cut_record_typed [OF assms(1) [OF r(1)]] l(2,3) r(2) show ?thesis by simp
qed

subsection \<open>Writing\<close>

text \<open>A rewrite of the file leaves it as it was or makes it a prefix of what was to be written.\<close>

lemma atomic_write_cut:
  assumes "atomic_write_lines env path lines fs = (b, fs')"
  shows "files fs' path = files fs path \<or> (\<exists>n. files fs' path = Some (take n (unlines lines)))"
proof -
  obtain d fs1 where p: "ensure_parent_dir env path fs = (d, fs1)" by force
  have f1: "files fs1 = files fs" using ensure_parent_dir_files [of env path fs] p by simp
  have t: "path \<noteq> tmp_path path" by (simp add: tmp_path_def)
  let ?ofs = "put_lines env lines ofs_open"
  have "ofs_holds env ([] @ unlines lines) ?ofs"
    by (rule put_lines_holds) (simp add: ofs_holds_def ofs_open_def)
  then have "o_good ?ofs \<Longrightarrow> ofs_close env ?ofs = take (space env) (unlines lines)"
    using ofs_close_take [of env "unlines lines" ?ofs] by simp
  with assms p f1 t show ?thesis
    by (auto simp: atomic_write_lines_def Let_def split: if_splits)
qed

lemma load_records_sub: "set (load_records b path fs) \<subseteq> set (load_records True path fs)"
  by (cases b; cases "files fs path") (simp_all add: load_records_def read_all_lines_def)

lemma load_records_file:
  "files fs' path = files fs path \<Longrightarrow> load_records b path fs' = load_records b path fs"
  by (simp add: load_records_def read_all_lines_def)

text \<open>Whatever the disk does, a registration of valid input keeps the type of the file.\<close>

lemma register_keeps_type:
  assumes "\<forall>r \<in> set (load_records True (filepath r0) fs). account_typed c r"
    and "validate_username u" "validate_password pw"
    and "register_user io r0 u (encrypt c pw) fs = (b, fs', ls)"
  shows "\<forall>r \<in> set (load_records True (filepath r0) fs'). account_typed c r"
proof (cases "find_user_locked (find_opens io) r0 u fs = None")
  case False
  with assms(1,4) show ?thesis by (simp add: register_user_def)
next
  case True
  define rs where "rs = load_records (load_opens io) (filepath r0) fs @ [(u, to_hex (encrypt c pw))]"
  have typed: "account_typed c r" if "r \<in> set rs" for r
    using that assms(1-3) load_records_sub [of "load_opens io" "filepath r0" fs]
    by (auto simp: rs_def account_typed_def)
  have "atomic_write_lines (write_env io) (filepath r0) (map record_line rs) fs = (b, fs')"
    using True assms(4) unfolding register_user_def save_records_def Let_def
    by (auto simp: rs_def simp del: map_append split: prod.splits)
  from atomic_write_cut [OF this] show ?thesis
  proof
    assume same: "files fs' (filepath r0) = files fs (filepath r0)"
    from assms(1) show ?thesis by (simp only: load_records_file [OF same])
  next
    assume "\<exists>n. files fs' (filepath r0) = Some (take n (unlines (map record_line rs)))"
    then obtain n where n: "files fs' (filepath r0) = Some (take n (unlines (map record_line rs)))" by blast
    have "account_typed c x" if "x \<in> set (load_records True (filepath r0) fs')" for x
    proof (rule cut_file_typed [OF typed])
      show "x \<in> set (parse_records (getlines (take n (unlines (map record_line rs)))))"
        using that n by (simp add: load_records_def read_all_lines_def)
    qed
    then show ?thesis by blast
  qed
qed

text \<open>A name that authenticates is the name of a record, so it is valid.\<close>

lemma find_record_in: "find_record u rs = Some x \<Longrightarrow> (u, x) \<in> set rs"
  by (induction rs) (auto split: if_splits)

lemma authenticated_name_valid:
  assumes "accounts_ok c w" "authenticate b (registry w) u enc (wfs w)"
  shows "validate_username u"
proof -
  from assms(2) obtain x where "find_user_locked b (registry w) u (wfs w) = Some x"
    by (auto simp: authenticate_def split: option.splits)
  then have "(u, x) \<in> set (load_records True (filepath (registry w)) (wfs w))"
    using find_record_in load_records_sub by (fastforce simp: find_user_locked_def)
  with assms(1) show ?thesis by (auto simp: accounts_ok_def account_typed_def)
qed

end
