(* ===== verification/Server_Interleaving.thy ===== *)
theory Server_Interleaving
  imports Handler_Calls Accounts
begin

text \<open>
  The server with all its worker threads, interleaved between any two calls of
  \<open>Handler_Calls\<close>. Each thread is checked against the others by rely and guarantee: what any other
  thread may do between two of its calls, and what each of its own calls keeps of the others. The
  result is the exact border of the memory safety of the server: the only calls that can follow a
  dead pointer are the sends that the managers make after releasing their mutexes.
\<close>

subsection \<open>Rely and guarantee\<close>

text \<open>The invariant of the shared state: well-formed, and, for a server that started on a typed
  accounts file (\<open>T\<close> is \<open>Some\<close> cipher), with typed accounts and no client registered under a name that
  is not valid.\<close>

definition names_ok :: "world \<Rightarrow> bool" where
  "names_ok w \<longleftrightarrow> (\<forall>p \<in> set (clients (bman w)).
     \<exists>u. call_get_username p (wstore w) = Some u \<and> validate_username u)"

definition world_ok :: "cipher option \<Rightarrow> world \<Rightarrow> bool" where
  "world_ok T w \<longleftrightarrow> world_wf w \<and> (\<forall>c \<in> set_option T. accounts_ok c w \<and> names_ok w)"

text \<open>What the others leave of session \<open>p\<close>: its name, its rooms, and that it is unknown to the
  registry if it was. (They may deactivate it, close it, or drop it from the client list.)\<close>

definition set_flag :: "ptr \<Rightarrow> world \<Rightarrow> bool option" where
  "set_flag p w = map_option username_set (heap (wstore w) p)"

definition rely :: "cipher option \<Rightarrow> ptr \<Rightarrow> world \<Rightarrow> world \<Rightarrow> bool" where
  "rely T p w w' \<longleftrightarrow> world_ok T w'
     \<and> call_get_username p (wstore w') = call_get_username p (wstore w)
     \<and> (\<forall>r. in_room (rman w') r p = in_room (rman w) r p)
     \<and> (p \<notin> set (clients (bman w)) \<longrightarrow> p \<notin> set (clients (bman w')) \<and> set_flag p w' = set_flag p w)"

definition guar :: "cipher option \<Rightarrow> ptr \<Rightarrow> world \<Rightarrow> world \<Rightarrow> bool" where
  "guar T p w w' \<longleftrightarrow> world_ok T w' \<and> (\<forall>q. q \<noteq> p \<longrightarrow> rely T q w w')"

lemma world_ok_wf: "world_ok T w \<Longrightarrow> world_wf w"
  by (simp add: world_ok_def)

lemma world_ok_kept:
  assumes "world_ok T w" "world_wf w'" "registry w' = registry w" "wfs w' = wfs w"
    and "\<And>q. q \<in> set (clients (bman w')) \<Longrightarrow> q \<in> set (clients (bman w))
      \<and> call_get_username q (wstore w') = call_get_username q (wstore w)"
  shows "world_ok T w'"
  using assms(1,2,5) accounts_ok_cong [OF assms(3,4)] by (fastforce simp: world_ok_def names_ok_def)

lemma rely_refl: "world_ok T w \<Longrightarrow> rely T p w w"
  by (simp add: rely_def)

lemma rely_trans [trans]: "rely T p w w1 \<Longrightarrow> rely T p w1 w2 \<Longrightarrow> rely T p w w2"
  by (simp add: rely_def)

lemma rely_ok: "rely T p w w' \<Longrightarrow> world_ok T w'" and rely_wf: "rely T p w w' \<Longrightarrow> world_wf w'"
  by (simp_all add: rely_def world_ok_def)

lemma rely_live: "rely T p w w' \<Longrightarrow> live (wstore w') p = live (wstore w) p"
  by (cases "heap (wstore w) p"; cases "heap (wstore w') p")
     (auto simp: rely_def live_def call_get_username_def)

lemma rely_same_id:
  assumes "world_ok T w'" "rel_option same_id (heap (wstore w) p) (heap (wstore w') p)"
    and "\<And>r. in_room (rman w') r p = in_room (rman w) r p"
    and "p \<notin> set (clients (bman w)) \<Longrightarrow> p \<notin> set (clients (bman w'))"
  shows "rely T p w w'"
  using assms same_id_name [OF assms(2)]
  by (cases "heap (wstore w) p"; cases "heap (wstore w') p")
     (auto simp: rely_def set_flag_def same_id_def)

lemma quiet_ok: "world_ok T w \<Longrightarrow> quiet p w w' \<Longrightarrow> world_ok T w'"
  using quiet_world_wf [of w p w'] same_ids_get(1) [of "wstore w" "wstore w'"]
  by (intro world_ok_kept [of T w w']) (auto simp: quiet_def world_ok_wf)

lemma quiet_rely: "world_ok T w \<Longrightarrow> quiet p w w' \<Longrightarrow> rely T q w w'"
  by (rule rely_same_id) (auto simp: quiet_ok quiet_def same_ids_at)

lemma quiet_guar: "world_ok T w \<Longrightarrow> quiet p w w' \<Longrightarrow> guar T p w w'"
  using quiet_ok [of T w p w'] quiet_rely [of T w p w'] by (simp add: guar_def)

lemma turn_guar: "world_ok T w' \<Longrightarrow> turn p w w' \<Longrightarrow> guar T p w w'"
  unfolding guar_def by (auto simp: turn_def intro!: rely_same_id)

text \<open>An assertion about \<open>p\<close> that the others keep.\<close>

definition held :: "cipher option \<Rightarrow> ptr \<Rightarrow> (world \<Rightarrow> bool) \<Rightarrow> bool" where
  "held T p I \<longleftrightarrow> (\<forall>w. I w \<longrightarrow> world_wf w \<and> live (wstore w) p \<and> (\<forall>w'. rely T p w w' \<longrightarrow> I w'))"

lemma heldI:
  "(\<And>w. I w \<Longrightarrow> world_wf w \<and> live (wstore w) p) \<Longrightarrow> (\<And>w w'. I w \<Longrightarrow> rely T p w w' \<Longrightarrow> I w') \<Longrightarrow> held T p I"
  by (simp add: held_def)

lemma held_rely: "held T p I \<Longrightarrow> I w \<Longrightarrow> rely T p w w' \<Longrightarrow> I w'"
  by (simp add: held_def)

lemma held_wf: "held T p I \<Longrightarrow> I w \<Longrightarrow> world_wf w" and held_live: "held T p I \<Longrightarrow> I w \<Longrightarrow> live (wstore w) p"
  by (simp_all add: held_def)

lemma held_quiet: "held T p I \<Longrightarrow> I w \<Longrightarrow> world_ok T w \<Longrightarrow> quiet p w w' \<Longrightarrow> I w'"
  by (meson held_rely quiet_rely)

lemma held_auth: "held T p (auth_inv p)"
proof (rule heldI)
  show "auth_inv p w \<Longrightarrow> world_wf w \<and> live (wstore w) p" for w
    using inv_live(1) by (auto simp: auth_inv_def)
  fix w w' assume "auth_inv p w" "rely T p w w'"
  then show "auth_inv p w'"
    by (cases "heap (wstore w') p")
       (auto simp: auth_inv_def rely_def set_flag_def call_get_username_def world_ok_wf)
qed

text \<open>Between \<open>set_username\<close> and \<open>add_client\<close>.\<close>

definition new_name :: "ptr \<Rightarrow> string \<Rightarrow> world \<Rightarrow> bool" where
  "new_name p u w \<longleftrightarrow> named_inv p u w \<and> p \<notin> set (clients (bman w))"

lemma named_live: "call_get_username p st = Some u \<Longrightarrow> live st p"
  by (auto simp: live_def call_get_username_def)

lemma held_new_name: "held T p (new_name p u)"
  by (rule heldI) (auto simp: new_name_def named_inv_def rely_def named_live world_ok_wf)

lemma held_named: "held T p (named_inv p u)"
  by (rule heldI) (auto simp: named_inv_def rely_def named_live world_ok_wf)

lemma held_chat: "held T (session_ptr h) (chat_inv h u)"
proof (rule heldI)
  show "chat_inv h u w \<Longrightarrow> world_wf w \<and> live (wstore w) (session_ptr h)" for w
    using inv_live(3) by (auto simp: chat_inv_def)
  show "chat_inv h u w \<Longrightarrow> rely T (session_ptr h) w w' \<Longrightarrow> chat_inv h u w'" for w w'
    using rely_wf [of T "session_ptr h" w w'] by (simp add: chat_inv_def rely_def)
qed

definition standing :: "ptr \<Rightarrow> world \<Rightarrow> bool" where
  "standing p w \<longleftrightarrow> world_wf w \<and> live (wstore w) p"

lemma held_standing: "held T p (standing p)"
  by (rule heldI) (auto simp: standing_def rely_live rely_wf)

subsection \<open>Threads that are safe among the others\<close>

text \<open>
  \<open>safe T p Q a w\<close>: from state \<open>w\<close>, whatever the others do within \<open>rely T p\<close> before each of the calls
  of \<open>a\<close>, the call is defined (a foreign one, exactly if the session it goes to is still there), guarantees
  the others what they rely on, and when the tree ends, \<open>Q\<close> holds.
\<close>

inductive safe :: "cipher option \<Rightarrow> ptr \<Rightarrow> ('r \<Rightarrow> world \<Rightarrow> bool) \<Rightarrow> 'r act \<Rightarrow> world \<Rightarrow> bool" for T p Q where
  Ret: "(\<And>w1. rely T p w w1 \<Longrightarrow> Q r w1) \<Longrightarrow> safe T p Q (Ret r) w"
| Call: "live (wstore w) p \<Longrightarrow>
    (\<And>w1. rely T p w w1 \<Longrightarrow> \<exists>a w2. f w1 = Some (a, w2) \<and> guar T p w1 w2 \<and> safe T p Q a w2) \<Longrightarrow>
    safe T p Q (Call f) w"
| Foreign: "live (wstore w) p \<Longrightarrow>
    (\<And>w1. rely T p w w1 \<Longrightarrow> f w1 \<noteq> None \<longleftrightarrow> live (wstore w1) q) \<Longrightarrow>
    (\<And>w1 a w2. rely T p w w1 \<Longrightarrow> f w1 = Some (a, w2) \<Longrightarrow> guar T p w1 w2 \<and> safe T p Q a w2) \<Longrightarrow>
    safe T p Q (Foreign q f) w"
| Line: "live (wstore w) p \<Longrightarrow> (\<And>w1 l. rely T p w w1 \<Longrightarrow> safe T p Q (k l) w1) \<Longrightarrow> safe T p Q (Line p k) w"

inductive_cases safe_RetE: "safe T p Q (Ret r) w"
inductive_cases safe_CallE: "safe T p Q (Call f) w"
inductive_cases safe_ForeignE: "safe T p Q (Foreign q f) w"
inductive_cases safe_LineE: "safe T p Q (Line q k) w"

lemma safe_rely:
  assumes "safe T p Q a w" and r: "rely T p w w'"
  shows "safe T p Q a w'"
  using assms(1)
proof (cases rule: safe.cases)
  case (Ret r)
  then show ?thesis using rely_trans [OF r] by (auto intro: safe.Ret)
next
  case (Call f)
  then show ?thesis using rely_trans [OF r] r by (auto intro!: safe.Call simp: rely_live)
next
  case (Foreign f q)
  show ?thesis
    unfolding Foreign(1)
  proof (rule safe.Foreign)
    show "live (wstore w') p" using Foreign r by (simp add: rely_live)
    show "rely T p w' w1 \<Longrightarrow> f w1 \<noteq> None \<longleftrightarrow> live (wstore w1) q" for w1
      using Foreign(3) rely_trans [OF r] by blast
    show "rely T p w' w1 \<Longrightarrow> f w1 = Some (a, w2) \<Longrightarrow> guar T p w1 w2 \<and> safe T p Q a w2" for w1 a w2
      using Foreign(4) rely_trans [OF r] by blast
  qed
next
  case (Line k)
  then show ?thesis using rely_trans [OF r] r by (auto intro!: safe.Line simp: rely_live)
qed

lemma safe_live: "safe T p Q a w \<Longrightarrow> (\<And>r. a \<noteq> Ret r) \<Longrightarrow> live (wstore w) p"
  by (cases rule: safe.cases) auto

subsection \<open>Rules for the calls\<close>

lemma safe_ret: "held T p I \<Longrightarrow> I w \<Longrightarrow> (\<And>w1. I w1 \<Longrightarrow> Q r w1) \<Longrightarrow> safe T p Q (Ret r) w"
  by (rule safe.Ret) (simp add: held_rely)

lemma safe_call:
  assumes "held T p I" "I w"
    and "\<And>w1. I w1 \<Longrightarrow> world_ok T w1 \<Longrightarrow>
      \<exists>x w2. f w1 = Some (x, w2) \<and> guar T p w1 w2 \<and> safe T p Q (k x) w2"
  shows "safe T p Q (call f k) w"
  unfolding call_def
proof (rule safe.Call)
  show "live (wstore w) p" by (rule held_live [OF assms(1,2)])
  fix w1 assume "rely T p w w1"
  from assms(3) [OF held_rely [OF assms(1,2) this] rely_ok [OF this]]
  show "\<exists>a w2. map_option (\<lambda>(x, w'). (k x, w')) (f w1) = Some (a, w2) \<and> guar T p w1 w2 \<and> safe T p Q a w2"
    by auto
qed

lemma safe_quiet_call:
  assumes "held T p I" "I w"
    and "\<And>w1. I w1 \<Longrightarrow> \<exists>x w2. f w1 = Some (x, w2) \<and> quiet p w1 w2"
    and "\<And>x w2. I w2 \<Longrightarrow> safe T p Q (k x) w2"
  shows "safe T p Q (call f k) w"
proof (rule safe_call [OF assms(1,2)])
  fix w1 assume i: "I w1" and ok: "world_ok T w1"
  from assms(3) [OF i] obtain x w2 where "f w1 = Some (x, w2)" "quiet p w1 w2" by blast
  with i assms(4) held_quiet [OF assms(1) i ok] quiet_guar [OF ok]
  show "\<exists>x w2. f w1 = Some (x, w2) \<and> guar T p w1 w2 \<and> safe T p Q (k x) w2" by blast
qed

lemma safe_foreign:
  assumes "held T p I" "I w"
    and "\<And>w1. f w1 \<noteq> None \<longleftrightarrow> live (wstore w1) q"
    and "\<And>w1 x w2. f w1 = Some (x, w2) \<Longrightarrow> quiet p w1 w2"
    and "\<And>x w2. I w2 \<Longrightarrow> safe T p Q (k x) w2"
  shows "safe T p Q (foreign q f k) w"
  unfolding foreign_def
proof (rule safe.Foreign)
  show "live (wstore w) p" by (rule held_live [OF assms(1,2)])
  show "map_option (\<lambda>(x, w'). (k x, w')) (f w1) \<noteq> None \<longleftrightarrow> live (wstore w1) q" for w1
    using assms(3) [of w1] by simp
  fix w1 a w2
  assume r: "rely T p w w1" and f: "map_option (\<lambda>(x, w'). (k x, w')) (f w1) = Some (a, w2)"
  then obtain x where x: "f w1 = Some (x, w2)" "a = k x" by auto
  note i = held_rely [OF assms(1,2) r]
  show "guar T p w1 w2 \<and> safe T p Q a w2"
    using quiet_guar [OF rely_ok [OF r] assms(4) [OF x(1)]]
      assms(5) [OF held_quiet [OF assms(1) i rely_ok [OF r] assms(4) [OF x(1)]]] x(2) by simp
qed

lemma safe_line:
  assumes "held T p I" "I w" "\<And>l w1. I w1 \<Longrightarrow> safe T p Q (k l) w1"
  shows "safe T p Q (Line p k) w"
  by (rule safe.Line) (use assms held_rely [OF assms(1,2)] held_live [OF assms(1,2)] in auto)

lemma safe_log:
  "held T p I \<Longrightarrow> I w \<Longrightarrow> (\<And>w1. I w1 \<Longrightarrow> safe T p Q (k ()) w1) \<Longrightarrow> safe T p Q (call (logging l m) k) w"
  by (rule safe_quiet_call [where I = I]) (auto simp: logging_def)

lemma safe_ask:
  assumes "held T p I" "I w" "\<And>st. live st p \<Longrightarrow> f st \<noteq> None" "\<And>x w1. I w1 \<Longrightarrow> safe T p Q (k x) w1"
  shows "safe T p Q (call (reading f) k) w"
  by (rule safe_quiet_call [OF assms(1,2)])
     (use assms(3) [OF held_live [OF assms(1)]] assms(4) in \<open>auto simp: reading_def\<close>)

lemma live_asks [simp]:
  "live st p \<Longrightarrow> \<exists>x. call_get_username p st = Some x" "live st p \<Longrightarrow> \<exists>x. call_get_ip p st = Some x"
  "live st p \<Longrightarrow> \<exists>x. call_is_active p st = Some x"
  by (auto simp: live_def call_get_username_def call_get_ip_def call_is_active_def)

lemma asks_defined:
  "call_is_active q st \<noteq> None \<longleftrightarrow> live st q" "call_get_username q st \<noteq> None \<longleftrightarrow> live st q"
  by (auto simp: call_is_active_def call_get_username_def live_def)

lemma sending_quiet: "sending q m w = Some (x, w') \<Longrightarrow> quiet p w w'"
  by (auto simp: sending_def intro!: sent_only_quiet dest: call_send_msg_sent_only)

lemma sending_live: "live (wstore w) q \<Longrightarrow> \<exists>x w'. sending q m w = Some (x, w')"
  using call_send_msg_live [of "wstore w" q m] by (auto simp: sending_def)

lemma sending_defined: "sending q m w \<noteq> None \<longleftrightarrow> live (wstore w) q"
  using sending_live [of w q m] by (auto simp: sending_def live_def elim: call_send_msg_SomeE)

lemma safe_send:
  assumes "held T (session_ptr h) I" "I w" "\<And>b w1. I w1 \<Longrightarrow> safe T (session_ptr h) Q (k b) w1"
  shows "safe T (session_ptr h) Q (send_c c' h m k) w"
  unfolding send_c_def
proof (rule safe_quiet_call [OF assms(1,2) _ assms(3)])
  fix w1 assume "I w1"
  from sending_live [OF held_live [OF assms(1) this]] sending_quiet
  show "\<exists>x w2. sending (session_ptr h) (encrypt c' m) w1 = Some (x, w2) \<and> quiet (session_ptr h) w1 w2"
    by blast
qed

lemma safe_foreign_send:
  assumes "held T p I" "I w" "\<And>w1. I w1 \<Longrightarrow> safe T p Q (k ()) w1"
  shows "safe T p Q (foreign q (sending q m) (\<lambda>_. k ())) w"
  by (rule safe_foreign [OF assms(1,2)]) (use sending_defined sending_quiet assms(3) in blast)+

lemma safe_foreign_ask:
  assumes "held T p I" "I w" "\<And>st. f st \<noteq> None \<longleftrightarrow> live st q" "\<And>x w1. I w1 \<Longrightarrow> safe T p Q (k x) w1"
  shows "safe T p Q (foreign q (reading f) k) w"
  by (rule safe_foreign [OF assms(1,2)]) (use assms(3,4) in \<open>auto simp: reading_def\<close>)

subsection \<open>The handler's functions are safe\<close>

lemma safe_present_menu:
  assumes "auth_inv (session_ptr h) w" "\<And>n w1. auth_inv (session_ptr h) w1 \<Longrightarrow> safe T (session_ptr h) Q (k n) w1"
  shows "safe T (session_ptr h) Q (present_menu_c c h k) w"
  unfolding present_menu_c_def Let_def
  by (rule safe_send [OF held_auth assms(1)]) (auto intro!: safe_line [OF held_auth] assms(2))

lemma safe_refuse:
  assumes "auth_inv (session_ptr h) w"
    and "\<And>w1. auth_inv (session_ptr h) w1 \<Longrightarrow> safe T (session_ptr h) Q (k False) w1"
  shows "safe T (session_ptr h) Q (refuse_c c h m k) w"
  unfolding refuse_c_def by (rule safe_send [OF held_auth assms(1)]) (rule assms(2))

lemma rename_step:
  assumes "auth_inv p w" "world_ok T w"
  shows "\<exists>st. call_set_username p u (wstore w) = Some st
    \<and> new_name p u (w\<lparr>wstore := st\<rparr>) \<and> guar T p w (w\<lparr>wstore := st\<rparr>)"
proof -
  from assms(1) obtain s where s: "heap (wstore w) p = Some s" "\<not> username_set s"
    and wf: "world_wf w" and new: "p \<notin> set (clients (bman w))" "\<And>r. \<not> in_room (rman w) r p"
    by (auto simp: auth_inv_def)
  from call_set_username_eff [OF s, of u] obtain st
    where st: "call_set_username p u (wstore w) = Some st" "call_get_username p st = Some u"
      "\<And>q. q \<noteq> p \<Longrightarrow> heap st q = heap (wstore w) q" "\<And>q. live st q = live (wstore w) q"
      "\<And>q. fd_of st q = fd_of (wstore w) q" "\<And>q. call_is_active q st = call_is_active q (wstore w)" by blast
  have name: "call_get_username q st = call_get_username q (wstore w)" if "q \<noteq> p" for q
    using st(3) [OF that] by (simp add: call_get_username_def)
  have "bm_wf (bman w) st"
    using wf new(1) st(4) name unfolding world_wf_def bm_wf_def by metis
  then have wf': "world_wf (w\<lparr>wstore := st\<rparr>)"
    using wf st(4-6) by (auto simp: world_wf_def store_wf_iff fds_distinct_def rm_wf_def)
  then have ok: "world_ok T (w\<lparr>wstore := st\<rparr>)"
    by (rule world_ok_kept [OF assms(2)]) (use new(1) name in \<open>simp_all, metis\<close>)
  have "rely T q w (w\<lparr>wstore := st\<rparr>)" if "q \<noteq> p" for q
    by (rule rely_same_id [OF ok]) (use st(3) [OF that] in \<open>simp_all add: option.rel_refl\<close>)
  with ok have "guar T p w (w\<lparr>wstore := st\<rparr>)" by (simp add: guar_def)
  moreover have "new_name p u (w\<lparr>wstore := st\<rparr>)"
    using wf' st(2) new by (simp add: new_name_def named_inv_def)
  ultimately show ?thesis using st(1) by blast
qed

lemma add_step:
  assumes "new_name p u w" "world_ok T w" "T \<noteq> None \<Longrightarrow> validate_username u"
  shows "\<exists>bm. add_client p (wstore w) (bman w) = Some bm
    \<and> named_inv p u (w\<lparr>bman := bm\<rparr>) \<and> guar T p w (w\<lparr>bman := bm\<rparr>)"
proof -
  have wf: "world_wf w" and name: "call_get_username p (wstore w) = Some u"
    and new: "p \<notin> set (clients (bman w))" and rooms: "\<And>r. \<not> in_room (rman w) r p"
    using assms(1) by (auto simp: new_name_def named_inv_def)
  from add_client_wf [OF _ _ named_live [OF name] new] wf obtain bm
    where bm: "add_client p (wstore w) (bman w) = Some bm" "bm_wf bm (wstore w)"
      "clients bm = clients (bman w) @ [p]" by (auto simp: world_wf_def)
  have wf': "world_wf (w\<lparr>bman := bm\<rparr>)" using wf bm(2) by (simp add: world_wf_def)
  have ok: "world_ok T (w\<lparr>bman := bm\<rparr>)"
    using wf' assms(2,3) bm(3) name accounts_ok_cong [of "w\<lparr>bman := bm\<rparr>" w]
    by (fastforce simp: world_ok_def names_ok_def)
  have "rely T q w (w\<lparr>bman := bm\<rparr>)" if "q \<noteq> p" for q
    by (rule rely_same_id [OF ok]) (use bm(3) that in \<open>simp_all add: option.rel_refl\<close>)
  with ok have "guar T p w (w\<lparr>bman := bm\<rparr>)" by (simp add: guar_def)
  with bm(1) wf' name rooms show ?thesis by (simp add: named_inv_def)
qed

lemma safe_admit:
  assumes "auth_inv (session_ptr h) w" "T \<noteq> None \<Longrightarrow> validate_username u"
    and "\<And>w1. named_inv (session_ptr h) u w1 \<Longrightarrow> safe T (session_ptr h) Q (k True) w1"
  shows "safe T (session_ptr h) Q (admit_c c h u m k) w"
proof -
  let ?p = "session_ptr h"
  have add: "safe T ?p Q (call (managing (add_client ?p)) (\<lambda>_. send_c c h (serialise (make_ok m)) (\<lambda>_. k True))) w1"
    if "new_name ?p u w1" for w1
  proof (rule safe_call [OF held_new_name that])
    fix w2 assume "new_name ?p u w2" "world_ok T w2"
    from add_step [OF this assms(2)] obtain bm where bm: "add_client ?p (wstore w2) (bman w2) = Some bm"
      "named_inv ?p u (w2\<lparr>bman := bm\<rparr>)" "guar T ?p w2 (w2\<lparr>bman := bm\<rparr>)" by blast
    have "safe T ?p Q (send_c c h (serialise (make_ok m)) (\<lambda>_. k True)) (w2\<lparr>bman := bm\<rparr>)"
      by (rule safe_send [OF held_named bm(2)]) (rule assms(3))
    with bm(1,3) show "\<exists>x w3. managing (add_client ?p) w2 = Some (x, w3) \<and> guar T ?p w2 w3
        \<and> safe T ?p Q (send_c c h (serialise (make_ok m)) (\<lambda>_. k True)) w3" by (simp add: managing_def)
  qed
  show ?thesis
    unfolding admit_c_def
  proof (rule safe_call [OF held_auth assms(1)])
    fix w1 assume "auth_inv ?p w1" "world_ok T w1"
    from rename_step [OF this, of u] add
    show "\<exists>x w2. storing (call_set_username ?p u) w1 = Some (x, w2) \<and> guar T ?p w1 w2
        \<and> safe T ?p Q (call (managing (add_client ?p)) (\<lambda>_. send_c c h (serialise (make_ok m)) (\<lambda>_. k True))) w2"
      by (auto simp: storing_def)
  qed
qed

text \<open>The end of both handlers.\<close>

definition typing :: "cipher option \<Rightarrow> cipher \<Rightarrow> bool" where
  "typing T c \<longleftrightarrow> T = None \<or> T = Some c"

abbreviation admitted_or_not ::
    "cipher option \<Rightarrow> handler \<Rightarrow> ('r \<Rightarrow> world \<Rightarrow> bool) \<Rightarrow> (bool \<Rightarrow> 'r act) \<Rightarrow> bool" where
  "admitted_or_not T h Q k \<equiv>
     (\<forall>w. auth_inv (session_ptr h) w \<longrightarrow> safe T (session_ptr h) Q (k False) w)
     \<and> (\<forall>u w. named_inv (session_ptr h) u w \<longrightarrow> safe T (session_ptr h) Q (k True) w)"

lemma register_step:
  assumes "auth_inv p w" "world_ok T w" "validate_username u" "validate_password pw" "typing T c"
  shows "\<exists>b w'. registering u (encrypt c pw) w = Some (b, w') \<and> auth_inv p w' \<and> guar T p w w'"
proof -
  obtain io w2 where n: "next_io w = (io, w2)" by force
  obtain b fs ls where r: "register_user io (registry w2) u (encrypt c pw) (wfs w2) = (b, fs, ls)"
    by (metis prod_cases3)
  let ?w = "w2\<lparr>wfs := fs, logs := logs w2 @ ls\<rparr>"
  have q: "quiet p w w2" using next_io_quiet [OF n] by simp
  have inv: "auth_inv p ?w" using quiet_auth [OF assms(1) q] by simp
  have ok: "world_ok T w2" by (rule quiet_ok [OF assms(2) q])
  have "accounts_ok c ?w" if "T = Some c"
    using register_keeps_type [OF _ assms(3,4) r] ok that by (simp add: accounts_ok_def world_ok_def)
  moreover have "names_ok ?w" if "T = Some c" using ok that by (simp add: world_ok_def names_ok_def)
  ultimately have "world_ok T ?w" using inv assms(5) by (auto simp: world_ok_def auth_inv_def typing_def)
  moreover have "turn p w ?w" using quiet_turn [OF q] by simp
  ultimately have "guar T p w ?w" by (rule turn_guar)
  with inv n r show ?thesis by (simp add: registering_def)
qed

lemma safe_finish_register:
  assumes "auth_inv (session_ptr h) w" "validate_username u" "validate_password pw" "admitted_or_not T h Q k"
    and "typing T c"
  shows "safe T (session_ptr h) Q (finish_register_c c h u pw k) w"
  unfolding finish_register_c_def
proof (rule safe_call [OF held_auth assms(1)], goal_cases)
  case (1 w1)
  from register_step [OF this assms(2,3,5)] obtain b w2
    where r: "registering u (encrypt c pw) w1 = Some (b, w2)" "auth_inv (session_ptr h) w2"
      "guar T (session_ptr h) w1 w2" by blast
  show ?case
    using r assms(2,4)
    by (auto intro!: safe_log [OF held_auth] safe_ask [OF held_auth] safe_refuse safe_admit)
qed

lemma safe_handle_register:
  assumes "auth_inv (session_ptr h) w" "admitted_or_not T h Q k" "typing T c"
  shows "safe T (session_ptr h) Q (handle_register_c c h k) w"
  unfolding handle_register_c_def
  by (rule safe_send [OF held_auth assms(1)])
     (use assms(2,3) in \<open>auto intro!: safe_send [OF held_auth] safe_line [OF held_auth] safe_refuse
        safe_finish_register\<close>)

lemma safe_finish_login:
  assumes "auth_inv (session_ptr h) w" "admitted_or_not T h Q k" "typing T c"
  shows "safe T (session_ptr h) Q (finish_login_c c h u pw k) w"
  unfolding finish_login_c_def
proof (rule safe_call [OF held_auth assms(1)], goal_cases)
  case (1 w1)
  obtain io w2 where n: "next_io w1 = (io, w2)" by force
  have q: "quiet (session_ptr h) w1 w2" using next_io_quiet [OF n] by simp
  have valid: "validate_username u" if "T \<noteq> None"
    and "authenticate (find_opens io) (registry w2) u (encrypt c pw) (wfs w2)"
    using authenticated_name_valid [OF _ that(2)] quiet_ok [OF 1(2) q] assms(3) that(1)
    unfolding world_ok_def typing_def by auto
  have "auth_inv (session_ptr h) w2" by (rule quiet_auth [OF 1(1) q])
  then show ?case
    using n quiet_guar [OF 1(2) q] valid assms(2)
    by (auto simp: authenticating_def intro!: safe_log [OF held_auth] safe_ask [OF held_auth] safe_refuse safe_admit)
qed

lemma safe_handle_login:
  assumes "auth_inv (session_ptr h) w" "admitted_or_not T h Q k" "typing T c"
  shows "safe T (session_ptr h) Q (handle_login_c c h k) w"
  unfolding handle_login_c_def
  by (rule safe_send [OF held_auth assms(1)])
     (use assms(2,3) in \<open>auto intro!: safe_send [OF held_auth] safe_line [OF held_auth] safe_finish_login\<close>)

lemma safe_auth_once:
  assumes "auth_inv (session_ptr h) w"
    and "\<And>w1. auth_inv (session_ptr h) w1 \<Longrightarrow> safe T (session_ptr h) Q (k Lost) w1"
    and "\<And>w1. auth_inv (session_ptr h) w1 \<Longrightarrow> safe T (session_ptr h) Q (k Again) w1"
    and "\<And>u w1. named_inv (session_ptr h) u w1 \<Longrightarrow> safe T (session_ptr h) Q (k Admitted) w1"
    and "typing T c"
  shows "safe T (session_ptr h) Q (auth_once_c c h k) w"
  unfolding auth_once_c_def
  by (rule safe_present_menu [OF assms(1)])
     (use assms(2-5) in \<open>auto intro!: safe_handle_register safe_handle_login safe_send [OF held_auth]\<close>)

subsection \<open>The chat is safe\<close>

lemma chat_ok_guar:
  assumes "world_ok T w" "chat_inv h u w" "chat_ok h u w h' w'"
  shows "guar T (session_ptr h) w w'"
proof (rule turn_guar)
  show t: "turn (session_ptr h) w w'" using assms(3) by (simp add: chat_ok_def)
  have "call_get_username q (wstore w') = call_get_username q (wstore w)" for q
    using assms(2,3) t same_id_name [of "wstore w" q "wstore w'"]
    by (cases "q = session_ptr h") (auto simp: chat_ok_def chat_inv_def turn_def)
  then show "world_ok T w'"
    using assms by (intro world_ok_kept [OF assms(1)]) (auto simp: chat_ok_def chat_inv_def turn_def)
qed

lemma safe_rooming:
  assumes "held T p I" "I w" "\<And>w1. I w1 \<Longrightarrow> world_ok T w1 \<Longrightarrow> guar T p w1 (w1\<lparr>rman := f (rman w1)\<rparr>)
    \<and> safe T p Q (k ()) (w1\<lparr>rman := f (rman w1)\<rparr>)"
  shows "safe T p Q (call (rooming f) k) w"
  by (rule safe_call [OF assms(1,2)]) (use assms(3) in \<open>simp add: rooming_def\<close>)

lemma enter_step:
  assumes "place_ok place" "named_inv (session_ptr h) u w" "current_room h \<noteq> []" "world_ok T w"
  defines "w' \<equiv> w\<lparr>rman := join_room place (current_room h) (session_ptr h) (rman w)\<rparr>"
  shows "chat_inv h u w' \<and> guar T (session_ptr h) w w'"
proof -
  let ?p = "session_ptr h"
  have name: "call_get_username ?p (wstore w) = Some u" and wf: "world_wf w"
    using assms(2) by (simp_all add: named_inv_def)
  note live = named_live [OF name]
  have p: "?p \<noteq> nullptr" using wf live store_wf_live by (auto simp: world_wf_def)
  have i: "in_room (rman w') r q \<longleftrightarrow> (r = current_room h \<and> q = ?p) \<or> in_room (rman w) r q" for r q
    using members_join [OF assms(1) p, of "current_room h" "rman w"] by (auto simp: in_room_def w'_def)
  have wf': "world_wf w'"
    using wf live by (simp add: world_wf_def rm_wf_join [OF assms(1)] w'_def)
  moreover have "chat_inv h u w'"
    using wf' assms(2,3) i by (auto simp: chat_inv_def named_inv_def w'_def)
  moreover have "turn ?p w w'"
    using i by (simp add: turn_def option.rel_refl w'_def)
  moreover have "world_ok T w'"
    by (rule world_ok_kept [OF assms(4) wf']) (simp_all add: w'_def)
  ultimately show ?thesis by (simp add: turn_guar)
qed

lemma safe_enter_chat:
  assumes "place_ok place" "named_inv (session_ptr h) u w" "current_room h \<noteq> []"
    and "\<And>w1. chat_inv h u w1 \<Longrightarrow> safe T (session_ptr h) Q (k ()) w1"
  shows "safe T (session_ptr h) Q (enter_chat_c c place h k) w"
proof -
  let ?p = "session_ptr h"
  let ?enter = "call (rooming (join_room place (current_room h) ?p)) (\<lambda>_. send_c c h chat_banner (\<lambda>_. k ()))"
  have banner: "safe T ?p Q (send_c c h chat_banner (\<lambda>_. k ())) w1" if "chat_inv h u w1" for w1
    by (rule safe_send [OF held_chat that]) (rule assms(4))
  have enter: "safe T ?p Q ?enter w1" if "named_inv ?p u w1" for w1
    by (rule safe_rooming [OF held_named that]) (use enter_step [OF assms(1) _ assms(3)] banner in blast)
  show ?thesis
    unfolding enter_chat_c_def
    by (auto intro!: safe_ask [OF held_named assms(2)] safe_log [OF held_named] enter)
qed

lemma safe_reply:
  assumes "chat_inv h u w" "\<And>w1. chat_inv h u w1 \<Longrightarrow> safe T (session_ptr h) Q (k (True, h)) w1"
  shows "safe T (session_ptr h) Q (reply_c c h m k) w"
  unfolding reply_c_def by (rule safe_send [OF held_chat assms(1)]) (rule assms(2))

text \<open>The continuation of a turn of the chat.\<close>

abbreviation chat_goes_on ::
    "cipher option \<Rightarrow> ptr \<Rightarrow> string \<Rightarrow> ('r \<Rightarrow> world \<Rightarrow> bool) \<Rightarrow> (bool \<times> handler \<Rightarrow> 'r act) \<Rightarrow> bool" where
  "chat_goes_on T p u Q k \<equiv>
     (\<forall>go h w. session_ptr h = p \<longrightarrow> chat_inv h u w \<longrightarrow> safe T p Q (k (go, h)) w)"

lemma safe_reply_on:
  "chat_inv h u w \<Longrightarrow> chat_goes_on T (session_ptr h) u Q k \<Longrightarrow> safe T (session_ptr h) Q (reply_c c h m k) w"
  by (erule safe_reply) blast

lemma safe_leave:
  assumes "chat_inv h u w" "\<And>w1. chat_inv (h\<lparr>current_room := []\<rparr>) u w1 \<Longrightarrow> safe T (session_ptr h) Q (k ()) w1"
  shows "safe T (session_ptr h) Q (call (rooming (leave_room (current_room h) (session_ptr h))) k) w"
proof (rule safe_rooming [OF held_chat assms(1)])
  fix w1 assume i: "chat_inv h u w1" and w: "world_ok T w1"
  note ok = leave_chat_ok [OF i]
  show "guar T (session_ptr h) w1 (w1\<lparr>rman := leave_room (current_room h) (session_ptr h) (rman w1)\<rparr>)
    \<and> safe T (session_ptr h) Q (k ()) (w1\<lparr>rman := leave_room (current_room h) (session_ptr h) (rman w1)\<rparr>)"
    using chat_ok_guar [OF w i ok] assms(2) ok by (simp add: chat_ok_def)
qed

lemma safe_join:
  assumes "place_ok place" "chat_inv h u w" "current_room h = []" "room \<noteq> []"
    and "\<And>w1. chat_inv (h\<lparr>current_room := room\<rparr>) u w1 \<Longrightarrow> safe T (session_ptr h) Q (k ()) w1"
  shows "safe T (session_ptr h) Q (call (rooming (join_room place room (session_ptr h))) k) w"
proof (rule safe_rooming [OF held_chat assms(2)])
  fix w1 assume i: "chat_inv h u w1" and w: "world_ok T w1"
  from i have ok: "chat_ok h u w1 (h\<lparr>current_room := room\<rparr>) (w1\<lparr>rman := join_room place room (session_ptr h) (rman w1)\<rparr>)"
    using join_chat_ok [OF assms(1) _ assms(4), of h u w1] assms(3) by simp
  show "guar T (session_ptr h) w1 (w1\<lparr>rman := join_room place room (session_ptr h) (rman w1)\<rparr>)
    \<and> safe T (session_ptr h) Q (k ()) (w1\<lparr>rman := join_room place room (session_ptr h) (rman w1)\<rparr>)"
    using chat_ok_guar [OF w i ok] assms(5) ok by (simp add: chat_ok_def)
qed

lemma safe_cmd_join:
  assumes "place_ok place" "chat_inv h u w" "chat_goes_on T (session_ptr h) u Q k"
  shows "safe T (session_ptr h) Q (cmd_join_c c place h args k) w"
proof (cases "fst (extract_word args) = []")
  case True
  then show ?thesis
    using safe_reply_on [OF assms(2,3)] by (simp add: cmd_join_c_def case_prod_unfold Let_def)
next
  case False
  let ?room = "fst (extract_word args)"
  let ?h = "h\<lparr>current_room := ?room\<rparr>"
  let ?joining = "call (rooming (join_room place ?room (session_ptr h))) (\<lambda>_.
      reply_c c ?h (make_ok (''Joined room: '' @ ?room)) k)"
  have rep: "safe T (session_ptr h) Q (reply_c c ?h m k) w1" if "chat_inv ?h u w1" for m w1
    using safe_reply_on [OF that, of T Q k c m] assms(3) by simp
  have "safe T (session_ptr h) Q ?joining w1" if "chat_inv h u w1" "current_room h = []" for w1
    by (rule safe_join [OF assms(1) that False rep])
  moreover have "safe T (session_ptr h) Q ?joining w1" if "chat_inv (h\<lparr>current_room := []\<rparr>) u w1" for w1
    using safe_join [OF assms(1) that _ False, of T Q "\<lambda>_. reply_c c ?h (make_ok (''Joined room: '' @ ?room)) k"] rep
    by simp
  ultimately have "current_room h = [] \<Longrightarrow> safe T (session_ptr h) Q ?joining w"
    "safe T (session_ptr h) Q (call (rooming (leave_room (current_room h) (session_ptr h))) (\<lambda>_. ?joining)) w"
    using assms(2) by (blast, intro safe_leave [OF assms(2)])
  with False show ?thesis by (simp add: cmd_join_c_def case_prod_unfold Let_def)
qed

lemma safe_cmd_leave:
  assumes "chat_inv h u w" "chat_goes_on T (session_ptr h) u Q k"
  shows "safe T (session_ptr h) Q (cmd_leave_c c h k) w"
proof -
  let ?h = "h\<lparr>current_room := []\<rparr>"
  have rep: "safe T (session_ptr h) Q (reply_c c ?h m k) w1" if "chat_inv ?h u w1" for m w1
    using safe_reply_on [OF that, of T Q k c m] assms(2) by simp
  have "safe T (session_ptr h) Q (reply_c c h m k) w" for m
    by (rule safe_reply_on [OF assms])
  moreover have "safe T (session_ptr h) Q
      (call (rooming (leave_room (current_room h) (session_ptr h))) (\<lambda>_. reply_c c ?h m k)) w" for m
    by (rule safe_leave [OF assms(1) rep])
  ultimately show ?thesis by (simp add: cmd_leave_c_def)
qed

lemma safe_send_private:
  assumes "chat_inv h u w" "\<And>w1. chat_inv h u w1 \<Longrightarrow> safe T (session_ptr h) Q (k ()) w1"
  shows "safe T (session_ptr h) Q (send_private_c c' from dest m k) w"
  unfolding send_private_c_def
proof (rule safe_quiet_call [OF held_chat assms(1)], goal_cases)
  case (1 w1)
  have "live (wstore w1) q" if "by_name (bman w1) dest = Some q" for q
    using 1 that by (auto simp: chat_inv_def world_wf_def bm_wf_def)
  from live_get(2) [OF this] have "\<exists>t. find_target dest (bman w1) (wstore w1) = Some t"
    by (cases "by_name (bman w1) dest") (force simp: find_target_def)+
  then show ?case by auto
next
  case (2 t w1)
  then show ?case
    by (cases t) (auto intro!: assms(2) safe_foreign_send [OF held_chat])
qed

lemma safe_cmd_pm:
  assumes "chat_inv h u w" "chat_goes_on T (session_ptr h) u Q k"
  shows "safe T (session_ptr h) Q (cmd_pm_c c h args k) w"
  unfolding cmd_pm_c_def Let_def case_prod_unfold
  using assms(2) by (auto intro!: safe_reply_on [OF assms] safe_ask [OF held_chat assms(1)] safe_send_private)

lemma safe_chat_command:
  assumes "place_ok place" "chat_inv h u w" "chat_goes_on T (session_ptr h) u Q k"
  shows "safe T (session_ptr h) Q (chat_command_c c place h text k) w"
  unfolding chat_command_c_def Let_def case_prod_unfold
  using assms by (auto intro!: safe_cmd_join safe_cmd_leave safe_cmd_pm safe_reply_on)

lemma safe_send_each:
  assumes "held T p I" "\<And>w. I w \<Longrightarrow> safe T p Q (k ()) w"
  shows "I w \<Longrightarrow> safe T p Q (send_each_c c' m ps k) w"
proof (induction ps arbitrary: w)
  case (Cons q ps)
  then show ?case by (simp add: safe_foreign_send [OF assms(1), where k = "\<lambda>_. send_each_c c' m ps k"])
qed (simp add: assms(2))

lemma safe_deliver:
  assumes "held T p I" "\<And>w. I w \<Longrightarrow> safe T p Q (k ()) w"
  shows "I w \<Longrightarrow> safe T p Q (deliver_c m s ps k) w"
proof (induction ps arbitrary: w)
  case (Cons q ps)
  have snd: "safe T p Q (foreign q (sending q m) (\<lambda>_. deliver_c m s ps k)) w1" if "I w1" for w1
    by (rule safe_foreign_send [OF assms(1) that, where k = "\<lambda>_. deliver_c m s ps k"]) (rule Cons.IH)
  show ?case
    using Cons by (auto intro!: safe_foreign_ask [OF assms(1) _ asks_defined(1)]
        safe_foreign_ask [OF assms(1) _ asks_defined(2)] snd)
qed (simp add: assms(2))

lemma safe_broadcast:
  assumes "chat_inv h u w" "\<And>w1. chat_inv h u w1 \<Longrightarrow> safe T (session_ptr h) Q (k ()) w1"
  shows "safe T (session_ptr h) Q (broadcast_c c' s m k) w"
  unfolding broadcast_c_def
proof (rule safe_quiet_call [OF held_chat assms(1)], goal_cases)
  case (1 w1)
  then have "snapshot (wstore w1) s (clients (bman w1)) = Some (filter (wants (wstore w1) s) (clients (bman w1)))"
    by (intro snapshot_filter) (auto simp: chat_inv_def world_wf_def bm_wf_def)
  then show ?case by simp
next
  case (2 ps w1)
  show ?case by (rule safe_send_each [OF held_chat _ 2]) (rule assms(2))
qed

lemma safe_broadcast_to_room:
  assumes "chat_inv h u w" "\<And>w1. chat_inv h u w1 \<Longrightarrow> safe T (session_ptr h) Q (k ()) w1"
  shows "safe T (session_ptr h) Q (broadcast_to_room_c c' r s m k) w"
  unfolding broadcast_to_room_c_def
  by (rule safe_quiet_call [OF held_chat assms(1)])
     (auto intro!: safe_deliver [OF held_chat] assms(2) split: option.splits)

lemma safe_chat_text:
  assumes "chat_inv h u w" "chat_goes_on T (session_ptr h) u Q k"
  shows "safe T (session_ptr h) Q (chat_text_c c h text k) w"
  unfolding chat_text_c_def
  using assms(2)
  by (auto intro!: safe_reply_on [OF assms] safe_ask [OF held_chat] safe_log [OF held_chat] safe_broadcast
      safe_broadcast_to_room assms(1))

lemma safe_chat_line:
  assumes "place_ok place" "chat_inv h u w" "chat_goes_on T (session_ptr h) u Q k"
  shows "safe T (session_ptr h) Q (chat_line_c c place h line k) w"
proof -
  have "safe T (session_ptr h) Q (call (reading (call_get_username (session_ptr h))) (\<lambda>u.
      call (logging INFO (''User '' @ u @ '' sent EXIT.'')) (\<lambda>_.
      send_c c h (serialise (make_ok ''Goodbye!'')) (\<lambda>_. k (False, h))))) w"
    using assms(3)
    by (auto intro!: safe_ask [OF held_chat assms(2)] safe_log [OF held_chat] safe_send [OF held_chat])
  with safe_chat_command [OF assms] safe_chat_text [OF assms(2,3)] assms(2,3) show ?thesis
    by (simp add: chat_line_c_def Let_def)
qed

lemma safe_chat_turn:
  assumes "place_ok place" "chat_inv h u w" "chat_goes_on T (session_ptr h) u Q k"
  shows "safe T (session_ptr h) Q (chat_turn_c c place h k) w"
  unfolding chat_turn_c_def
  by (rule safe_line [OF held_chat assms(2)]) (use assms(3) safe_chat_line [OF assms(1) _ assms(3)] in auto)

subsection \<open>The clean-up is safe\<close>

text \<open>Out of the rooms; out of the registry as well.\<close>

definition roomless :: "ptr \<Rightarrow> world \<Rightarrow> bool" where
  "roomless p w \<longleftrightarrow> standing p w \<and> (\<forall>r. \<not> in_room (rman w) r p)"

definition unlisted :: "ptr \<Rightarrow> world \<Rightarrow> bool" where
  "unlisted p w \<longleftrightarrow> roomless p w \<and> p \<notin> set (clients (bman w))"

lemma held_roomless: "held T p (roomless p)"
  by (rule heldI) (auto simp: roomless_def standing_def rely_live rely_wf, auto simp: rely_def)

lemma held_unlisted: "held T p (unlisted p)"
  by (rule heldI) (auto simp: unlisted_def roomless_def standing_def rely_live rely_wf, auto simp: rely_def)

definition departed_now :: "ptr \<Rightarrow> world \<Rightarrow> bool" where
  "departed_now p w \<longleftrightarrow> \<not> live (wstore w) p \<and> p \<notin> set (clients (bman w)) \<and> (\<forall>r. \<not> in_room (rman w) r p)"

lemma leave_all_step:
  assumes "standing p w" "world_ok T w"
  defines "w' \<equiv> w\<lparr>rman := leave_all p (rman w)\<rparr>"
  shows "roomless p w' \<and> guar T p w w'"
proof -
  have wf: "world_wf w" and live: "live (wstore w) p" using assms(1) by (simp_all add: standing_def)
  have p: "p \<noteq> nullptr" using wf live store_wf_live by (auto simp: world_wf_def)
  have i: "in_room (rman w') r q \<longleftrightarrow> q \<noteq> p \<and> in_room (rman w) r q" for r q
    using members_leave_all [OF p] by (auto simp: in_room_def w'_def)
  have wf': "world_wf w'" using wf by (simp add: world_wf_def w'_def rm_wf_leave_all)
  moreover have "turn p w w'" using i by (simp add: turn_def option.rel_refl w'_def)
  moreover have "world_ok T w'"
    by (rule world_ok_kept [OF assms(2) wf']) (simp_all add: w'_def)
  ultimately have "guar T p w w'" by (simp add: turn_guar)
  moreover have "live (wstore w') p" using live by (simp add: w'_def)
  ultimately show ?thesis using wf' i by (simp add: roomless_def standing_def)
qed

lemma remove_step:
  assumes "roomless p w" "world_ok T w"
  shows "\<exists>bm. remove_client p (wstore w) (bman w) = Some bm
    \<and> unlisted p (w\<lparr>bman := bm\<rparr>) \<and> guar T p w (w\<lparr>bman := bm\<rparr>)"
proof -
  have wf: "world_wf w" and live: "live (wstore w) p" and out: "\<And>r. \<not> in_room (rman w) r p"
    using assms(1) by (auto simp: roomless_def standing_def)
  then have "bm_wf (bman w) (wstore w)" "store_wf (wstore w)" by (simp_all add: world_wf_def)
  from remove_client_wf [OF this live] obtain bm
    where bm: "remove_client p (wstore w) (bman w) = Some bm" "bm_wf bm (wstore w)"
      "set (clients bm) = set (clients (bman w)) - {p}" by blast
  have wf': "world_wf (w\<lparr>bman := bm\<rparr>)" using wf bm(2) by (simp add: world_wf_def)
  have ok: "world_ok T (w\<lparr>bman := bm\<rparr>)"
    by (rule world_ok_kept [OF assms(2) wf']) (use bm(3) in simp_all)
  have "rely T q w (w\<lparr>bman := bm\<rparr>)" if "q \<noteq> p" for q
    by (rule rely_same_id [OF ok]) (use bm(3) in \<open>simp_all add: option.rel_refl\<close>)
  with ok have "guar T p w (w\<lparr>bman := bm\<rparr>)" by (simp add: guar_def)
  with bm wf' live out show ?thesis by (simp add: unlisted_def roomless_def standing_def)
qed

lemma deactivated_wf:
  assumes "world_wf w" "heap (wstore w) p = Some s" "username s' = username s" "\<not> active s'"
    and "heap (wstore w') = (heap (wstore w))(p \<mapsto> s')" "bman w' = bman w" "rman w' = rman w"
  shows "world_wf w'"
proof -
  have live: "live (wstore w') q = live (wstore w) q"
    and name: "call_get_username q (wstore w') = call_get_username q (wstore w)" for q
    using assms(2,3,5) by (auto simp: live_def call_get_username_def get_username_def)
  have act: "call_is_active q (wstore w') = Some True \<Longrightarrow>
      call_is_active q (wstore w) = Some True \<and> fd_of (wstore w') q = fd_of (wstore w) q" for q
    using assms(4,5) by (cases "q = p") (auto simp: call_is_active_def is_active_def fd_of_def call_get_fd_def)
  have "fds_distinct (wstore w')"
    using assms(1) act unfolding world_wf_def fds_distinct_def by metis
  then show ?thesis
    using assms(1,6,7) live name by (simp add: world_wf_def store_wf_iff bm_wf_def rm_wf_def)
qed

lemma close_step:
  assumes "unlisted p w" "world_ok T w"
  shows "\<exists>st. call_close p (wstore w) = Some st
    \<and> unlisted p (w\<lparr>wstore := st\<rparr>) \<and> guar T p w (w\<lparr>wstore := st\<rparr>)"
proof -
  have wf: "world_wf w" and out: "p \<notin> set (clients (bman w))" "\<And>r. \<not> in_room (rman w) r p"
    using assms(1) by (auto simp: unlisted_def roomless_def standing_def)
  from assms(1) obtain s where s: "heap (wstore w) p = Some s"
    by (auto simp: unlisted_def roomless_def standing_def live_def)
  obtain s' k' where c: "close_session s (kern (wstore w)) = (s', k')" by force
  then have s': "username s' = username s" "\<not> active s'"
    by (auto simp: close_session_def Let_def split: if_splits prod.splits)
  let ?st = "(wstore w)\<lparr>kern := k', heap := (heap (wstore w))(p \<mapsto> s')\<rparr>"
  have wf': "world_wf (w\<lparr>wstore := ?st\<rparr>)" by (rule deactivated_wf [OF wf s s']) simp_all
  have ok: "world_ok T (w\<lparr>wstore := ?st\<rparr>)"
    by (rule world_ok_kept [OF assms(2) wf'])
       (use s s' in \<open>auto simp: call_get_username_def get_username_def\<close>)
  have "rely T q w (w\<lparr>wstore := ?st\<rparr>)" if "q \<noteq> p" for q
    by (rule rely_same_id [OF ok]) (use that in \<open>simp_all add: option.rel_refl\<close>)
  with ok have "guar T p w (w\<lparr>wstore := ?st\<rparr>)" by (simp add: guar_def)
  moreover have "call_close p (wstore w) = Some ?st" using s c by (simp add: call_close_def)
  ultimately show ?thesis
    using wf' out by (simp add: unlisted_def roomless_def standing_def live_def)
qed

lemma delete_step:
  assumes "unlisted p w" "world_ok T w"
  shows "\<exists>st. delete_session p (wstore w) = Some st
    \<and> departed_now p (w\<lparr>wstore := st\<rparr>) \<and> guar T p w (w\<lparr>wstore := st\<rparr>)"
proof -
  have wf: "world_wf w" and out: "p \<notin> set (clients (bman w))" "\<And>r. \<not> in_room (rman w) r p"
    and live: "live (wstore w) p"
    using assms(1) by (auto simp: unlisted_def roomless_def standing_def)
  then obtain s where s: "heap (wstore w) p = Some s" by (auto simp: live_def)
  have p: "p \<noteq> nullptr" using wf live store_wf_live by (auto simp: world_wf_def)
  let ?st = "(wstore w)\<lparr>kern := session_destroy s (kern (wstore w)), heap := (heap (wstore w))(p := None)\<rparr>"
  have wf': "world_wf (w\<lparr>wstore := ?st\<rparr>)"
    by (rule world_wf_removed [of "wstore w" "bman w" "rman w" p])
       (use wf out in \<open>simp_all add: world_wf_def\<close>)
  have ok: "world_ok T (w\<lparr>wstore := ?st\<rparr>)"
    by (rule world_ok_kept [OF assms(2) wf']) (use out(1) in \<open>auto simp: call_get_username_def\<close>)
  have "rely T q w (w\<lparr>wstore := ?st\<rparr>)" if "q \<noteq> p" for q
    by (rule rely_same_id [OF ok]) (use that in \<open>simp_all add: option.rel_refl\<close>)
  with ok have "guar T p w (w\<lparr>wstore := ?st\<rparr>)" by (simp add: guar_def)
  moreover have "delete_session p (wstore w) = Some ?st" using s p by (simp add: delete_session_def)
  ultimately show ?thesis using out by (simp add: departed_now_def live_def)
qed

lemma safe_cleanup:
  assumes "standing (session_ptr h) w"
    and "\<And>w1. world_wf w1 \<Longrightarrow> departed_now (session_ptr h) w1 \<Longrightarrow> safe T (session_ptr h) Q k w1"
  shows "safe T (session_ptr h) Q (cleanup_c h k) w"
proof -
  let ?p = "session_ptr h"
  have p: "?p \<noteq> nullptr" using assms(1) store_wf_live by (auto simp: standing_def world_wf_def)
  let ?delete = "call (storing (delete_session ?p)) (\<lambda>_. k)"
  let ?close = "call (storing (call_close ?p)) (\<lambda>_. ?delete)"
  let ?remove = "call (managing (remove_client ?p)) (\<lambda>_. ?close)"
  have delete: "safe T ?p Q ?delete w1" if "unlisted ?p w1" for w1
    by (rule safe_call [OF held_unlisted that], drule (1) delete_step)
       (auto simp: storing_def guar_def world_ok_wf intro!: assms(2))
  have close: "safe T ?p Q ?close w1" if "unlisted ?p w1" for w1
    by (rule safe_call [OF held_unlisted that], drule (1) close_step)
       (auto simp: storing_def intro: delete)
  have remove: "safe T ?p Q ?remove w1" if "roomless ?p w1" for w1
    by (rule safe_call [OF held_roomless that], drule (1) remove_step)
       (auto simp: managing_def intro: close)
  have "safe T ?p Q (call (rooming (leave_all ?p)) (\<lambda>_. ?remove)) w1" if "standing ?p w1" for w1
    by (rule safe_rooming [OF held_standing that]) (use leave_all_step remove in blast)
  then show ?thesis
    unfolding cleanup_c_def using p
    by (auto intro!: safe_ask [OF held_standing assms(1)] safe_log [OF held_standing])
qed

subsection \<open>Every turn is safe\<close>

text \<open>What a turn that has ended leaves: the assertion of the next one, or no trace.\<close>

fun after_turn :: "ptr \<Rightarrow> next_turn \<Rightarrow> world \<Rightarrow> bool" where
  "after_turn p (Some x) w = phase_inv p x w"
| "after_turn p None w = departed_now p w"

lemma departed_rely: "departed_now p w \<Longrightarrow> rely T p w w' \<Longrightarrow> departed_now p w'"
  by (auto simp: departed_now_def rely_live) (auto simp: rely_def)

lemma auth_standing: "auth_inv p w \<Longrightarrow> standing p w" and named_standing: "named_inv p u w \<Longrightarrow> standing p w"
  and chat_standing: "chat_inv h u w \<Longrightarrow> standing (session_ptr h) w"
  using held_auth held_named held_chat unfolding held_def standing_def by blast+

lemma turn_calls_safe:
  assumes "place_ok place" "world_wf w" "phase_inv p x w" "typing T c"
  shows "safe T p (after_turn p) (turn_calls c place x) w"
proof -
  obtain ph h where x: "x = (ph, h)" by force
  from assms(3) have p: "p = session_ptr h" by (simp add: x phase_inv_def)
  have leaving: "safe T p (after_turn p) (Ret (Some (Leaving, h'))) w1"
    if "standing p w1" "session_ptr h' = p" for h' w1
    by (rule safe_ret [OF held_standing that(1)]) (use that(2) in \<open>auto simp: phase_inv_def standing_def\<close>)
  show ?thesis
  proof (cases ph)
    case (Menu n)
    with assms(3) x p have inv: "auth_inv (session_ptr h) w" "current_room h \<noteq> []"
      by (simp_all add: phase_inv_def)
    have again: "safe T p (after_turn p) (Ret (Some (Menu m, h))) w1" if "auth_inv p w1" for m w1
      by (rule safe_ret [OF held_auth that]) (use inv(2) p in \<open>simp add: phase_inv_def\<close>)
    have admitted: "safe T p (after_turn p) (Ret (Some (Entering, h))) w1" if "named_inv p u w1" for u w1
      by (rule safe_ret [OF held_named that]) (use inv(2) p in \<open>auto simp: phase_inv_def\<close>)
    show ?thesis
    proof (cases n)
      case 0
      with Menu x p inv(1) leaving auth_standing show ?thesis
        by (auto intro!: safe_send [OF held_auth])
    next
      case (Suc m)
      with Menu x p inv(1) leaving auth_standing again admitted assms(4) show ?thesis
        by (auto intro!: safe_auth_once)
    qed
  next
    case Entering
    with assms(3) x p obtain u where inv: "named_inv (session_ptr h) u w" "current_room h \<noteq> []"
      by (auto simp: phase_inv_def)
    have "safe T p (after_turn p) (Ret (Some (Talking, h))) w1" if "chat_inv h u w1" for w1
      unfolding p by (rule safe_ret [OF held_chat that]) (auto simp: phase_inv_def)
    then show ?thesis
      unfolding x Entering turn_calls.simps p by (intro safe_enter_chat [OF assms(1) inv])
  next
    case Talking
    with assms(3) x p obtain u where inv: "chat_inv h u w" by (auto simp: phase_inv_def)
    have "safe T p (after_turn p) (Ret (Some (if go then Talking else Leaving, h'))) w1"
      if h: "session_ptr h' = p" and i: "chat_inv h' u w1" for go h' w1
      unfolding h [symmetric]
      by (rule safe_ret [OF held_chat i])
         (use chat_standing [of h' u] in \<open>auto simp: phase_inv_def standing_def\<close>)
    with Talking x p show ?thesis by (auto intro!: safe_chat_turn [OF assms(1) inv])
  next
    case Leaving
    with assms(3) x p have "standing (session_ptr h) w"
      using assms(2) by (simp add: phase_inv_def standing_def)
    then have "safe T (session_ptr h) (after_turn p) (cleanup_c h (Ret None)) w"
      by (rule safe_cleanup) (auto intro!: safe.Ret simp: p intro: departed_rely)
    with Leaving x p show ?thesis by simp
  qed
qed

lemma run_calls_safe:
  assumes "place_ok place" "auth_inv (session_ptr h) w" "current_room h \<noteq> []" "typing T c"
  shows "safe T (session_ptr h) (after_turn (session_ptr h)) (run_calls c place h) w"
proof -
  have "safe T (session_ptr h) (after_turn (session_ptr h)) (turn_calls c place (Menu MAX_AUTH_ATTEMPTS, h)) w1"
    if "auth_inv (session_ptr h) w1" for w1
    by (rule turn_calls_safe [OF assms(1) _ _ assms(4)]) (use that assms(3) in \<open>simp_all add: phase_inv_def auth_inv_def\<close>)
  then show ?thesis
    unfolding run_calls_def by (auto intro!: safe_ask [OF held_auth assms(2)] safe_log [OF held_auth])
qed

end
