(* ===== verification/Interleaved_Server.thy ===== *)
theory Interleaved_Server
  imports Server_Interleaving
begin

text \<open>
  The server whose threads run call by call: the step relation over the trees of
  \<open>Handler_Calls\<close>, the invariant of its reachable states, and what follows from it. Which calls may
  follow a dead pointer; what the accounts file and the names of the clients look like.
\<close>

subsection \<open>States and steps\<close>

text \<open>A thread is what it has still to do in its turn, and the part of a line it has received.\<close>

type_synonym thread = "next_turn act \<times> string"

record call_system =
  csrv :: server
  threads :: "ptr \<rightharpoonup> thread"

text \<open>One \<open>recv\<close> of \<open>recv_line\<close>, and one step of a thread.\<close>

definition line_step ::
    "cipher \<Rightarrow> ptr \<Rightarrow> (string \<Rightarrow> 'r act) \<Rightarrow> string \<Rightarrow> world \<Rightarrow> (('r act \<times> string) \<times> world) option" where
  "line_step c q k buf w =
     (case call_get_fd q (wstore w) of
        None \<Rightarrow> None
      | Some f \<Rightarrow>
          (let (r, kn) = sys_recv f (kern (wstore w));
               w' = w\<lparr>wstore := (wstore w)\<lparr>kern := kn\<rparr>\<rparr>
           in Some (case r of
                Got ch \<Rightarrow>
                  (let plain_c = hd (decrypt c [ch])
                   in if plain_c = nl then (k buf, []) else (Line q k, buf @ [plain_c]))
              | Recv_intr \<Rightarrow> (Line q k, buf)
              | Recv_closed \<Rightarrow> (k [], [])
              | Recv_err \<Rightarrow> (k [], []), w')))"

fun act_step :: "cipher \<Rightarrow> 'r act \<times> string \<Rightarrow> world \<Rightarrow> (('r act \<times> string) \<times> world) option" where
  "act_step c (Ret r, buf) w = None"
| "act_step c (Call f, buf) w = map_option (\<lambda>(a, w'). ((a, []), w')) (f w)"
| "act_step c (Foreign q f, buf) w = map_option (\<lambda>(a, w'). ((a, []), w')) (f w)"
| "act_step c (Line q k, buf) w = line_step c q k buf w"

text \<open>A turn that has ended is followed by the next at once; the last one ends the thread.\<close>

fun settle :: "cipher \<Rightarrow> placement \<Rightarrow> thread \<Rightarrow> thread option" where
  "settle c place (Ret None, buf) = None"
| "settle c place (Ret (Some x), buf) = Some (turn_calls c place x, [])"
| "settle c place (a, buf) = Some (a, buf)"

inductive call_step :: "cipher \<Rightarrow> placement \<Rightarrow> call_system \<Rightarrow> call_system \<Rightarrow> bool" for c place where
  accepted: "fresh_conn cn (shared (csrv y)) \<Longrightarrow> accept_conn cn (csrv y) = (Some h, s') \<Longrightarrow>
    call_step c place y (y\<lparr>csrv := s', threads := (threads y)(session_ptr h \<mapsto> (run_calls c place h, []))\<rparr>)"
| not_started: "fresh_conn cn (shared (csrv y)) \<Longrightarrow> accept_conn cn (csrv y) = (None, s') \<Longrightarrow>
    call_step c place y (y\<lparr>csrv := s'\<rparr>)"
| thread_call: "threads y p = Some t \<Longrightarrow> act_step c t (shared (csrv y)) = Some (t', w') \<Longrightarrow>
    call_step c place y (y\<lparr>csrv := set_shared w' (csrv y), threads := (threads y)(p := settle c place t')\<rparr>)"
| disconnected: "disconnect_all_clients (csrv y) = Some s' \<Longrightarrow> call_step c place y (y\<lparr>csrv := s'\<rparr>)"

definition starting :: "call_system \<Rightarrow> bool" where
  "starting y \<longleftrightarrow> threads y = Map.empty \<and> heap (wstore (shared (csrv y))) = Map.empty
     \<and> bman (shared (csrv y)) = mk_broadcast_manager \<and> rman (shared (csrv y)) = mk_room_manager"

abbreviation reaches :: "cipher \<Rightarrow> placement \<Rightarrow> call_system \<Rightarrow> call_system \<Rightarrow> bool" where
  "reaches c place \<equiv> (call_step c place)\<^sup>*\<^sup>*"

subsection \<open>A turn is a run of calls\<close>

text \<open>What one thread does when no other runs.\<close>

inductive act_steps :: "cipher \<Rightarrow> ('r act \<times> string) \<times> world \<Rightarrow> ('r act \<times> string) \<times> world \<Rightarrow> bool" for c where
  none: "act_steps c x x"
| more: "act_step c t w = Some (t1, w1) \<Longrightarrow> act_steps c (t1, w1) x \<Longrightarrow> act_steps c (t, w) x"

lemma act_steps_trans: "act_steps c x y \<Longrightarrow> act_steps c y z \<Longrightarrow> act_steps c x z"
  by (induction rule: act_steps.induct) (auto intro: act_steps.more)

lemma recv_bytes_steps:
  "recv_bytes c q buf st = Some (line, st') \<Longrightarrow> wstore w = st \<Longrightarrow>
   act_steps c ((Line q k, buf), w) ((k line, []), w\<lparr>wstore := st'\<rparr>)"
proof (induction c q buf st arbitrary: w rule: recv_bytes.induct)
  case (1 c q buf st)
  note st = "1.prems"(2)
  obtain f where f: "call_get_fd q st = Some f"
    using "1.prems"(1) by (cases "call_get_fd q st") (simp_all add: recv_bytes.simps [of c q buf st])
  obtain r kn where r: "sys_recv f (kern st) = (r, kn)" by force
  let ?w = "w\<lparr>wstore := st\<lparr>kern := kn\<rparr>\<rparr>"
  have w: "?w\<lparr>wstore := s\<rparr> = w\<lparr>wstore := s\<rparr>" for s by simp
  show ?case
  proof (cases r)
    case (Got ch)
    let ?p = "hd (decrypt c [ch])"
    show ?thesis
    proof (cases "?p = nl")
      case True
      with "1.prems" Got r f show ?thesis
        by (intro act_steps.more [of c "(Line q k, buf)" w "(k buf, [])" ?w])
           (auto simp: recv_bytes.simps [of c q buf st] line_step_def act_steps.none)
    next
      case False
      have "recv_bytes c q (buf @ [?p]) (st\<lparr>kern := kn\<rparr>) = Some (line, st')"
        using "1.prems"(1) Got r f False by (simp add: recv_bytes.simps [of c q buf st])
      from "1.IH"(1) [OF f r [symmetric] Got refl False this, of ?w] Got r f False st show ?thesis
        by (intro act_steps.more [of c "(Line q k, buf)" w "(Line q k, buf @ [?p])" ?w])
           (auto simp: line_step_def)
    qed
  next
    case Recv_intr
    have "recv_bytes c q buf (st\<lparr>kern := kn\<rparr>) = Some (line, st')"
      using "1.prems"(1) Recv_intr r f by (simp add: recv_bytes.simps [of c q buf st])
    from "1.IH"(2) [OF f r [symmetric] Recv_intr this, of ?w] Recv_intr r f st show ?thesis
      by (intro act_steps.more [of c "(Line q k, buf)" w "(Line q k, buf)" ?w]) (auto simp: line_step_def)
  next
    case Recv_closed
    with "1.prems" r f show ?thesis
      by (intro act_steps.more [of c "(Line q k, buf)" w "(k [], [])" ?w])
         (auto simp: recv_bytes.simps [of c q buf st] line_step_def act_steps.none)
  next
    case Recv_err
    with "1.prems" r f show ?thesis
      by (intro act_steps.more [of c "(Line q k, buf)" w "(k [], [])" ?w])
         (auto simp: recv_bytes.simps [of c q buf st] line_step_def act_steps.none)
  qed
qed

lemma run_act_steps: "run_act c a w = Some (r, w') \<Longrightarrow> act_steps c ((a, []), w) ((Ret r, []), w')"
proof (induction a arbitrary: w)
  case (Ret r)
  then show ?case by (simp add: act_steps.none)
next
  case (Call f)
  then obtain a w1 where a: "f w = Some (a, w1)" "run_act c a w1 = Some (r, w')"
    by (cases "f w") auto
  have "act_steps c ((a, []), w1) ((Ret r, []), w')"
    by (rule Call.IH [of "Some (a, w1)" "(a, w1)", OF _ _ _ a(2)]) (use a(1) rangeI [of f w] in auto)
  with a(1) show ?case by (auto intro: act_steps.more)
next
  case (Foreign q f)
  then obtain a w1 where a: "f w = Some (a, w1)" "run_act c a w1 = Some (r, w')"
    by (cases "f w") auto
  have "act_steps c ((a, []), w1) ((Ret r, []), w')"
    by (rule Foreign.IH [of "Some (a, w1)" "(a, w1)", OF _ _ _ a(2)]) (use a(1) rangeI [of f w] in auto)
  with a(1) show ?case by (auto intro: act_steps.more)
next
  case (Line q k)
  then obtain l st where l: "recv_bytes c q [] (wstore w) = Some (l, st)"
    "run_act c (k l) (w\<lparr>wstore := st\<rparr>) = Some (r, w')"
    by (auto simp: run_act.simps(4) bind_Some_iff)
  from act_steps_trans [OF recv_bytes_steps [OF l(1) refl, of k] Line.IH [OF rangeI l(2)]] show ?case .
qed


subsection \<open>The invariant\<close>

definition call_inv :: "cipher option \<Rightarrow> call_system \<Rightarrow> bool" where
  "call_inv T y \<longleftrightarrow> world_ok T (shared (csrv y))
     \<and> (\<forall>p a buf. threads y p = Some (a, buf) \<longrightarrow>
          safe T p (after_turn p) a (shared (csrv y)) \<and> (\<forall>r. a \<noteq> Ret r))
     \<and> (\<forall>p. p \<in> set (clients (bman (shared (csrv y)))) \<or> (\<exists>r. in_room (rman (shared (csrv y))) r p)
          \<longrightarrow> p \<in> dom (threads y))"

text \<open>One step of a safe thread.\<close>

lemma line_step_safe:
  assumes "safe T p Q (Line q k) w" "world_ok T w" "line_step c q k buf w = Some ((a, buf'), w')"
  shows "guar T p w w' \<and> safe T p Q a w'"
proof -
  from assms(1) have q: "q = p" and l: "\<And>w1 l. rely T p w w1 \<Longrightarrow> safe T p Q (k l) w1"
    by (auto elim: safe_LineE)
  from assms(3) obtain f where f: "call_get_fd p (wstore w) = Some f"
    by (auto simp: line_step_def q split: option.splits)
  obtain r kn where r: "sys_recv f (kern (wstore w)) = (r, kn)" by force
  have w': "w' = w\<lparr>wstore := (wstore w)\<lparr>kern := kn\<rparr>\<rparr>" and a: "a = Line p k \<or> (\<exists>l. a = k l)"
    using assms(3) f r by (auto simp: line_step_def q Let_def split: recv_res.splits if_splits)
  have quiet: "quiet p w w'"
    using received_quiet [OF sys_recv_received(1) [OF f]] r by (simp add: w')
  note rely = quiet_rely [OF assms(2) quiet, of p]
  from a l [OF rely] safe_rely [OF assms(1) rely] quiet_guar [OF assms(2) quiet] show ?thesis
    by (auto simp: q)
qed

lemma act_step_safe:
  assumes "safe T p Q a w" "world_ok T w" "act_step c (a, buf) w = Some ((a', buf'), w')"
  shows "guar T p w w' \<and> safe T p Q a' w'"
proof (cases a)
  case (Call f)
  with assms(3) have "f w = Some (a', w')" by auto
  with assms(1) Call rely_refl [OF assms(2)] show ?thesis by (fastforce elim: safe_CallE)
next
  case (Foreign q f)
  with assms(3) have "f w = Some (a', w')" by auto
  with assms(1) Foreign rely_refl [OF assms(2)] show ?thesis by (fastforce elim: safe_ForeignE)
next
  case (Line q k)
  with assms show ?thesis using line_step_safe by simp
qed (use assms(3) in simp)

lemma act_step_defined:
  assumes "safe T p Q a w" "world_ok T w" "\<And>r. a \<noteq> Ret r"
  shows "act_step c (a, buf) w = None \<longleftrightarrow> (\<exists>q f. a = Foreign q f \<and> \<not> live (wstore w) q)"
proof (cases a)
  case (Call f)
  have "\<exists>b w2. f w1 = Some (b, w2)" if "rely T p w w1" for w1
    using assms(1) [unfolded Call] that by (elim safe_CallE) blast
  from this [OF rely_refl [OF assms(2)]] Call show ?thesis by auto
next
  case (Foreign q f)
  have "f w1 \<noteq> None \<longleftrightarrow> live (wstore w1) q" if "rely T p w w1" for w1
    using assms(1) [unfolded Foreign] that by (elim safe_ForeignE) simp
  from this [OF rely_refl [OF assms(2)]] Foreign show ?thesis by (cases "f w") auto
next
  case (Line q k)
  with assms(1) have "q = p" "live (wstore w) p" by (auto elim: safe_LineE)
  with Line show ?thesis
    by (auto simp: line_step_def Let_def live_def call_get_fd_def split: option.splits prod.splits)
qed (use assms(3) in simp)

text \<open>A turn never starts with its result.\<close>

lemma turn_calls_go: "fst x \<noteq> Leaving \<or> session_ptr (snd x) \<noteq> nullptr \<Longrightarrow> turn_calls c place x \<noteq> Ret r"
  by (cases "(c, place, x)" rule: turn_calls.cases)
     (auto simp: send_c_def call_def auth_once_c_def present_menu_c_def enter_chat_c_def
        chat_turn_c_def cleanup_c_def)

lemma turn_calls_not_Ret:
  assumes "world_wf w" "phase_inv p x w"
  shows "turn_calls c place x \<noteq> Ret r"
proof -
  have "p \<noteq> nullptr" "session_ptr (snd x) = p"
    using assms(1) phase_inv_live [OF assms(2)] store_wf_live assms(2)
    by (auto simp: world_wf_def phase_inv_def)
  then show ?thesis using turn_calls_go by blast
qed

lemma settle_safe:
  assumes "place_ok place" "typing T c" "world_ok T w" "safe T p (after_turn p) a w"
  shows "case settle c place (a, buf) of
      Some (a', buf') \<Rightarrow> safe T p (after_turn p) a' w \<and> (\<forall>r. a' \<noteq> Ret r)
    | None \<Rightarrow> departed_now p w"
proof (cases "(c, place, a, buf)" rule: settle.cases)
  case (2 c place x buf)
  then have "after_turn p (Some x) w" using assms(4) rely_refl [OF assms(3)] by (auto elim: safe_RetE)
  with 2 turn_calls_safe [OF assms(1) world_ok_wf [OF assms(3)] _ assms(2)]
    turn_calls_not_Ret [OF world_ok_wf [OF assms(3)]] show ?thesis by simp
qed (use assms(4) rely_refl [OF assms(3)] in \<open>auto elim: safe_RetE\<close>)

lemma thread_call_inv:
  assumes "place_ok place" "typing T c" and inv: "call_inv T y"
    and t: "threads y p = Some (a, buf)" "act_step c (a, buf) (shared (csrv y)) = Some ((a', buf'), w')"
  shows "call_inv T (y\<lparr>csrv := set_shared w' (csrv y), threads := (threads y)(p := settle c place (a', buf'))\<rparr>)"
proof -
  let ?w = "shared (csrv y)" and ?ts = "(threads y)(p := settle c place (a', buf'))"
  have ok: "world_ok T ?w" and a: "safe T p (after_turn p) a ?w"
    using inv t(1) by (auto simp: call_inv_def)
  from act_step_safe [OF a ok t(2)] have g: "guar T p ?w w'" and a': "safe T p (after_turn p) a' w'" by auto
  have ok': "world_ok T w'" using g by (simp add: guar_def)
  note own = settle_safe [OF assms(1,2) ok' a', of buf']
  have others: "rely T q ?w w'" if "q \<noteq> p" for q using g that by (simp add: guar_def)
  have "safe T q (after_turn q) b w' \<and> (\<forall>r. b \<noteq> Ret r)" if "?ts q = Some (b, buf2)" for q b buf2
  proof (cases "q = p")
    case True
    with own that show ?thesis by simp
  next
    case False
    with that have "threads y q = Some (b, buf2)" by simp
    with inv safe_rely [OF _ others [OF False]] show ?thesis unfolding call_inv_def by blast
  qed
  moreover have "q \<in> dom ?ts" if "q \<in> set (clients (bman w')) \<or> (\<exists>r. in_room (rman w') r q)" for q
  proof (cases "q = p")
    case True
    with own that show ?thesis by (cases "settle c place (a', buf')") (auto simp: departed_now_def)
  next
    case False
    from that others [OF False] have "q \<in> set (clients (bman ?w)) \<or> (\<exists>r. in_room (rman ?w) r q)"
      by (auto simp: rely_def)
    with inv False show ?thesis unfolding call_inv_def by auto
  qed
  ultimately show ?thesis using ok' unfolding call_inv_def by (simp del: fun_upd_apply dom_fun_upd)
qed

lemma call_inv_others:
  assumes inv: "call_inv T y" and ok: "world_ok T (shared s')"
    and others: "\<And>q. q \<in> dom (threads y) \<Longrightarrow> rely T q (shared (csrv y)) (shared s')"
    and sub: "set (clients (bman (shared s'))) \<subseteq> set (clients (bman (shared (csrv y))))"
      "\<And>r q. in_room (rman (shared s')) r q \<Longrightarrow> in_room (rman (shared (csrv y))) r q"
  shows "call_inv T (y\<lparr>csrv := s'\<rparr>)"
proof -
  have "safe T q (after_turn q) a (shared s') \<and> (\<forall>r. a \<noteq> Ret r)" if "threads y q = Some (a, buf)" for q a buf
    using inv that safe_rely others [of q] unfolding call_inv_def by (metis domI)
  moreover have "p \<in> dom (threads y)"
    if "p \<in> set (clients (bman (shared s'))) \<or> (\<exists>r. in_room (rman (shared s')) r p)" for p
    using inv sub that unfolding call_inv_def by blast
  ultimately show ?thesis using ok unfolding call_inv_def by simp
qed

lemma accept_inv:
  assumes inv: "call_inv T y" and fresh: "fresh_conn cn (shared (csrv y))"
    and a: "accept_conn cn (csrv y) = (h, s')"
  shows "call_inv T (y\<lparr>csrv := s'\<rparr>) \<and> auth_inv (conn_ptr cn) (shared s') \<and> threads y (conn_ptr cn) = None"
proof -
  let ?w = "shared (csrv y)" and ?p = "conn_ptr cn"
  note eff = accept_conn_world [OF a]
  have ok: "world_ok T ?w" using inv by (simp add: call_inv_def)
  have wf: "world_wf (shared s')" "auth_inv ?p (shared s')"
    using fresh_session_wf [OF world_ok_wf [OF ok] fresh, of "shared s'"] eff by auto
  have at: "heap (wstore (shared s')) q = heap (wstore ?w) q" if "q \<noteq> ?p" for q
    using eff that by simp
  have new: "?p \<notin> set (clients (bman ?w))"
    using wf(2) eff by (simp add: auth_inv_def)
  have ok': "world_ok T (shared s')"
    by (rule world_ok_kept [OF ok wf(1)])
       (use accept_conn_disk [OF a] eff new in \<open>auto simp: call_get_username_def\<close>)
  have none: "threads y ?p = None"
  proof (rule ccontr)
    assume "threads y ?p \<noteq> None"
    then obtain b buf where "threads y ?p = Some (b, buf)" by force
    then have "safe T ?p (after_turn ?p) b ?w" "\<And>r. b \<noteq> Ret r"
      using inv unfolding call_inv_def by blast+
    from safe_live [OF this] fresh show False by (simp add: fresh_conn_def live_def)
  qed
  have "call_inv T (y\<lparr>csrv := s'\<rparr>)"
  proof (rule call_inv_others [OF inv ok'])
    fix q assume "q \<in> dom (threads y)"
    with none have "q \<noteq> ?p" by auto
    then show "rely T q ?w (shared s')"
      by (intro rely_same_id [OF ok']) (simp_all add: at eff option.rel_refl)
  qed (simp_all add: eff)
  with wf none show ?thesis by blast
qed

lemma disconnect_disk: "disconnect_all_clients s = Some s' \<Longrightarrow> registry (shared s') = registry (shared s)
    \<and> wfs (shared s') = wfs (shared s)"
  by (auto simp: disconnect_all_clients_def bind_Some_iff s_log_def Let_def)

lemma disconnect_call_inv:
  assumes inv: "call_inv T y" and d: "disconnect_all_clients (csrv y) = Some s'"
  shows "call_inv T (y\<lparr>csrv := s'\<rparr>)"
proof -
  let ?w = "shared (csrv y)"
  have ok: "world_ok T ?w" using inv by (simp add: call_inv_def)
  from disconnect_eff [OF world_ok_wf [OF ok]] d have e: "world_wf (shared s')"
    "clients (bman (shared s')) = []" "rman (shared s') = rman ?w"
    "\<And>q. q \<notin> set (clients (bman ?w)) \<Longrightarrow> heap (wstore (shared s')) q = heap (wstore ?w) q"
    "\<And>q. call_get_username q (wstore (shared s')) = call_get_username q (wstore ?w)" by auto
  have ok': "world_ok T (shared s')"
    by (rule world_ok_kept [OF ok e(1)]) (use disconnect_disk [OF d] e(2) in simp_all)
  show ?thesis
    by (rule call_inv_others [OF inv ok']) (use ok' e in \<open>auto simp: rely_def set_flag_def\<close>)
qed

lemma call_step_inv:
  assumes "place_ok place" "typing T c" "call_inv T y" "call_step c place y y'"
  shows "call_inv T y'"
  using assms(4)
proof (cases rule: call_step.cases)
  case (accepted cn h s')
  note n = accept_inv [OF assms(3) accepted(2,3)]
  have h: "h = mk_handler (conn_ptr cn)" using accept_conn_world [OF accepted(3)] by (simp split: if_splits)
  have "safe T (conn_ptr cn) (after_turn (conn_ptr cn)) (run_calls c place h) (shared s')"
    using run_calls_safe [OF assms(1), of h "shared s'" T c] n h assms(2) by (simp add: mk_handler_def)
  moreover have "run_calls c place h \<noteq> Ret r" for r by (simp add: run_calls_def call_def)
  ultimately show ?thesis
    using n h unfolding accepted(1) call_inv_def by (auto simp: mk_handler_def)
next
  case (not_started cn s')
  with accept_inv [OF assms(3) not_started(2,3)] show ?thesis by simp
next
  case (thread_call p t t' w')
  then show ?thesis
    using thread_call_inv [OF assms(1-3), of p "fst t" "snd t" "fst t'" "snd t'" w'] by simp
next
  case (disconnected s')
  with disconnect_call_inv [OF assms(3)] show ?thesis by blast
qed

lemma reaches_inv:
  assumes "place_ok place" "typing T c" "call_inv T y0" "reaches c place y0 y"
  shows "call_inv T y"
  using assms(4) by (induction rule: rtranclp_induct) (auto intro: call_step_inv assms)

lemma starting_inv:
  assumes "starting y" "\<And>c. T = Some c \<Longrightarrow> accounts_ok c (shared (csrv y))"
  shows "call_inv T y"
proof -
  have "world_wf (shared (csrv y))"
    using assms(1) by (simp add: starting_def world_wf_def store_wf_def fds_distinct_def call_is_active_def
        mk_broadcast_manager_def bm_wf_def)
  with assms show ?thesis
    by (auto simp: starting_def call_inv_def world_ok_def names_ok_def mk_broadcast_manager_def in_room_def)
qed

subsection \<open>Memory safety, call by call\<close>

text \<open>C2: in every state the server can reach, with any number of clients and their threads interleaved
  between any two calls: the shared state is well-formed; whoever is registered, named in the index or in
  a room has a running thread; every thread's own session is alive; and a call follows a dead pointer
  exactly if it is one of those that the managers make on another client's session after they have
  released their mutex, and that session has been deleted since. All other calls of all threads, and a
  disconnection of all clients, are defined.\<close>

theorem only_late_sends_dangle:
  assumes "place_ok place" and "starting y0" and "reaches c place y0 y"
  shows "world_wf (shared (csrv y))
    \<and> (\<forall>p \<in> set (clients (bman (shared (csrv y)))). p \<in> dom (threads y))
    \<and> (\<forall>n p. by_name (bman (shared (csrv y))) n = Some p \<longrightarrow> p \<in> dom (threads y))
    \<and> (\<forall>r p. in_room (rman (shared (csrv y))) r p \<longrightarrow> p \<in> dom (threads y))
    \<and> (\<forall>p \<in> dom (threads y). live (wstore (shared (csrv y))) p)
    \<and> (\<forall>p a buf. threads y p = Some (a, buf) \<longrightarrow>
          (act_step c (a, buf) (shared (csrv y)) = None
            \<longleftrightarrow> (\<exists>q f. a = Foreign q f \<and> \<not> live (wstore (shared (csrv y))) q)))
    \<and> disconnect_all_clients (csrv y) \<noteq> None"
proof -
  have inv: "call_inv None y"
    by (rule reaches_inv [OF assms(1) _ starting_inv [OF assms(2)] assms(3)]) (simp_all add: typing_def)
  then have ok: "world_ok None (shared (csrv y))" by (simp add: call_inv_def)
  note wf = world_ok_wf [OF ok]
  have thread: "safe None p (after_turn p) a (shared (csrv y)) \<and> (\<forall>r. a \<noteq> Ret r)"
    if "threads y p = Some (a, buf)" for p a buf
    using inv that unfolding call_inv_def by blast
  have "act_step c (a, buf) (shared (csrv y)) = None
      \<longleftrightarrow> (\<exists>q f. a = Foreign q f \<and> \<not> live (wstore (shared (csrv y))) q)"
    if "threads y p = Some (a, buf)" for p a buf
    using act_step_defined [OF conjunct1 [OF thread [OF that]] ok] thread [OF that] by simp
  moreover have "live (wstore (shared (csrv y))) p" if "p \<in> dom (threads y)" for p
    using that thread safe_live by fastforce
  moreover have "p \<in> set (clients (bman (shared (csrv y))))"
    if "by_name (bman (shared (csrv y))) n = Some p" for n p
    using wf that by (auto simp: world_wf_def bm_wf_def)
  ultimately show ?thesis
    using inv disconnect_eff [OF wf] wf unfolding call_inv_def by blast
qed

subsection \<open>Types of the accounts and the names\<close>

text \<open>C8: a server that starts on an accounts file of well-typed records keeps it so, whatever its
  clients send, however its threads are interleaved, and whatever the disk does: each record is a valid
  user name with (a prefix, if a flush failed, of) the hexadecimal form of an encrypted valid password;
  and every client in the registry, registered or logged in, bears a valid name.\<close>

theorem accounts_stay_typed:
  assumes "place_ok place" and "starting y0" and "accounts_ok c (shared (csrv y0))" and "reaches c place y0 y"
  shows "(\<forall>r \<in> set (load_records True (filepath (registry (shared (csrv y)))) (wfs (shared (csrv y)))).
            validate_username (fst r)
            \<and> (\<exists>pw cut. validate_password pw \<and> to_hex (encrypt c pw) = snd r @ cut))
    \<and> (\<forall>p \<in> set (clients (bman (shared (csrv y)))).
            \<exists>u. call_get_username p (wstore (shared (csrv y))) = Some u \<and> validate_username u)"
proof -
  have "call_inv (Some c) y"
    by (rule reaches_inv [OF assms(1) _ starting_inv [OF assms(2)] assms(4)])
       (use assms(3) in \<open>simp_all add: typing_def\<close>)
  then show ?thesis
    by (simp add: call_inv_def world_ok_def accounts_ok_def account_typed_def names_ok_def)
qed

subsection \<open>A run\<close>

definition empty_calls :: call_system where
  "empty_calls = \<lparr>csrv = srv empty_system, threads = Map.empty\<rparr>"

definition one_call :: call_system where
  "one_call = empty_calls\<lparr>csrv := snd (accept_conn (demo_conn 0) (srv empty_system)),
     threads := [4 \<mapsto> (run_calls default_cipher append_place (mk_handler 4), [])]\<rparr>"

lemma empty_calls_parts: "csrv empty_calls = srv empty_system" "threads empty_calls = Map.empty"
  by (simp_all add: empty_calls_def)

lemma starting_empty: "starting empty_calls"
  by (simp add: starting_def empty_calls_parts empty_parts empty_world_def)

lemma reaches_one: "reaches default_cipher append_place empty_calls one_call"
proof -
  obtain h s' where a: "accept_conn (demo_conn 0) (csrv empty_calls) = (h, s')" by force
  then have h: "h = Some (mk_handler 4)" using accept_conn_world [OF a] by simp
  have "fresh_conn (demo_conn 0) (shared (csrv empty_calls))"
    by (simp add: fresh_conn_def empty_calls_parts empty_parts empty_world_def fd_of_def call_get_fd_def)
  from call_step.accepted [OF this a [unfolded h], of default_cipher append_place] a
  show ?thesis by (simp add: one_call_def empty_calls_parts mk_handler_def)
qed

lemma empty_accounts: "accounts_ok default_cipher (shared (csrv empty_calls))"
proof -
  have "to_hex (encrypt default_cipher ''hello'') = ''323F363635''"
    by code_simp
  then have "to_hex (encrypt default_cipher ''hello'') = ''323F363635'' @ []" by simp
  moreover have "validate_password ''hello''" by (simp add: validate_password_def MAX_PASS_LEN_def)
  ultimately have "account_typed default_cipher (u, ''323F363635'')" if "validate_username u" for u
    using that unfolding account_typed_def fst_conv snd_conv by blast
  then show ?thesis
    using demo_records by (simp add: accounts_ok_def empty_calls_parts empty_parts empty_world_def
        validate_username_def MAX_USERNAME_LEN_def isalnum_def isdigit_def)
qed


theorem only_late_sends_dangle_witness:
  "live (wstore (shared (csrv one_call))) 4
   \<and> act_step default_cipher (run_calls default_cipher append_place (mk_handler 4), []) (shared (csrv one_call)) \<noteq> None"
proof -
  have t: "threads one_call 4 = Some (run_calls default_cipher append_place (mk_handler 4), [])"
    by (simp add: one_call_def)
  have "run_calls default_cipher append_place (mk_handler 4) \<noteq> Foreign q f" for q f
    by (simp add: run_calls_def call_def)
  moreover have "4 \<in> dom (threads one_call)" using t by blast
  ultimately show ?thesis
    using only_late_sends_dangle [OF place_ok_append starting_empty reaches_one] t by metis
qed

theorem accounts_stay_typed_witness:
  "list_all (\<lambda>r. validate_username (fst r))
     (load_records True (filepath (registry (shared (csrv one_call)))) (wfs (shared (csrv one_call))))"
  using accounts_stay_typed [OF place_ok_append starting_empty empty_accounts reaches_one]
  by (simp add: list_all_iff)

end
