(* ===== verification/Scripted_Turns.thy ===== *)
theory Scripted_Turns
  imports Server_System
begin

text \<open>
  Turns of a handler whose client sends a given script over a working connection: a login, the entry to the chat, a
  text, a connection that ends. The concrete runs of \<open>Service_Refinement\<close> and \<open>Late_Sends\<close> consist of them.
\<close>

subsection \<open>Logging in and entering\<close>

text \<open>What a turn of the thread on session \<open>p\<close>, with descriptor \<open>f\<close>, leaves of the rest.\<close>

definition elsewhere :: "ptr \<Rightarrow> int \<Rightarrow> world \<Rightarrow> world \<Rightarrow> bool" where
  "elsewhere p f w w' \<longleftrightarrow> (\<forall>q. q \<noteq> p \<longrightarrow> heap (wstore w') q = heap (wstore w) q)
     \<and> (\<forall>g. g \<noteq> f \<longrightarrow> socks (kern (wstore w')) g = socks (kern (wstore w)) g)
     \<and> registry w' = registry w \<and> wfs w' = wfs w \<and> ios w' = ios w"

definition nameless :: "ptr \<Rightarrow> world \<Rightarrow> bool" where
  "nameless p w \<longleftrightarrow> (\<exists>s. heap (wstore w) p = Some s \<and> \<not> username_set s)"

lemma nameless_same [simp]:
  "nameless p (wire_to c f i o1 w) = nameless p w" "nameless p (w_log l m w) = nameless p w"
  by (simp_all add: nameless_def)

lemma elsewhere_link:
  "elsewhere p f w w' \<Longrightarrow> link c h g inp out w \<Longrightarrow> session_ptr h \<noteq> p \<Longrightarrow> g \<noteq> f \<Longrightarrow> link c h g inp out w'"
  by (auto simp: elsewhere_def link_def)

lemma admit_over_link:
  assumes "link c h f inp out w" and "session_ptr h \<noteq> nullptr"
  shows "\<exists>w' out'. admit c h u m w = Some (True, w') \<and> link c h f inp out' w'
    \<and> elsewhere (session_ptr h) f w w' \<and> rman w' = rman w
    \<and> (nameless (session_ptr h) w \<longrightarrow> call_get_username (session_ptr h) (wstore w') = Some u)"
proof -
  from assms(1) obtain s where s: "heap (wstore w) (session_ptr h) = Some s" "active s" "get_fd s = f"
    "socks (kern (wstore w)) f = Some (sock_of c inp out)" by (auto simp: link_def)
  let ?st = "(wstore w)\<lparr>heap := (heap (wstore w))(session_ptr h \<mapsto> set_username u s)\<rparr>"
  obtain bm where bm: "add_client (session_ptr h) ?st (bman w) = Some bm"
    using assms(2) by (simp add: add_client_def call_get_username_def Let_def)
  let ?w = "w\<lparr>wstore := ?st, bman := bm\<rparr>"
  have l: "link c h f inp out ?w"
    using s by (simp add: link_def set_username_def get_fd_def)
  have "admit c h u m w = Some (True, wire_to c f inp (out @ serialise (make_ok m)) ?w)"
    using s(1) bm send_link [OF l] by (simp add: admit_def call_set_username_def)
  with link_wire [OF l] show ?thesis
    by (fastforce simp: elsewhere_def wire_to_def nameless_def call_get_username_def get_username_def
        set_username_def s(1))
qed

lemma elsewhere_trans: "elsewhere p f w w1 \<Longrightarrow> elsewhere p f w1 w2 \<Longrightarrow> elsewhere p f w w2"
  by (simp add: elsewhere_def)

lemma elsewhere_wire: "elsewhere p f w (wire_to c f i o1 w)" "elsewhere p f w (w_log l m w)"
  by (simp_all add: elsewhere_def wire_to_def)

text \<open>A known user logs in over a working connection, and enters the chat.\<close>

lemma login_turn:
  assumes l: "link c h f (''2'' @ nl # u @ nl # pw @ nl # inp) out w"
    and u: "u \<noteq> []" "nl \<notin> set u" "pw \<noteq> []" "nl \<notin> set pw"
    and p: "session_ptr h \<noteq> nullptr" and io: "ios w = []"
    and known: "authenticate True (registry w) u (encrypt c pw) (wfs w)"
  shows "\<exists>w' out'. turn_of c place (Menu (Suc n), h) w = Some (Some (Entering, h), w')
    \<and> link c h f inp out' w' \<and> elsewhere (session_ptr h) f w w' \<and> rman w' = rman w
    \<and> (nameless (session_ptr h) w \<longrightarrow> call_get_username (session_ptr h) (wstore w') = Some u)"
proof -
  let ?w0 = "wire_to c f (u @ nl # pw @ nl # inp) (out @ serialise make_menu) w"
  let ?w1 = "wire_to c f inp ((out @ serialise make_menu) @ prompts) w"
  have "choice_of ''2'' = 2" by code_simp
  then have menu: "present_menu c h w = Some (2, ?w0)"
    using present_menu_talk [OF l, of "''2''" "u @ nl # pw @ nl # inp" out] link_same [OF l] by simp
  have ask: "handle_login c h ?w0 = finish_login c h u pw ?w1"
    using handle_login_talk [OF link_wire [OF l] u] by simp
  obtain ip where ip: "call_get_ip (session_ptr h) (wstore ?w1) = Some ip"
    using l by (auto simp: link_def call_get_ip_def)
  let ?w2 = "w_log INFO (''User logged in: '' @ u @ '' from '' @ ip) ?w1"
  have "link c h f inp ((out @ serialise make_menu) @ prompts) ?w2" using link_wire [OF l] by simp
  from admit_over_link [OF this p] obtain w' out' where w':
    "admit c h u (''Login successful. Welcome back, '' @ u @ ''!'') ?w2 = Some (True, w')"
    "link c h f inp out' w'" "elsewhere (session_ptr h) f ?w2 w'" "rman w' = rman ?w2"
    "nameless (session_ptr h) ?w2 \<longrightarrow> call_get_username (session_ptr h) (wstore w') = Some u" by blast
  have "next_io ?w1 = (io_ok, ?w1)" by (simp add: next_io_def io)
  then have "finish_login c h u pw ?w1 = Some (True, w')"
    using w'(1) ip known by (simp add: finish_login_def io_ok_def)
  moreover have "elsewhere (session_ptr h) f w w'"
    using elsewhere_trans [OF elsewhere_trans [OF elsewhere_wire] w'(3)] .
  ultimately show ?thesis
    using menu ask w'(2,4,5) by (auto simp: turn_of_def auth_once_def)
qed

lemma enter_turn:
  assumes "link c h f inp out w"
  shows "\<exists>w' out'. turn_of c place (Entering, h) w = Some (Some (Talking, h), w')
    \<and> link c h f inp out' w' \<and> elsewhere (session_ptr h) f w w'
    \<and> rman w' = join_room place (current_room h) (session_ptr h) (rman w)
    \<and> heap (wstore w') = heap (wstore w)"
proof -
  obtain s where s: "heap (wstore w) (session_ptr h) = Some s" using assms by (auto simp: link_def)
  let ?w = "(w_log INFO (''recv_loop started for user: '' @ get_username s) w)
    \<lparr>rman := join_room place (current_room h) (session_ptr h) (rman w)\<rparr>"
  have l: "link c h f inp out ?w" using assms by (simp add: link_def)
  have "enter_chat c place h w = Some (wire_to c f inp (out @ chat_banner) ?w)"
    using s send_link [OF l] by (simp add: enter_chat_def call_get_username_def)
  with link_wire [OF l] show ?thesis
    by (fastforce simp: turn_of_def elsewhere_def wire_to_def)
qed

text \<open>A client that hangs up.\<close>

lemma hang_up_turn:
  "link c h f [] out w \<Longrightarrow> turn_of c place (Talking, h) w = Some (Some (Leaving, h), w)"
  by (auto simp: turn_of_def chat_turn_def recv_line_def recv_bytes.simps [of c "session_ptr h"]
      link_def call_get_fd_def sys_recv_def sock_of_def encrypt_def)

text \<open>A text for a room of two, in which the other one has a working connection.\<close>

lemma say_turn:
  assumes l: "link c h f (m @ nl # inp) out w" and u: "call_get_username (session_ptr h) (wstore w) = Some u"
    and lq: "link c hq g inpq outq w" and q: "session_ptr hq = q" "q \<noteq> nullptr" "g \<noteq> f"
      "call_get_username q (wstore w) = Some uq" "uq \<noteq> u"
    and r: "current_room h \<noteq> []" "rooms (rman w) (current_room h) = Some [q, session_ptr h]"
    and m: "nl \<notin> set m" "m \<noteq> []" "hd m \<noteq> slash" "\<not> is_exit m" "msg_type (parse m) \<noteq> proto_MSG"
      "length m \<le> MAX_MSG_LEN"
  shows "\<exists>w'. turn_of c place (Talking, h) w = Some (Some (Talking, h), w')
    \<and> out_of (wstore w') g = Some (encrypt c (outq @ serialise (make_bcast u
        (room_tag (current_room h) (''['' @ current_room h @ ''] '' @ m)))))"
proof -
  let ?v = "wire_to c f inp out w" and ?fr = "serialise (make_bcast u
    (room_tag (current_room h) (''['' @ current_room h @ ''] '' @ m)))"
  let ?z = "w_log DEBUG (''MSG from '' @ u @ '': '' @ m) ?v"
  have lz: "link c hq g inpq outq ?z"
    using lq q(3) by (auto simp: link_def wire_to_def)
  obtain sq where sq: "heap (wstore w) q = Some sq" "active sq" "username sq = uq"
    using lq q by (auto simp: link_def call_get_username_def get_username_def)
  obtain sp where sp: "heap (wstore w) (session_ptr h) = Some sp" "username sp = u"
    using u by (auto simp: call_get_username_def get_username_def)
  have pq: "session_ptr h \<noteq> q" using sp sq q(5) by auto
  let ?fin = "wire_to c g inpq (outq @ ?fr) ?z"
  from send_link [OF lz, of ?fr] obtain st where st: "call_send_msg q (encrypt c ?fr) (wstore ?z) = Some (True, st)"
    "?z\<lparr>wstore := st\<rparr> = ?fin" by (auto simp: send_encrypted_def q(1) bind_Some_iff)
  have name: "call_get_username (session_ptr h) (wstore ?v) = Some u"
    using u by (simp add: call_get_username_def)
  with same_ids_get(1) [OF call_send_msg_same_ids [OF st(1)]]
  have "call_get_username (session_ptr h) st = Some u" by simp
  then obtain zp where zp: "heap st (session_ptr h) = Some zp" "username zp = u"
    by (auto simp: call_get_username_def get_username_def)
  have "deliver (encrypt c ?fr) u [session_ptr h] st = Some st"
    using zp by (simp add: call_is_active_def call_get_username_def is_active_def get_username_def)
  then have d: "deliver (encrypt c ?fr) u [q, session_ptr h] (wstore ?z) = Some st"
    using st(1) sq q unfolding deliver.simps(2) [of _ _ q]
    by (simp add: call_is_active_def call_get_username_def is_active_def get_username_def del: deliver.simps)
  have "chat_text c h m ?v = Some (True, h, ?fin)"
    using m(6) r d st(2) name
    by (simp add: chat_text_def Let_def broadcast_to_room_def broadcast_to_recipients_def del: deliver.simps)
  moreover have "chat_turn c place h w = chat_text c h m ?v"
    using recv_link [OF l m(1)] m(2-5) by (simp add: chat_turn_def chat_line_def Let_def)
  moreover have "out_of (wstore ?fin) g = Some (encrypt c (outq @ ?fr))"
    by (simp add: out_of_def sock_of_def)
  ultimately show ?thesis by (auto simp: turn_of_def)
qed

subsection \<open>Two users of the repository's data file\<close>

text \<open>The first client logs in and sends nothing more, the second logs in and says hi.\<close>

definition shiva :: connection where
  "shiva = (demo_conn 0)\<lparr>conn_sock := sock_of default_cipher (''2'' @ nl # ''Shiva'' @ nl # ''hello'' @ nl # []) []\<rparr>"

definition smitha :: connection where
  "smitha = (demo_conn 0)\<lparr>conn_fd := 8, conn_ptr := 5,
     conn_sock := sock_of default_cipher (''2'' @ nl # ''Smitha'' @ nl # ''hello'' @ nl # ''hi'' @ nl # []) []\<rparr>"

definition two_server :: server where
  "two_server = snd (accept_conn smitha (snd (accept_conn shiva (srv empty_system))))"

text \<open>Both connections are accepted, one after the other.\<close>

lemma accepts_two:
  "\<exists>s1. fresh_conn shiva (shared (srv empty_system)) \<and> fresh_conn smitha (shared s1)
     \<and> accept_conn shiva (srv empty_system) = (Some (mk_handler 4), s1)
     \<and> accept_conn smitha s1 = (Some (mk_handler 5), two_server)"
proof -
  obtain h1 s1 where a1: "accept_conn shiva (srv empty_system) = (h1, s1)" by force
  obtain h2 s2 where a2: "accept_conn smitha s1 = (h2, s2)" by force
  note e1 = accept_conn_world [OF a1] and e2 = accept_conn_world [OF a2]
  have "h1 = Some (mk_handler 4)" "h2 = Some (mk_handler 5)"
    using e1 e2 by (simp_all add: shiva_def smitha_def)
  moreover have "fresh_conn shiva (shared (srv empty_system))"
    by (simp add: fresh_conn_def empty_parts empty_world_def fd_of_def call_get_fd_def shiva_def)
  moreover have "heap (wstore (shared s1)) = [4 \<mapsto> mk_session 7 ''10.0.0.7'']"
    using e1 by (simp add: empty_parts empty_world_def shiva_def)
  then have "fresh_conn smitha (shared s1)"
    by (simp add: fresh_conn_def fd_of_def call_get_fd_def smitha_def mk_session_def get_fd_def mk_fd_def)
  ultimately show ?thesis using a1 a2 by (simp add: two_server_def)
qed

lemma two_server_parts:
  "heap (wstore (shared two_server)) = [4 \<mapsto> mk_session 7 ''10.0.0.7'', 5 \<mapsto> mk_session 8 ''10.0.0.7'']"
  "socks (kern (wstore (shared two_server))) = [7 \<mapsto> conn_sock shiva, 8 \<mapsto> conn_sock smitha]"
  "rman (shared two_server) = mk_room_manager" "ios (shared two_server) = []"
  "registry (shared two_server) = demo_registry" "wfs (shared two_server) = demo_fs"
proof -
  obtain h1 s1 where a1: "accept_conn shiva (srv empty_system) = (h1, s1)" by force
  obtain h2 s2 where a2: "accept_conn smitha s1 = (h2, s2)" by force
  note e1 = accept_conn_world [OF a1] accept_conn_disk [OF a1]
    and e2 = accept_conn_world [OF a2] accept_conn_disk [OF a2]
  have c: "two_server = s2" using a1 a2 by (simp add: two_server_def)
  show "heap (wstore (shared two_server)) = [4 \<mapsto> mk_session 7 ''10.0.0.7'', 5 \<mapsto> mk_session 8 ''10.0.0.7'']"
    "socks (kern (wstore (shared two_server))) = [7 \<mapsto> conn_sock shiva, 8 \<mapsto> conn_sock smitha]"
    "rman (shared two_server) = mk_room_manager" "ios (shared two_server) = []"
    "registry (shared two_server) = demo_registry" "wfs (shared two_server) = demo_fs"
    using e1 e2 unfolding c by (simp_all add: shiva_def smitha_def empty_parts empty_world_def)
qed

lemma two_calls_logins:
  "authenticate True demo_registry ''Shiva'' (encrypt default_cipher ''hello'') demo_fs"
  "authenticate True demo_registry ''Smitha'' (encrypt default_cipher ''hello'') demo_fs"
proof -
  have hex: "from_hex ''323F363635'' = encrypt default_cipher ''hello''" by code_simp
  have "banned demo_registry = {}" by (simp add: demo_registry_def)
  with hex show "authenticate True demo_registry ''Shiva'' (encrypt default_cipher ''hello'') demo_fs"
    "authenticate True demo_registry ''Smitha'' (encrypt default_cipher ''hello'') demo_fs"
    by (simp_all add: authenticate_def find_user_locked_def demo_records del: from_hex.simps)
qed

end
