(* ===== verification/Late_Sends.thy ===== *)
theory Late_Sends
  imports Interleaved_Server Scripted_Turns
begin

text \<open>
  The late sends of \<open>Interleaved_Server\<close> do dangle: from a state in which one thread stands before a
  call through the pointer of another client, whose own thread is about to clean up, the server
  reaches one in which that call follows a deleted session; and a run of two clients, from their
  connections through their logins to a message, that leads into such a state.
\<close>

subsection \<open>Runs of one thread\<close>

lemma settle_same: "(\<And>r. a \<noteq> Ret r) \<Longrightarrow> settle c place (a, buf) = Some (a, buf)"
  by (cases a) auto

abbreviation moved :: "ptr \<Rightarrow> thread option \<Rightarrow> world \<Rightarrow> call_system \<Rightarrow> call_system" where
  "moved p t w y \<equiv> y\<lparr>csrv := set_shared w (csrv y), threads := (threads y)(p := t)\<rparr>"

text \<open>The steps of one thread, lifted to the server.\<close>

lemma act_steps_reach:
  assumes "act_steps c (t, w) (t', w')" and "threads y p = Some t" and "shared (csrv y) = w"
    and "\<And>r. fst t \<noteq> Ret r"
  shows "reaches c place y (moved p (settle c place t') w' y)"
  using assms
proof (induction "(t, w)" "(t', w')" arbitrary: t w y rule: act_steps.induct)
  case none
  moreover from none have "moved p (Some t') w' y = y" by (auto simp: fun_upd_idem)
  ultimately show ?case by (cases t') (simp add: settle_same)
next
  case (more t w t1 w1)
  let ?y = "moved p (settle c place t1) w1 y"
  have step: "call_step c place y ?y"
    using call_step.thread_call [of y p t c t1 w1 place] more.hyps(1) more.prems by simp
  show ?case
  proof (cases "\<exists>r. fst t1 = Ret r")
    case True
    with more.hyps(2) have "t1 = t'" "w1 = w'"
      by (cases t1; auto elim: act_steps.cases)+
    with step show ?thesis by blast
  next
    case False
    then have "settle c place t1 = Some t1" by (cases t1) (simp add: settle_same)
    with more.hyps(3) [of ?y] False have "reaches c place ?y (moved p (settle c place t') w' ?y)"
      by auto
    with step show ?thesis by (simp add: converse_rtranclp_into_rtranclp)
  qed
qed

text \<open>A whole turn.\<close>

lemma turn_reach:
  assumes "threads y p = Some (turn_calls c place x, [])"
    and "turn_of c place x (shared (csrv y)) = Some (next, w')"
    and "fst x \<noteq> Leaving \<or> session_ptr (snd x) \<noteq> nullptr"
  shows "reaches c place y (moved p (case next of None \<Rightarrow> None | Some x' \<Rightarrow> Some (turn_calls c place x', [])) w' y)"
proof -
  have "act_steps c ((turn_calls c place x, []), shared (csrv y)) ((Ret next, []), w')"
    by (rule run_act_steps) (use assms(2) in \<open>simp add: calls_make_the_turn\<close>)
  from act_steps_reach [OF this assms(1) refl, of place] turn_calls_go [OF assms(3)]
  show ?thesis by (cases "next") simp_all
qed

subsection \<open>The dangling call\<close>

text \<open>C37: the undefined behaviour is reached: whenever a thread is about to make a call on another
  client's session after the mutex was released (a send of a broadcast, of a room's message or of
  a private one), and that client's thread has left its chat loop, the other thread can run
  first and free the session; the sender's next call then follows the dead pointer.\<close>

theorem late_send_dangles:
  assumes "place_ok place" and "starting y0" and "reaches c place y0 y"
    and "threads y p = Some (Foreign q f, buf)" and "p \<noteq> q"
    and "threads y q = Some (turn_calls c place (Leaving, h), [])" and "session_ptr h = q"
  shows "\<exists>y'. reaches c place y0 y' \<and> threads y' p = Some (Foreign q f, buf) \<and> threads y' q = None
    \<and> act_step c (Foreign q f, buf) (shared (csrv y')) = None"
proof -
  let ?w = "shared (csrv y)"
  have inv: "call_inv None z" if "reaches c place y0 z" for z
    by (rule reaches_inv [OF assms(1) _ starting_inv [OF assms(2)] that]) (simp_all add: typing_def)
  have wf: "world_wf ?w" using inv [OF assms(3)] world_ok_wf unfolding call_inv_def by blast
  have "safe None q (after_turn q) (turn_calls c place (Leaving, h)) ?w"
    "\<And>r. turn_calls c place (Leaving, h) \<noteq> Ret r"
    using inv [OF assms(3)] assms(6) unfolding call_inv_def by blast+
  from safe_live [OF this] have live: "live (wstore ?w) (session_ptr h)" by (simp add: assms(7))
  from wp_Some [OF cleanup_wp [OF wf live]] obtain h' w'
    where w': "cleanup_and_exit h ?w = Some (h', w')" "gone q ?w w'" using assms(7) by auto
  have q: "session_ptr h \<noteq> nullptr" using store_wf_live live wf by (auto simp: world_wf_def)
  let ?y = "moved q None w' y"
  have y: "reaches c place y0 ?y"
    using turn_reach [OF assms(6), of None w'] w'(1) q assms(3) by (simp add: turn_of_def)
  have t: "threads ?y p = Some (Foreign q f, buf)" using assms(4,5) by simp
  from inv [OF y] have ok: "world_ok None w'" by (simp add: call_inv_def)
  from inv [OF y] t have s: "safe None p (after_turn p) (Foreign q f) w'"
    unfolding call_inv_def by (elim conjE) (drule spec [of _ p], simp)
  from act_step_defined [OF s ok] w'(2) have "act_step c (Foreign q f, buf) w' = None"
    by (simp add: gone_def)
  with y t show ?thesis by fastforce
qed

subsection \<open>A run into the state\<close>

text \<open>From the thread's start to the chat.\<close>

lemma call_step_1: "f w = Some (x, w1) \<Longrightarrow> k x = a \<Longrightarrow> act_step c (call f k, buf) w = Some ((a, []), w1)"
  by (simp add: call_def)

lemma call_steps:
  "f w = Some (x, w1) \<Longrightarrow> act_steps c ((k x, []), w1) z \<Longrightarrow> act_steps c ((call f k, buf), w) z"
  by (rule act_steps.more) (simp_all add: call_def)

lemma moved_moved [simp]: "moved p t w (moved p t' w' y) = moved p t w y"
  by simp

lemma comes_in:
  assumes t: "threads y p = Some (run_calls c place h, [])" and p: "session_ptr h = p" "p \<noteq> nullptr"
    and l: "link c h f (''2'' @ nl # u @ nl # pw @ nl # inp) out (shared (csrv y))"
    and u: "u \<noteq> []" "nl \<notin> set u" "pw \<noteq> []" "nl \<notin> set pw" and io: "ios (shared (csrv y)) = []"
    and known: "authenticate True (registry (shared (csrv y))) u (encrypt c pw) (wfs (shared (csrv y)))"
  shows "\<exists>w' out'. reaches c place y (moved p (Some (turn_calls c place (Talking, h), [])) w' y)
    \<and> link c h f inp out' w' \<and> elsewhere p f (shared (csrv y)) w'
    \<and> rman w' = join_room place (current_room h) p (rman (shared (csrv y)))"
proof -
  let ?w = "shared (csrv y)"
  obtain s where s: "heap (wstore ?w) p = Some s" using l p by (auto simp: link_def)
  let ?v = "w_log INFO (''ClientHandler::run() '' @ endash @ '' new client from '' @ get_ip s) ?w"
  let ?x = "(Menu MAX_AUTH_ATTEMPTS, h)"
  have "act_steps c ((run_calls c place h, []), ?w) ((turn_calls c place ?x, []), ?v)"
    unfolding run_calls_def
    by (rule call_steps [of "reading _" ?w "get_ip s" ?w], simp add: reading_def call_get_ip_def s p(1),
        rule call_steps [of "logging _ _" ?w "()" ?v], simp add: logging_def, rule act_steps.none)
  from act_steps_reach [OF this t refl, of place] settle_same [OF turn_calls_go [of ?x]]
  have r0: "reaches c place y (moved p (Some (turn_calls c place ?x, [])) ?v y)"
    by (simp add: run_calls_def call_def)
  have "link c h f (''2'' @ nl # u @ nl # pw @ nl # inp) out ?v" using l by simp
  from login_turn [OF this u, of place 2] p io known have "\<exists>w' out'. turn_of c place ?x ?v = Some (Some (Entering, h), w')
    \<and> link c h f inp out' w' \<and> elsewhere p f ?v w' \<and> rman w' = rman ?v"
    unfolding MAX_AUTH_ATTEMPTS_def by fastforce
  then obtain w1 out1 where w1: "turn_of c place ?x ?v = Some (Some (Entering, h), w1)" "link c h f inp out1 w1"
      "elsewhere p f ?v w1" "rman w1 = rman ?v" by blast
  from enter_turn [OF w1(2), of place, unfolded p(1)] obtain w2 out2
    where w2: "turn_of c place (Entering, h) w1 = Some (Some (Talking, h), w2)" "link c h f inp out2 w2"
      "elsewhere p f w1 w2" "rman w2 = join_room place (current_room h) p (rman w1)" by blast
  have next_turn: "reaches c place (moved p (Some (turn_calls c place x, [])) w y)
      (moved p (Some (turn_calls c place x', [])) w' y)"
    if "turn_of c place x w = Some (Some x', w')" "fst x \<noteq> Leaving" for x x' w w'
    using turn_reach [of "moved p (Some (turn_calls c place x, [])) w y" p c place x "Some x'" w'] that
    by simp
  note r1 = next_turn [OF w1(1)] and r2 = next_turn [OF w2(1)]
  have "elsewhere p f ?w w2"
    using elsewhere_trans [OF elsewhere_trans [OF elsewhere_wire(2) w1(3)] w2(3)] .
  moreover have "reaches c place y (moved p (Some (turn_calls c place (Talking, h), [])) w2 y)"
    using rtranclp_trans [OF rtranclp_trans [OF r0 r1] r2] by simp
  ultimately show ?thesis using w1(4) w2(2,4) by auto
qed

text \<open>A client that hangs up; a client whose line stands before its first delivery.\<close>

lemma stands_before_delivery:
  assumes t: "threads y p = Some (turn_calls c place (Talking, h), [])" and p: "session_ptr h = p"
    and l: "link c h f (m @ nl # inp) out (shared (csrv y))"
    and m: "nl \<notin> set m" "m \<noteq> []" "hd m \<noteq> slash" "\<not> is_exit m" "msg_type (parse m) \<noteq> proto_MSG"
      "length m \<le> MAX_MSG_LEN"
    and r: "current_room h \<noteq> []" "rooms (rman (shared (csrv y))) (current_room h) = Some (q # qs)" "q \<noteq> nullptr"
  shows "\<exists>g w'. reaches c place y (moved p (Some (Foreign q g, [])) w' y)"
proof -
  let ?w = "shared (csrv y)" and ?k = "\<lambda>(go, h). Ret (Some (if go then Talking else Leaving, h))"
  let ?v = "wire_to c f inp out ?w"
  obtain s where s: "heap (wstore ?w) p = Some s" using l p by (auto simp: link_def)
  let ?u = "get_username s"
  let ?z = "w_log DEBUG (''MSG from '' @ ?u @ '': '' @ m) ?v"
  have "recv_line c h ?w = Some (m, ?v)" by (rule recv_link [OF l m(1)])
  then obtain st where st: "recv_bytes c p [] (wstore ?w) = Some (m, st)" "?w\<lparr>wstore := st\<rparr> = ?v"
    by (auto simp: recv_line_def p bind_Some_iff)
  have read: "reading (call_get_username p) w = Some (?u, w)" if "heap (wstore w) = heap (wstore ?w)" for w
    using s that by (simp add: reading_def call_get_username_def)
  let ?d = "deliver_c (encrypt c (serialise (make_bcast ?u (room_tag (current_room h)
      (''['' @ current_room h @ ''] '' @ m))))) ?u (q # qs) (\<lambda>_. ?k (True, h))"
  have line: "act_steps c ((turn_calls c place (Talking, h), []), ?w) ((chat_line_c c place h m ?k, []), ?v)"
    using recv_bytes_steps [OF st(1) refl, of "\<lambda>l. if l = [] then ?k (False, h) else chat_line_c c place h l ?k"]
      m(2) st(2) p by (simp add: chat_turn_c_def)
  have said: "chat_line_c c place h m ?k = chat_text_c c h m ?k"
    using m by (simp add: chat_line_c_def Let_def)
  have deliver: "act_steps c ((chat_text_c c h m ?k, []), ?v) ((?d, []), ?z)"
    unfolding chat_text_c_def broadcast_to_room_c_def if_not_P [OF m(6) [unfolded linorder_not_less [symmetric]]]
      if_P [OF r(1)]
    by (rule act_steps.more [OF call_step_1], simp add: read p, rule refl,
        rule act_steps.more [OF call_step_1], simp add: logging_def, rule refl,
        rule act_steps.more [OF call_step_1], simp add: read p, rule refl,
        rule act_steps.more [OF call_step_1], rule refl, rule refl, simp add: r(2) act_steps.none)
  obtain g where g: "?d = Foreign q g" using r(3) by (simp add: foreign_def)
  note steps = act_steps_trans [OF line [unfolded said] deliver [unfolded g]]
  from act_steps_reach [OF steps t refl, of place] turn_calls_go [of "(Talking, h)"]
  have "reaches c place y (moved p (Some (Foreign q g, [])) ?z y)" by simp
  then show ?thesis by blast
qed

subsection \<open>Two clients\<close>

text \<open>Two users of the repository's data file connect; the first logs in and hangs up, the second
  logs in and says hi in the room.\<close>

definition two_calls :: call_system where
  "two_calls =
     \<lparr>csrv = two_server,
      threads = [4 \<mapsto> (run_calls default_cipher append_place (mk_handler 4), []),
                 5 \<mapsto> (run_calls default_cipher append_place (mk_handler 5), [])]\<rparr>"

lemma two_calls_server [simp]: "csrv two_calls = two_server"
  by (simp add: two_calls_def)

lemma reaches_two: "reaches default_cipher append_place empty_calls two_calls"
proof -
  from accepts_two obtain s1 where s1: "fresh_conn shiva (shared (srv empty_system))"
    "fresh_conn smitha (shared s1)" "accept_conn shiva (srv empty_system) = (Some (mk_handler 4), s1)"
    "accept_conn smitha s1 = (Some (mk_handler 5), two_server)" by blast
  let ?r = "\<lambda>h. (run_calls default_cipher append_place h, [])"
  let ?y1 = "empty_calls\<lparr>csrv := s1, threads := [4 \<mapsto> ?r (mk_handler 4)]\<rparr>"
  have r1: "call_step default_cipher append_place empty_calls ?y1"
    using call_step.accepted [of shiva empty_calls "mk_handler 4" s1 default_cipher append_place] s1
    by (simp add: empty_calls_parts mk_handler_def)
  have r2: "call_step default_cipher append_place ?y1 two_calls"
    using call_step.accepted [of smitha ?y1 "mk_handler 5" two_server default_cipher append_place] s1
    by (simp add: two_calls_def mk_handler_def empty_calls_def)
  from r1 r2 show ?thesis by (meson r_into_rtranclp rtranclp.rtrancl_into_rtrancl)
qed

lemma late_send_ready:
  "\<exists>y g. reaches default_cipher append_place empty_calls y \<and> threads y 5 = Some (Foreign 4 g, [])
    \<and> threads y 4 = Some (turn_calls default_cipher append_place (Leaving, mk_handler 4), [])"
proof -
  let ?c = default_cipher and ?t = "\<lambda>ph p. Some (turn_calls default_cipher append_place (ph, mk_handler p), [])"
  have h: "session_ptr (mk_handler p) = p" "current_room (mk_handler p) = ''lobby''" for p
    by (simp_all add: mk_handler_def)
  have l1: "link ?c (mk_handler 4) 7 (''2'' @ nl # ''Shiva'' @ nl # ''hello'' @ nl # []) [] (shared (csrv two_calls))"
    and l2: "link ?c (mk_handler 5) 8 (''2'' @ nl # ''Smitha'' @ nl # ''hello'' @ nl # ''hi'' @ nl # []) []
      (shared (csrv two_calls))"
    by (simp_all add: link_def h two_server_parts mk_session_def get_fd_def mk_fd_def shiva_def smitha_def)
  have t: "threads two_calls 4 = Some (run_calls ?c append_place (mk_handler 4), [])"
    "threads two_calls 5 = Some (run_calls ?c append_place (mk_handler 5), [])"
    by (simp_all add: two_calls_def Let_def)
  have "\<exists>w' out'. reaches ?c append_place two_calls (moved 4 (?t Talking 4) w' two_calls)
    \<and> link ?c (mk_handler 4) 7 [] out' w' \<and> elsewhere 4 7 (shared (csrv two_calls)) w'
    \<and> rman w' = join_room append_place (current_room (mk_handler 4)) 4 (rman (shared (csrv two_calls)))"
    by (rule comes_in [OF t(1) h(1) _ l1]) (simp_all add: two_server_parts two_calls_logins)
  then obtain w out1 where y2: "reaches ?c append_place two_calls (moved 4 (?t Talking 4) w two_calls)"
    "link ?c (mk_handler 4) 7 [] out1 w" and e: "elsewhere 4 7 (shared (csrv two_calls)) w"
    and r: "rman w = \<lparr>rooms = [''lobby'' \<mapsto> [4]]\<rparr>"
    by (auto simp: h two_server_parts join_room_def mk_room_manager_def set_insert_def append_place_def)
  let ?y = "moved 4 (?t Leaving 4) w two_calls"
  have y3: "reaches ?c append_place (moved 4 (?t Talking 4) w two_calls) ?y"
    using turn_reach [of "moved 4 (?t Talking 4) w two_calls" 4 ?c append_place "(Talking, mk_handler 4)"]
      hang_up_turn [OF y2(2)] by fastforce
  have l3: "link ?c (mk_handler 5) 8 (''2'' @ nl # ''Smitha'' @ nl # ''hello'' @ nl # ''hi'' @ nl # []) []
      (shared (csrv ?y))"
    using elsewhere_link [OF e l2] by (simp add: h)
  have "\<exists>w' out'. reaches ?c append_place ?y (moved 5 (?t Talking 5) w' ?y)
    \<and> link ?c (mk_handler 5) 8 (''hi'' @ nl # []) out' w' \<and> elsewhere 5 8 (shared (csrv ?y)) w'
    \<and> rman w' = join_room append_place (current_room (mk_handler 5)) 5 (rman (shared (csrv ?y)))"
    by (rule comes_in [OF _ h(1) _ l3])
       (use e t(2) in \<open>simp_all add: two_server_parts two_calls_logins elsewhere_def\<close>)
  then obtain w2 out2 where y4: "reaches ?c append_place ?y (moved 5 (?t Talking 5) w2 ?y)"
    "link ?c (mk_handler 5) 8 (''hi'' @ nl # []) out2 w2" and r2: "rman w2 = \<lparr>rooms = [''lobby'' \<mapsto> [4, 5]]\<rparr>"
    by (auto simp: h r join_room_def set_insert_def append_place_def)
  have hi: "msg_type (parse ''hi'') \<noteq> proto_MSG" "\<not> is_exit ''hi''" by code_simp+
  let ?z = "moved 5 (?t Talking 5) w2 ?y"
  have "\<exists>g w'. reaches ?c append_place ?z (moved 5 (Some (Foreign 4 g, [])) w' ?z)"
    by (rule stands_before_delivery [of _ _ _ _ "mk_handler 5" 8 "''hi''" "[]" out2 4 "[5]"])
       (use y4(2) hi in \<open>simp_all add: h r2 MAX_MSG_LEN_def\<close>)
  then obtain g w3 where y5: "reaches ?c append_place ?z (moved 5 (Some (Foreign 4 g, [])) w3 ?z)" by blast
  have "reaches ?c append_place empty_calls (moved 5 (Some (Foreign 4 g, [])) w3 ?z)"
    using reaches_two y2(1) y3 y4(1) y5 by (meson rtranclp_trans)
  moreover have "threads (moved 5 (Some (Foreign 4 g, [])) w3 ?z) 5 = Some (Foreign 4 g, [])"
    "threads (moved 5 (Some (Foreign 4 g, [])) w3 ?z) 4 = ?t Leaving 4" by simp_all
  ultimately show ?thesis by blast
qed

theorem late_send_dangles_witness:
  "\<exists>y g. reaches default_cipher append_place empty_calls y \<and> threads y 5 = Some (Foreign 4 g, [])
    \<and> act_step default_cipher (Foreign 4 g, []) (shared (csrv y)) = None"
proof -
  from late_send_ready obtain y g where y: "reaches default_cipher append_place empty_calls y"
    "threads y 5 = Some (Foreign 4 g, [])"
    "threads y 4 = Some (turn_calls default_cipher append_place (Leaving, mk_handler 4), [])" by blast
  from late_send_dangles [OF place_ok_append starting_empty y(1,2) _ y(3)]
  show ?thesis by (force simp: mk_handler_def)
qed

end
