(* ===== verification/Server_Drain.thy ===== *)
theory Server_Drain
  imports Server_System
begin

text \<open>
  Whether the worker threads of the server come to their end: what \<open>join_all\<close> in
  \<open>Server::shutdown\<close> waits for. Once no connections are accepted, the threads take turns
  in any order; each turn uses up a step of its handler's life or some of the input its peer will
  still send, so however the turns are ordered there are only finitely many, and no thread is
  ever stuck before its last one.
\<close>

subsection \<open>Turns of the worker threads\<close>

inductive worker_step :: "cipher \<Rightarrow> placement \<Rightarrow> system \<Rightarrow> system \<Rightarrow> bool" for c place where
  turn: "procs y p = Some x \<Longrightarrow> turn_of c place x (shared (srv y)) = Some (next, w') \<Longrightarrow>
    worker_step c place y (y\<lparr>srv := set_shared w' (srv y), procs := (procs y)(p := next)\<rparr>)"

lemma worker_step_sys: "worker_step c place y y' \<Longrightarrow> sys_step c place y y'"
  by (auto elim: worker_step.cases intro: sys_step.thread_turn)

lemma worker_steps_reachable: "(worker_step c place)\<^sup>*\<^sup>* y y' \<Longrightarrow> reachable c place y \<Longrightarrow> reachable c place y'"
  by (induction rule: rtranclp_induct) (auto intro: reachable.step worker_step_sys)

subsection \<open>What a turn uses up\<close>

text \<open>How many turns a phase is from the end, not counting lines of the chat.\<close>

fun rank :: "phase \<Rightarrow> nat" where
  "rank (Menu n) = n + 4"
| "rank Entering = 3"
| "rank Talking = 2"
| "rank Leaving = 1"

definition left :: "store \<Rightarrow> ptr \<Rightarrow> phase \<times> handler \<Rightarrow> nat" where
  "left st p x = rank (fst x) + pending_input p st"

definition work :: "system \<Rightarrow> nat" where
  "work y = (\<Sum>p \<in> dom (procs y). left (wstore (shared (srv y))) p (the (procs y p)))"

lemma rank_pos: "0 < rank ph"
  by (cases ph) simp_all

lemma rank_attempt: "rank (after_attempt r n) < rank (Menu (Suc n))"
  by (cases r) simp_all

lemma turn_of_less:
  assumes "place_ok place" "world_wf w" "phase_inv p x w" "turn_of c place x w = Some (next, w')"
  shows "shrinks (wstore w) (wstore w')
    \<and> (\<forall>x'. next = Some x' \<longrightarrow> left (wstore w') p x' < left (wstore w) p x)"
proof -
  obtain ph h where x: "x = (ph, h)" by force
  from wp_res [OF turn_of_wp [OF assms(1-3)] assms(4)] have r: "turn_result p w (next, w')" .
  then have sh: "shrinks (wstore w) (wstore w')"
    by (cases "next") (simp_all add: turn_result_def turn_def gone_def)
  have "left (wstore w') p x' < left (wstore w) p x" if n: "next = Some x'" for x'
  proof (cases "rank (fst x') < rank ph")
    case True
    with shrinks_at [OF sh, of p] show ?thesis by (simp add: left_def x)
  next
    case False
    have ph: "ph = Talking \<and> fst x' = Talking"
    proof (cases ph)
      case (Menu m)
      with False n assms(4) x rank_attempt show ?thesis
        by (cases m) (auto simp: turn_of_def bind_Some_iff)
    qed (use False n assms(4) x in \<open>auto simp: turn_of_def bind_Some_iff split: if_splits\<close>)
    with assms(3) x obtain u where inv: "chat_inv h u w" "session_ptr h = p" by (auto simp: phase_inv_def)
    from n assms(4) x ph obtain h' where t: "chat_turn c place h w = Some (True, h', w')"
      by (auto simp: turn_of_def bind_Some_iff split: if_splits)
    from wp_res [OF chat_turn_wp [OF assms(1) inv(1)] t] inv(2)
    have "pending_input p (wstore w') < pending_input p (wstore w)" by simp
    with ph show ?thesis by (simp add: left_def x)
  qed
  with sh show ?thesis by blast
qed

lemma finite_procs: "reachable c place y \<Longrightarrow> finite (dom (procs y))"
  by (induction rule: reachable.induct) (auto simp: initial_def simp del: fun_upd_apply elim!: sys_step.cases)

lemma worker_step_less:
  assumes "place_ok place" "reachable c place y" "worker_step c place y y'"
  shows "work y' < work y"
  using assms(3)
proof cases
  case (turn p x "next" w')
  let ?w = "shared (srv y)" and ?D = "dom (procs y)"
  have inv: "sys_inv y" by (rule reachable_inv [OF assms(1,2)])
  then have ph: "phase_inv p x ?w" and wf: "world_wf ?w" using turn(2) by (simp_all only: sys_inv_def)
  note less = turn_of_less [OF assms(1) wf ph turn(3)]
  have fin: "finite ?D" by (rule finite_procs [OF assms(2)])
  have p: "p \<in> ?D" using turn(2) by blast
  have others: "(\<Sum>q \<in> ?D - {p}. left (wstore w') q (the (((procs y)(p := next)) q)))
      \<le> (\<Sum>q \<in> ?D - {p}. left (wstore ?w) q (the (procs y q)))"
    by (rule sum_mono) (use less shrinks_at in \<open>auto simp: left_def\<close>)
  have "work y = left (wstore ?w) p x + (\<Sum>q \<in> ?D - {p}. left (wstore ?w) q (the (procs y q)))"
    using sum.remove [OF fin p, of "\<lambda>q. left (wstore ?w) q (the (procs y q))"] turn(2) by (simp add: work_def)
  moreover have "work y' = (case next of None \<Rightarrow> 0 | Some x' \<Rightarrow> left (wstore w') p x')
      + (\<Sum>q \<in> ?D - {p}. left (wstore w') q (the (((procs y)(p := next)) q)))"
  proof (cases "next")
    case None
    with turn(1) show ?thesis by (simp add: work_def)
  next
    case (Some x')
    then have "dom (procs y') = ?D" using turn(1) p by auto
    with sum.remove [OF fin p, of "\<lambda>q. left (wstore w') q (the (((procs y)(p := next)) q))"] Some turn(1)
    show ?thesis by (simp add: work_def)
  qed
  moreover have "(case next of None \<Rightarrow> 0 | Some x' \<Rightarrow> left (wstore w') p x') < left (wstore ?w) p x"
    using less rank_pos [of "fst x"] by (cases "next") (simp_all add: left_def)
  ultimately show ?thesis using others by simp
qed

lemma worker_step_enabled:
  assumes "place_ok place" "reachable c place y" "p \<in> dom (procs y)"
  shows "\<exists>y'. worker_step c place y y'"
proof -
  from assms(3) obtain x where x: "procs y p = Some x" by blast
  have inv: "sys_inv y" by (rule reachable_inv [OF assms(1,2)])
  then have "phase_inv p x (shared (srv y))" "world_wf (shared (srv y))" using x by (simp_all only: sys_inv_def)
  from wp_Some [OF turn_of_wp [OF assms(1) this(2,1), of c]] obtain "next" w'
    where "turn_of c place x (shared (srv y)) = Some (next, w')" by auto
  from worker_step.turn [OF x this] show ?thesis by blast
qed

subsection \<open>The server drains\<close>

text \<open>When no thread is left, nobody is registered, named or in a room.\<close>

lemma drained:
  assumes "sys_inv y" "procs y = Map.empty"
  shows "clients (bman (shared (srv y))) = [] \<and> by_name (bman (shared (srv y))) = Map.empty
    \<and> rooms (rman (shared (srv y))) = Map.empty"
proof -
  have wf: "world_wf (shared (srv y))" using assms(1) by (simp add: sys_inv_def)
  have none: "clients (bman (shared (srv y))) = []"
    using assms unfolding sys_inv_def by (metis dom_empty emptyE last_in_set)
  then have "by_name (bman (shared (srv y))) n = None" for n
    using wf by (cases "by_name (bman (shared (srv y))) n") (auto simp: world_wf_def bm_wf_def)
  moreover have "rooms (rman (shared (srv y))) r = None" for r
  proof (rule ccontr)
    assume "rooms (rman (shared (srv y))) r \<noteq> None"
    then obtain S where S: "rooms (rman (shared (srv y))) r = Some S" by blast
    then have "S \<noteq> []" using wf by (auto simp: world_wf_def rm_wf_def)
    with S have "in_room (rman (shared (srv y))) r (hd S)" by (auto simp: in_room_def members_def)
    with assms show False by (auto simp: sys_inv_def)
  qed
  ultimately show ?thesis using none by auto
qed

lemma worker_runs_bounded:
  assumes "place_ok place" "reachable c place y" "(worker_step c place ^^ n) y y'"
  shows "n + work y' \<le> work y \<and> reachable c place y'"
  using assms(3)
proof (induction n arbitrary: y')
  case (Suc n)
  then obtain z where z: "(worker_step c place ^^ n) y z" "worker_step c place z y'" by auto
  from Suc.IH [OF z(1)] worker_step_less [OF assms(1) _ z(2)]
    reachable.step [OF _ worker_step_sys [OF z(2)]] show ?case by force
qed (use assms(2) in simp)

lemma worker_runs_complete:
  assumes "place_ok place" "reachable c place y"
  shows "\<exists>y'. (worker_step c place)\<^sup>*\<^sup>* y y' \<and> procs y' = Map.empty"
  using assms(2)
proof (induction "work y" arbitrary: y rule: less_induct)
  case less
  show ?case
  proof (cases "procs y = Map.empty")
    case False
    then obtain p where "p \<in> dom (procs y)" by blast
    from worker_step_enabled [OF assms(1) less.prems this] obtain z where z: "worker_step c place y z" by blast
    from less.hyps [OF worker_step_less [OF assms(1) less.prems z] reachable.step [OF less.prems worker_step_sys [OF z]]]
    show ?thesis using converse_rtranclp_into_rtranclp [of "worker_step c place", OF z] by blast
  qed blast
qed



end
