(* ===== verification/Send_Race.thy ===== *)
theory Send_Race
  imports Session Cipher
begin

text \<open>
  Several threads in \<open>Session::send_msg\<close> of one session. The method takes no mutex: the handler of
  a client answers it while the handlers of the others broadcast to it. One step is the test of
  \<open>active_\<close> or one \<open>send\<close> call with the store that follows its failure; a schedule is the list of the
  threads in the order in which they take their steps.
\<close>

subsection \<open>Senders and schedules\<close>

text \<open>Before the test of \<open>active_\<close>; in the loop, with \<open>total\<close> bytes sent; returned.\<close>

datatype sender = Calling string | In_loop string nat | Returned string bool

definition sender_step :: "sender \<Rightarrow> session \<Rightarrow> kernel \<Rightarrow> sender \<times> session \<times> kernel" where
  "sender_step x s k =
     (case x of
        Calling m \<Rightarrow> (if active s then In_loop m 0 else Returned m False, s, k)
      | In_loop m tot \<Rightarrow>
          (if tot < length m
           then case sys_send (fd (client_fd s)) (drop tot m) k of
                  (Sent (Suc n), k') \<Rightarrow> (In_loop m (tot + Suc n), s, k')
                | (_, k') \<Rightarrow> (Returned m False, s\<lparr>active := False\<rparr>, k')
           else (Returned m True, s, k))
      | Returned m b \<Rightarrow> (x, s, k))"

fun race :: "nat list \<Rightarrow> sender list \<Rightarrow> session \<Rightarrow> kernel \<Rightarrow> sender list \<times> session \<times> kernel" where
  "race [] xs s k = (xs, s, k)"
| "race (i # is) xs s k =
     (if i < length xs
      then let (x, s', k') = sender_step (xs ! i) s k in race is (xs[i := x]) s' k'
      else race is xs s k)"

subsection \<open>One thread alone\<close>

lemma race_cons: "i < length xs \<Longrightarrow> sender_step (xs ! i) s k = (x, s', k') \<Longrightarrow>
    race (i # is) xs s k = race is (xs[i := x]) s' k'"
  by simp

lemma send_from_race:
  "send_from (fd (client_fd s)) m tot k = (b, k') \<Longrightarrow>
   \<exists>sch. race sch [In_loop m tot] s k = ([Returned m b], if b then s else s\<lparr>active := False\<rparr>, k')"
proof (induction "fd (client_fd s)" m tot k rule: send_from.induct)
  case (1 m tot k)
  obtain r k1 where r: "sys_send (fd (client_fd s)) (drop tot m) k = (r, k1)" by force
  show ?case
  proof (cases "tot < length m \<and> (\<exists>n. r = Sent (Suc n))")
    case True
    then obtain n where t: "tot < length m" and n: "r = Sent (Suc n)" by blast
    have "send_from (fd (client_fd s)) m (tot + Suc n) k1 = (b, k')"
      using "1.prems" t n r by (simp add: send_from.simps [of _ m tot k])
    from "1.hyps" [OF t r [symmetric] n refl this] obtain sch
      where "race sch [In_loop m (tot + Suc n)] s k1
        = ([Returned m b], if b then s else s\<lparr>active := False\<rparr>, k')" by blast
    then have "race (0 # sch) [In_loop m tot] s k
        = ([Returned m b], if b then s else s\<lparr>active := False\<rparr>, k')"
      using t n r by (simp add: sender_step_def)
    then show ?thesis by blast
  next
    case False
    then have "race [0] [In_loop m tot] s k = ([Returned m b], if b then s else s\<lparr>active := False\<rparr>, k')"
      using "1.prems" r by (auto simp: send_from.simps [of _ m tot k] sender_step_def
          split: send_res.splits nat.splits if_splits)
    then show ?thesis by blast
  qed
qed

text \<open>The steps of one thread that is not disturbed are those of \<open>send_msg\<close>.\<close>

lemma send_msg_race:
  assumes "send_msg m s k = (b, s', k')"
  shows "\<exists>sch. race sch [Calling m] s k = ([Returned m b], s', k')"
proof (cases "active s")
  case False
  then have "race [0] [Calling m] s k = ([Returned m b], s', k')"
    using assms by (simp add: send_msg_def sender_step_def)
  then show ?thesis by blast
next
  case True
  with assms have f: "send_from (fd (client_fd s)) m 0 k = (b, k')" "s' = (if b then s else s\<lparr>active := False\<rparr>)"
    by (auto simp: send_msg_def split: prod.splits bool.splits)
  from send_from_race [OF f(1)] obtain sch
    where "race sch [In_loop m 0] s k = ([Returned m b], s', k')" using f(2) by blast
  then have "race (0 # sch) [Calling m] s k = ([Returned m b], s', k')"
    using True by (simp add: sender_step_def)
  then show ?thesis by blast
qed

subsection \<open>When every \<open>send\<close> takes all\<close>

fun text_of :: "sender \<Rightarrow> string" where
  "text_of (Calling m) = m" | "text_of (In_loop m tot) = m" | "text_of (Returned m b) = m"

text \<open>Whether a thread is in the order \<open>b\<close> of those that have been sent, or not, as it should be.\<close>

fun in_place :: "bool \<Rightarrow> sender \<Rightarrow> bool" where
  "in_place b (Calling m) = (\<not> b)"
| "in_place b (In_loop m tot) = ((b \<longleftrightarrow> tot \<noteq> 0) \<and> (tot = 0 \<or> tot = length m))"
| "in_place b (Returned m ok) = (ok \<and> m \<noteq> [] \<longrightarrow> b)"

text \<open>All that has been transmitted are the whole messages of the threads in \<open>order\<close>, one each.\<close>

definition whole_messages :: "sender list \<Rightarrow> string \<Rightarrow> nat list \<Rightarrow> string \<Rightarrow> bool" where
  "whole_messages xs before order out \<longleftrightarrow> distinct order \<and> set order \<subseteq> {..<length xs}
     \<and> out = before @ concat (map (\<lambda>i. text_of (xs ! i)) order)
     \<and> (\<forall>i < length xs. in_place (i \<in> set order) (xs ! i))"

lemma text_upd:
  "i < length xs \<Longrightarrow> text_of x = text_of (xs ! i) \<Longrightarrow> text_of (xs[i := x] ! j) = text_of (xs ! j)"
  by (cases "i = j") simp_all

lemma whole_messages_upd:
  assumes "whole_messages xs t order out" "i < length xs" "text_of x = text_of (xs ! i)"
    and "in_place (i \<in> set order) x"
  shows "whole_messages (xs[i := x]) t order out"
proof -
  have "in_place (j \<in> set order) (xs[i := x] ! j)" if "j < length xs" for j
    using assms(1,4) that by (cases "j = i") (simp_all add: whole_messages_def)
  with assms(1) show ?thesis by (simp add: whole_messages_def text_upd [OF assms(2,3)])
qed

lemma whole_messages_send:
  assumes "whole_messages xs t order out" "i < length xs" "xs ! i = In_loop m 0" "m \<noteq> []"
  shows "whole_messages (xs[i := In_loop m (length m)]) t (order @ [i]) (out @ m)"
proof -
  have "i \<notin> set order" using assms(1-3) by (fastforce simp: whole_messages_def)
  moreover have "text_of (xs[i := In_loop m (length m)] ! j) = text_of (xs ! j)" for j
    by (rule text_upd [OF assms(2)]) (simp add: assms(3))
  ultimately show ?thesis
    using assms by (auto simp: whole_messages_def nth_list_update)
qed

text \<open>The socket after a \<open>send\<close> that takes all it is given.\<close>

definition unlimited :: "int \<Rightarrow> kernel \<Rightarrow> string \<Rightarrow> bool" where
  "unlimited f k out \<longleftrightarrow> (\<exists>q. socks k f = Some q \<and> sends q = [] \<and> \<not> shut q \<and> tx q = out)"

lemma sender_step_whole:
  assumes "unlimited (fd (client_fd s)) k out" "whole_messages xs t order out" "i < length xs"
    and "sender_step (xs ! i) s k = (x, s', k')"
  shows "s' = s \<and> (\<exists>order' out'. unlimited (fd (client_fd s)) k' out' \<and> whole_messages (xs[i := x]) t order' out')"
proof (cases "xs ! i")
  case (Calling m)
  with assms have r: "x = (if active s then In_loop m 0 else Returned m False)" "s' = s" "k' = k"
    by (auto simp: sender_step_def)
  have "i \<notin> set order" using assms(2,3) Calling by (fastforce simp: whole_messages_def)
  then have "whole_messages (xs[i := x]) t order out"
    by (intro whole_messages_upd [OF assms(2,3)]) (simp_all add: Calling r(1))
  with r assms(1) show ?thesis by blast
next
  case (In_loop m tot)
  have tot: "tot = 0 \<or> tot = length m" and o: "i \<in> set order \<longleftrightarrow> tot \<noteq> 0"
    using assms(2,3) In_loop by (fastforce simp: whole_messages_def)+
  show ?thesis
  proof (cases "tot < length m")
    case True
    with tot have z: "tot = 0" and m: "m \<noteq> []" by auto
    from assms(1) obtain q where q: "socks k (fd (client_fd s)) = Some q" "sends q = []" "\<not> shut q" "tx q = out"
      by (auto simp: unlimited_def)
    from m obtain n where n: "length m = Suc n" by (cases m) auto
    let ?k = "k\<lparr>socks := (socks k)(fd (client_fd s) \<mapsto> q\<lparr>tx := tx q @ m\<rparr>)\<rparr>"
    have "sys_send (fd (client_fd s)) m k = (Sent (Suc n), ?k)"
      using q n by (simp add: sys_send_def)
    with assms(4) In_loop z n have r: "x = In_loop m (length m)" "s' = s" "k' = ?k"
      by (auto simp: sender_step_def)
    have "whole_messages (xs[i := x]) t (order @ [i]) (out @ m)"
      unfolding r(1) by (rule whole_messages_send [OF assms(2,3) _ m]) (simp add: In_loop z)
    moreover have "unlimited (fd (client_fd s)) k' (out @ m)"
      using q by (simp add: r(3) unlimited_def)
    ultimately show ?thesis using r(2) by blast
  next
    case False
    with tot have l: "tot = length m" by auto
    with assms(4) In_loop have r: "x = Returned m True" "s' = s" "k' = k" by (auto simp: sender_step_def)
    have "whole_messages (xs[i := x]) t order out"
      by (rule whole_messages_upd [OF assms(2,3)]) (use o l in \<open>auto simp: In_loop r(1)\<close>)
    with r assms(1) show ?thesis by blast
  qed
next
  case (Returned m b)
  with assms(4) have r: "x = xs ! i" "s' = s" "k' = k" by (auto simp: sender_step_def)
  with assms(1,2) show ?thesis by auto
qed

lemma race_whole:
  "unlimited (fd (client_fd s)) k out \<Longrightarrow> whole_messages xs t order out \<Longrightarrow> race sch xs s k = (xs', s', k') \<Longrightarrow>
   s' = s \<and> (\<exists>order' out'. unlimited (fd (client_fd s)) k' out' \<and> whole_messages xs' t order' out')"
proof (induction sch arbitrary: xs k out order)
  case (Cons i sch)
  show ?case
  proof (cases "i < length xs")
    case True
    obtain x s1 k1 where x: "sender_step (xs ! i) s k = (x, s1, k1)" by (metis prod_cases3)
    from sender_step_whole [OF Cons.prems(1,2) True x] obtain order' out'
      where n: "s1 = s" "unlimited (fd (client_fd s)) k1 out'" "whole_messages (xs[i := x]) t order' out'" by blast
    from Cons.IH [OF n(2,3)] Cons.prems(3) True x n(1) show ?thesis by simp
  qed (use Cons in simp)
qed auto

text \<open>C19: while every \<open>send\<close> on the connection takes all it is given, messages sent to one session by
  any number of threads at once stay whole: whatever the schedule, what is transmitted is a sequence of
  complete messages, each of one thread and at most once, among them those of all threads that have
  returned true.\<close>

theorem concurrent_sends_stay_whole:
  assumes "socks k (fd (client_fd s)) = Some q" and "sends q = []" and "\<not> shut q"
    and "race sch (map Calling ms) s k = (xs, s', k')"
  shows "\<exists>order q'. distinct order \<and> set order \<subseteq> {..<length ms}
    \<and> socks k' (fd (client_fd s)) = Some q' \<and> tx q' = tx q @ concat (map (\<lambda>i. ms ! i) order)
    \<and> (\<forall>i < length ms. xs ! i = Returned (ms ! i) True \<and> ms ! i \<noteq> [] \<longrightarrow> i \<in> set order)"
proof -
  have texts: "length (fst (race sch xs0 s0 k0)) = length xs0
      \<and> (\<forall>i < length xs0. text_of (fst (race sch xs0 s0 k0) ! i) = text_of (xs0 ! i))" for xs0 s0 k0
  proof (induction sch arbitrary: xs0 s0 k0)
    case (Cons i sch)
    have "text_of (fst (sender_step x s0 k0)) = text_of x" for x
      by (auto simp: sender_step_def split: sender.splits prod.splits send_res.splits nat.splits)
    with Cons show ?case by (auto simp: Let_def case_prod_unfold nth_list_update)
  qed simp
  have "whole_messages (map Calling ms) (tx q) [] (tx q)" by (simp add: whole_messages_def)
  moreover have "unlimited (fd (client_fd s)) k (tx q)" using assms(1-3) by (simp add: unlimited_def)
  ultimately obtain order out where r: "unlimited (fd (client_fd s)) k' out" "whole_messages xs (tx q) order out"
    using race_whole [OF _ _ assms(4)] by blast
  have len: "length xs = length ms" and same: "\<And>i. i < length ms \<Longrightarrow> text_of (xs ! i) = ms ! i"
    using texts [of "map Calling ms" s k] assms(4) by auto
  have "map (\<lambda>i. text_of (xs ! i)) order = map (\<lambda>i. ms ! i) order"
    using r(2) len same by (auto simp: whole_messages_def)
  with r len show ?thesis
    by (intro exI [of _ order]) (fastforce simp: whole_messages_def unlimited_def)
qed

subsection \<open>When a \<open>send\<close> takes a part\<close>

text \<open>C40: if a \<open>send\<close> takes only a part of a frame, as it may when the buffer of the socket is nearly full,
  another thread's frame can get into the middle of it: both calls of \<open>send_msg\<close> return true, and what
  the client reads after decryption are two lines that are neither of the two sent.\<close>

theorem partial_sends_interleave:
  assumes "socks k (fd (client_fd s)) = Some q" and "sends q = [Sent j]" and "\<not> shut q" and "active s"
    and "0 < j" and "j < length l1 + 1" and "nl \<notin> set l1" and "nl \<notin> set l2"
  shows "\<exists>sch k' q'. race sch [Calling (encrypt c (l1 @ [nl])), Calling (encrypt c (l2 @ [nl]))] s k
      = ([Returned (encrypt c (l1 @ [nl])) True, Returned (encrypt c (l2 @ [nl])) True], s, k')
    \<and> socks k' (fd (client_fd s)) = Some q'
    \<and> (\<exists>out. tx q' = tx q @ out \<and> getlines (decrypt c out) = [take j l1 @ l2, drop j l1])"
proof -
  let ?f = "fd (client_fd s)" and ?a = "encrypt c (l1 @ [nl])" and ?b = "encrypt c (l2 @ [nl])"
  obtain n where n: "j = Suc n" using assms(5) by (cases j) auto
  have la: "length ?a = Suc (length l1)" and lb: "length ?b = Suc (length l2)" by simp_all
  let ?q1 = "q\<lparr>sends := [], tx := tx q @ take j ?a\<rparr>"
  let ?q2 = "?q1\<lparr>tx := tx ?q1 @ ?b\<rparr>"
  let ?q3 = "?q2\<lparr>tx := tx ?q2 @ drop j ?a\<rparr>"
  define k1 where "k1 = k\<lparr>socks := (socks k)(?f \<mapsto> ?q1)\<rparr>"
  define k2 where "k2 = k1\<lparr>socks := (socks k1)(?f \<mapsto> ?q2)\<rparr>"
  define k3 where "k3 = k2\<lparr>socks := (socks k2)(?f \<mapsto> ?q3)\<rparr>"
  have s1: "sys_send ?f ?a k = (Sent (Suc n), k1)"
    using assms(1-3,6) n by (simp add: sys_send_def Let_def k1_def)
  have s2: "sys_send ?f ?b k1 = (Sent (Suc (length l2)), k2)"
    using assms(3) by (simp add: sys_send_def k2_def k1_def)
  obtain m where m: "length l1 - n = Suc m" using assms(6) n by (cases "length l1 - n") auto
  have s3: "sys_send ?f (drop j ?a) k2 = (Sent (Suc m), k3)"
    using assms(3) n m by (simp add: sys_send_def k3_def k2_def)
  have one: "sender_step (Calling x) s kk = (In_loop x 0, s, kk)" for x kk
    using assms(4) by (simp add: sender_step_def)
  have st1: "sender_step (In_loop ?a 0) s k = (In_loop ?a j, s, k1)"
    using s1 n by (simp add: sender_step_def)
  have st2: "sender_step (In_loop ?b 0) s k1 = (In_loop ?b (Suc (length l2)), s, k2)"
    using s2 by (simp add: sender_step_def)
  have st3: "sender_step (In_loop ?a j) s k2 = (In_loop ?a (Suc (length l1)), s, k3)"
    using s3 n m assms(6) by (simp add: sender_step_def)
  have fin: "sender_step (In_loop x (length x)) s kk = (Returned x True, s, kk)" for x kk
    by (simp add: sender_step_def)
  have "race [0, 0, 1, 1, 1, 0, 0] [Calling ?a, Calling ?b] s k = ([Returned ?a True, Returned ?b True], s, k3)"
    using fin [of ?a] fin [of ?b] unfolding la lb by (simp add: one st1 st2 st3)
  moreover have "socks k3 ?f = Some ?q3" by (simp add: k3_def)
  moreover have "tx ?q3 = tx q @ encrypt c ((take j l1 @ l2) @ [nl] @ drop j l1 @ [nl])"
    using assms(6) by (simp add: encrypt_def take_map drop_map)
  moreover have "getlines (decrypt c (encrypt c ((take j l1 @ l2) @ [nl] @ drop j l1 @ [nl]))) = [take j l1 @ l2, drop j l1]"
  proof -
    have "nl \<notin> set (take j l1 @ l2)" "nl \<notin> set (drop j l1)"
      using assms(7,8) by (auto dest: in_set_takeD in_set_dropD)
    from getlines_line [OF this(1)] getlines_line [OF this(2), of "[]"] show ?thesis by simp
  qed
  ultimately show ?thesis by blast
qed

theorem concurrent_sends_stay_whole_witness:
  "\<exists>k' q' order. race [0, 1, 1, 0, 1, 0] (map Calling [''ab'', ''c'']) (mk_session 7 ''ip'')
       \<lparr>socks = [7 \<mapsto> \<lparr>rx = [], sends = [], tx = [], shut = False\<rparr>], closes = []\<rparr>
     = ([Returned ''ab'' True, Returned ''c'' True], mk_session 7 ''ip'', k')
   \<and> socks k' 7 = Some q' \<and> tx q' = concat (map (\<lambda>i. [''ab'', ''c''] ! i) order)
   \<and> 0 \<in> set order \<and> 1 \<in> set order"
proof -
  let ?s = "mk_session 7 ''ip''"
  let ?k = "\<lparr>socks = [7 \<mapsto> \<lparr>rx = [], sends = [], tx = [], shut = False\<rparr>], closes = []\<rparr>"
  obtain k' where r: "race [0, 1, 1, 0, 1, 0] (map Calling [''ab'', ''c'']) ?s ?k
      = ([Returned ''ab'' True, Returned ''c'' True], ?s, k')"
    by (simp add: sender_step_def mk_session_def mk_fd_def sys_send_def)
  from concurrent_sends_stay_whole [OF _ _ _ r] obtain order q'
    where o: "socks k' 7 = Some q'" "tx q' = concat (map (\<lambda>i. [''ab'', ''c''] ! i) order)"
      "\<forall>i < 2. [Returned ''ab'' True, Returned ''c'' True] ! i = Returned ([''ab'', ''c''] ! i) True
         \<and> [''ab'', ''c''] ! i \<noteq> [] \<longrightarrow> i \<in> set order"
    by (auto simp: mk_session_def mk_fd_def numeral_2_eq_2)
  from o(3) [rule_format, of 0] o(3) [rule_format, of 1] have "0 \<in> set order" "1 \<in> set order" by simp_all
  with o(1,2) r show ?thesis by blast
qed

theorem partial_sends_interleave_witness:
  "\<exists>sch k'. race sch [Calling (encrypt default_cipher (''BCAST:a'' @ [nl])), Calling (encrypt default_cipher (''OK:'' @ [nl]))]
       (mk_session 7 ''ip'')
       \<lparr>socks = [7 \<mapsto> \<lparr>rx = [], sends = [Sent 2], tx = [], shut = False\<rparr>], closes = []\<rparr>
     = ([Returned (encrypt default_cipher (''BCAST:a'' @ [nl])) True,
         Returned (encrypt default_cipher (''OK:'' @ [nl])) True], mk_session 7 ''ip'', k')
   \<and> (\<exists>q'. socks k' 7 = Some q' \<and> getlines (decrypt default_cipher (tx q')) = [''BCOK:'', ''AST:a''])"
  using partial_sends_interleave [of
      "\<lparr>socks = [7 \<mapsto> \<lparr>rx = [], sends = [Sent 2], tx = [], shut = False\<rparr>], closes = []\<rparr>"
      "mk_session 7 ''ip''" "\<lparr>rx = [], sends = [Sent 2], tx = [], shut = False\<rparr>" 2 "''BCAST:a''" "''OK:''" default_cipher]
  by (simp add: mk_session_def mk_fd_def)

end
