(* ===== verification/Chat_Service.thy ===== *)
theory Chat_Service
  imports Room_Manager
begin

text \<open>
  What the server promises, without threads, connections or pointers followed: a service in which
  clients have seats, with events, the guard under which an event may happen, the state it leaves, and
  who hears what of it. \<open>Service_Refinement\<close> shows that the server with all its threads
  (\<open>Server_System\<close>) is such a service.
\<close>

subsection \<open>The service\<close>

text \<open>A seat is a connected client: its name, whether the name has been proved, the rooms it is in,
  and whether it is on the list that broadcasts go to. The index says whom a private message
  for a name goes to.\<close>

record seat =
  seat_name :: string
  proved :: bool
  seat_rooms :: "string set"
  listed :: bool

record service =
  seats :: "ptr \<rightharpoonup> seat"
  name_index :: "string \<rightharpoonup> ptr"

definition empty_service :: service where
  "empty_service = \<lparr>seats = Map.empty, name_index = Map.empty\<rparr>"

definition new_seat :: seat where
  "new_seat = \<lparr>seat_name = ''(unauthenticated)'', proved = False, seat_rooms = {}, listed = False\<rparr>"

text \<open>\<open>Idle\<close> is a turn that only answers its own client (a menu, a refusal, an error, a
  farewell), \<open>Refuse\<close> a connection for which no thread could be made; a room \<open>[]\<close> is none.\<close>

datatype event =
    Connect ptr
  | Refuse
  | Idle ptr
  | Admit ptr string
  | Move ptr string
  | Say ptr string string
  | Whisper ptr string string
  | Depart ptr
  | Disconnect

definition rooms_of :: "string \<Rightarrow> string set" where
  "rooms_of r = (if r = [] then {} else {r})"

definition set_seat :: "ptr \<Rightarrow> (seat \<Rightarrow> seat) \<Rightarrow> service \<Rightarrow> service" where
  "set_seat p f s = s\<lparr>seats := (seats s)(p := map_option f (seats s p))\<rparr>"

fun may :: "event \<Rightarrow> service \<Rightarrow> bool" where
  "may (Connect p) s \<longleftrightarrow> seats s p = None \<and> p \<noteq> nullptr"
| "may Refuse s \<longleftrightarrow> True"
| "may (Idle p) s \<longleftrightarrow> seats s p \<noteq> None"
| "may (Admit p u) s \<longleftrightarrow> (case seats s p of None \<Rightarrow> False
     | Some x \<Rightarrow> \<not> proved x \<and> \<not> listed x \<and> seat_rooms x = {})"
| "may (Move p r) s \<longleftrightarrow> (case seats s p of None \<Rightarrow> False | Some x \<Rightarrow> proved x)"
| "may (Say p r t) s \<longleftrightarrow> (case seats s p of None \<Rightarrow> False
     | Some x \<Rightarrow> proved x \<and> seat_rooms x = rooms_of r \<and> t \<noteq> [] \<and> hd t \<noteq> slash
         \<and> length t \<le> MAX_MSG_LEN)"
| "may (Whisper p n t) s \<longleftrightarrow> (case seats s p of None \<Rightarrow> False
     | Some x \<Rightarrow> proved x \<and> n \<noteq> [] \<and> t \<noteq> [])"
| "may (Depart p) s \<longleftrightarrow> seats s p \<noteq> None"
| "may Disconnect s \<longleftrightarrow> True"

fun happen :: "event \<Rightarrow> service \<Rightarrow> service" where
  "happen (Connect p) s = s\<lparr>seats := (seats s)(p \<mapsto> new_seat)\<rparr>"
| "happen (Admit p u) s =
     (set_seat p (\<lambda>x. x\<lparr>seat_name := u, proved := True, listed := True\<rparr>) s)
       \<lparr>name_index := (name_index s)(u \<mapsto> p)\<rparr>"
| "happen (Move p r) s = set_seat p (\<lambda>x. x\<lparr>seat_rooms := rooms_of r\<rparr>) s"
| "happen (Depart p) s =
     \<lparr>seats = (seats s)(p := None),
      name_index = (\<lambda>n. if name_index s n = Some p then None else name_index s n)\<rparr>"
| "happen Disconnect s =
     \<lparr>seats = (\<lambda>p. map_option (\<lambda>x. x\<lparr>listed := False\<rparr>) (seats s p)), name_index = Map.empty\<rparr>"
| "happen _ s = s"

text \<open>Whose turn it is.\<close>

fun actor :: "event \<Rightarrow> ptr option" where
  "actor (Connect p) = Some p" | "actor Refuse = None" | "actor (Idle p) = Some p"
| "actor (Admit p u) = Some p" | "actor (Move p r) = Some p" | "actor (Say p r t) = Some p"
| "actor (Whisper p n t) = Some p" | "actor (Depart p) = Some p" | "actor Disconnect = None"

definition name_at :: "service \<Rightarrow> ptr \<Rightarrow> string" where
  "name_at s p = (case seats s p of None \<Rightarrow> [] | Some x \<Rightarrow> seat_name x)"

text \<open>What is sent to others (for the events that nobody hears, a message never sent), and who is to hear it.\<close>

fun speech :: "event \<Rightarrow> service \<Rightarrow> message" where
  "speech (Say p r t) s = make_bcast (name_at s p)
     (if r = [] then t else room_tag r (''['' @ r @ ''] '' @ t))"
| "speech (Whisper p n t) s = make_bcast (name_at s p) (pm_text (name_at s p) t)"
| "speech _ s = make_bcast [] []"

fun hears :: "event \<Rightarrow> service \<Rightarrow> ptr \<Rightarrow> bool" where
  "hears (Say p r t) s q \<longleftrightarrow> (case seats s q of None \<Rightarrow> False
     | Some x \<Rightarrow> seat_name x \<noteq> name_at s p \<and> (if r = [] then listed x else r \<in> seat_rooms x))"
| "hears (Whisper p n t) s q \<longleftrightarrow> name_index s n = Some q"
| "hears _ s q \<longleftrightarrow> False"

text \<open>Whose connection the server itself uses: the turn's own, to answer or to close it; those
  on the list, when all are disconnected. Who speaks gets no answer.\<close>

fun touches :: "event \<Rightarrow> service \<Rightarrow> ptr \<Rightarrow> bool" where
  "touches (Say p r t) s q \<longleftrightarrow> False"
| "touches (Whisper p n t) s q \<longleftrightarrow> False"
| "touches Disconnect s q \<longleftrightarrow> (case seats s q of None \<Rightarrow> False | Some x \<Rightarrow> listed x)"
| "touches e s q \<longleftrightarrow> actor e = Some q"

subsection \<open>Its invariant\<close>

text \<open>Who has not proved a name is on no list and in no room, nobody is in two rooms, and a name in the
  index leads to a listed seat under that name.\<close>

definition seat_ok :: "seat \<Rightarrow> bool" where
  "seat_ok x \<longleftrightarrow> (\<not> proved x \<longrightarrow> \<not> listed x \<and> seat_rooms x = {}) \<and> (\<exists>r. seat_rooms x = rooms_of r)"

definition service_ok :: "service \<Rightarrow> bool" where
  "service_ok s \<longleftrightarrow> (\<forall>p x. seats s p = Some x \<longrightarrow> seat_ok x)
     \<and> (\<forall>n p. name_index s n = Some p \<longrightarrow> (\<exists>x. seats s p = Some x \<and> listed x \<and> seat_name x = n))"

lemma service_ok_seat: "service_ok s \<Longrightarrow> seats s p = Some x \<Longrightarrow> seat_ok x"
  by (simp add: service_ok_def)

lemma service_ok_index:
  "service_ok s \<Longrightarrow> name_index s n = Some p \<Longrightarrow> \<exists>x. seats s p = Some x \<and> listed x \<and> seat_name x = n"
  by (simp add: service_ok_def)

lemma service_ok_empty: "service_ok empty_service"
  by (simp add: service_ok_def empty_service_def)

lemma rooms_of_Nil [simp]: "rooms_of [] = {}"
  by (simp add: rooms_of_def)

lemma seat_ok_new: "seat_ok new_seat"
  by (auto simp: seat_ok_def new_seat_def intro: exI [of _ "[]"])

lemma seats_set_seat [simp]:
  "seats (set_seat p f s) q = (if q = p then map_option f (seats s p) else seats s q)"
  "name_index (set_seat p f s) = name_index s"
  by (simp_all add: set_seat_def)

lemma service_ok_happen:
  assumes ok: "service_ok s" and m: "may e s"
  shows "service_ok (happen e s)"
proof (cases e)
  case (Connect p)
  with m have new: "name_index s n \<noteq> Some p" for n
    using service_ok_index [OF ok, of n p] by auto
  with Connect ok show ?thesis by (auto simp: service_ok_def seat_ok_new)
next
  case (Admit p u)
  with m obtain x where x: "seats s p = Some x" "\<not> proved x" "\<not> listed x" "seat_rooms x = {}"
    by (auto split: option.splits)
  then have new: "name_index s n \<noteq> Some p" for n
    using service_ok_index [OF ok, of n p] by auto
  have "seat_ok (x\<lparr>seat_name := u, proved := True, listed := True\<rparr>)"
    using x(4) by (auto simp: seat_ok_def intro: exI [of _ "[]"])
  with Admit ok x new show ?thesis by (auto simp: service_ok_def)
next
  case (Move p r)
  with m obtain x where x: "seats s p = Some x" "proved x" by (auto split: option.splits)
  then have "seat_ok (x\<lparr>seat_rooms := rooms_of r\<rparr>)" by (auto simp: seat_ok_def)
  moreover have "name_index s n = Some p \<Longrightarrow> listed x \<and> seat_name x = n" for n
    using service_ok_index [OF ok, of n p] x(1) by auto
  ultimately show ?thesis using Move ok x by (auto simp: service_ok_def)
next
  case Disconnect
  with ok show ?thesis by (auto simp: service_ok_def seat_ok_def)
qed (use ok in \<open>auto simp: service_ok_def\<close>)

text \<open>Who has not proved a name hears nothing.\<close>

lemma unproved_hears_nothing:
  assumes "service_ok s" "seats s q = Some x" "\<not> proved x"
  shows "\<not> hears e s q"
proof -
  have x: "\<not> listed x" "seat_rooms x = {}"
    using service_ok_seat [OF assms(1,2)] assms(3) by (auto simp: seat_ok_def)
  then have "name_index s n \<noteq> Some q" for n
    using service_ok_index [OF assms(1), of n q] assms(2) by auto
  with x assms(2) show ?thesis by (cases e) auto
qed

subsection \<open>What it means to be such a service\<close>

text \<open>
  A step relation refines a set of events when every step, from a state that keeps an invariant, is seen
  as an event that may happen there. Then its states are seen as those of the events, and what
  the events keep, it keeps.
\<close>

locale event_refinement =
  fixes beginning :: "'s \<Rightarrow> bool" and step :: "'s \<Rightarrow> 's \<Rightarrow> bool" and inv :: "'s \<Rightarrow> bool"
    and seen :: "'s \<Rightarrow> 'a" and first :: 'a
    and permitted :: "'e \<Rightarrow> 'a \<Rightarrow> bool" and effect :: "'e \<Rightarrow> 'a \<Rightarrow> 'a"
  assumes begins: "beginning y \<Longrightarrow> inv y \<and> seen y = first"
    and sim: "inv y \<Longrightarrow> step y y' \<Longrightarrow>
      inv y' \<and> (\<exists>e. permitted e (seen y) \<and> seen y' = effect e (seen y))"
begin

lemma keeps:
  assumes "step\<^sup>*\<^sup>* y0 y" "beginning y0"
  shows "inv y"
  using assms(1) by induction (use begins [OF assms(2)] sim in blast)+

lemma lifts:
  assumes "step\<^sup>*\<^sup>* y0 y" "beginning y0"
    and "I first" "\<And>e s. I s \<Longrightarrow> permitted e s \<Longrightarrow> I (effect e s)"
  shows "I (seen y)"
  using assms(1)
proof induction
  case base
  then show ?case using begins [OF assms(2)] assms(3) by simp
next
  case (step y z)
  from keeps [OF step.hyps(1) assms(2)] sim step.hyps(2) obtain e
    where "permitted e (seen y)" "seen z = effect e (seen y)" by blast
  with assms(4) step.IH show ?case by simp
qed

end

text \<open>A sequence of events, each permitted where it happens.\<close>

fun all_may :: "event list \<Rightarrow> service \<Rightarrow> bool" where
  "all_may [] s \<longleftrightarrow> True"
| "all_may (e # es) s \<longleftrightarrow> may e s \<and> all_may es (happen e s)"

lemma all_may_append: "all_may (es @ fs) s \<longleftrightarrow> all_may es s \<and> all_may fs (fold happen es s)"
  by (induction es arbitrary: s) auto

end
