(* ===== verification/Service_Events.thy ===== *)
theory Service_Events
  imports Server_System Chat_Service
begin

text \<open>
  How the steps of the server (\<open>Server_System\<close>) look as events of the service of \<open>Chat_Service\<close>: the service
  a state of the server provides, and for the handler's functions up to the chat which event
  they are and whose connections they write to. \<open>Service_Refinement\<close> has the other steps and the theorems.
\<close>

subsection \<open>The service a server provides\<close>

definition seat_of :: "world \<Rightarrow> ptr \<Rightarrow> seat" where
  "seat_of w p = (case heap (wstore w) p of
     None \<Rightarrow> new_seat
   | Some s \<Rightarrow> \<lparr>seat_name = username s, proved = username_set s,
       seat_rooms = {r. in_room (rman w) r p}, listed = p \<in> set (clients (bman w))\<rparr>)"

definition service_of :: "ptr set \<Rightarrow> world \<Rightarrow> service" where
  "service_of D w = \<lparr>seats = (\<lambda>p. if p \<in> D then Some (seat_of w p) else None),
     name_index = by_name (bman w)\<rparr>"

abbreviation seen_of :: "system \<Rightarrow> service" where
  "seen_of y \<equiv> service_of (dom (procs y)) (shared (srv y))"

lemma service_of_sel [simp]:
  "seats (service_of D w) p = (if p \<in> D then Some (seat_of w p) else None)"
  "name_index (service_of D w) = by_name (bman w)"
  by (simp_all add: service_of_def)

lemma service_eqI:
  "(\<And>p. seats s p = seats s' p) \<Longrightarrow> name_index s = name_index s' \<Longrightarrow> s = (s' :: service)"
  by (cases s; cases s') auto

text \<open>Everyone whose connection works and who is to hear an event is sent its message; the connection of
  anyone else, but for those the server itself uses, carries what it carried before.\<close>

definition transmits :: "cipher \<Rightarrow> event \<Rightarrow> service \<Rightarrow> store \<Rightarrow> store \<Rightarrow> bool" where
  "transmits c e s st st' \<longleftrightarrow>
     (\<forall>q \<in> dom (seats s). \<forall>f. call_is_active q st = Some True \<and> fd_of st q = Some f \<longrightarrow>
        (hears e s q \<longrightarrow> got (encrypt c (serialise (speech e s))) st q st')
        \<and> (\<not> hears e s q \<and> \<not> touches e s q \<longrightarrow> out_of st' f = out_of st f))"

subsection \<open>Turns that write to their own client only\<close>

definition mute :: "ptr \<Rightarrow> store \<Rightarrow> store \<Rightarrow> bool" where
  "mute p st st' \<longleftrightarrow> (\<forall>f. \<not> (fd_of st p = Some f \<and> call_is_active p st = Some True) \<longrightarrow>
     out_of st' f = out_of st f)"

definition alone :: "ptr \<Rightarrow> world \<Rightarrow> world \<Rightarrow> bool" where
  "alone p w w' \<longleftrightarrow> bman w' = bman w \<and> rman w' = rman w \<and> same_ids (wstore w) (wstore w')
     \<and> mute p (wstore w) (wstore w')"

lemma alone_refl [simp]: "alone p w w"
  by (simp add: alone_def mute_def)

lemma mute_trans:
  "mute p a b \<Longrightarrow> same_ids a b \<Longrightarrow> mute p b d \<Longrightarrow> mute p a d"
  unfolding mute_def using fd_of_same_ids [of a b p] same_ids_active [of a b p] by metis

lemma alone_trans [trans]: "alone p a b \<Longrightarrow> alone p b d \<Longrightarrow> alone p a d"
  unfolding alone_def using mute_trans same_ids_trans by metis

lemma alone_upd [simp]:
  "alone p w0 (w_log l m w) = alone p w0 w" "alone p w0 (w\<lparr>ios := i\<rparr>) = alone p w0 w"
  "alone p w0 (w\<lparr>logs := x\<rparr>) = alone p w0 w" "alone p w0 (w\<lparr>wfs := fs, logs := x\<rparr>) = alone p w0 w"
  "alone p (w_log l m w) w1 = alone p w w1" "alone p (w\<lparr>ios := i\<rparr>) w1 = alone p w w1"
  "alone p (w\<lparr>wfs := fs, logs := x\<rparr>) w1 = alone p w w1"
  by (simp_all add: alone_def w_log_def)

lemma send_inactive_mute:
  assumes "call_send_msg p msg st = Some (b, st')"
  shows "mute p st st'"
proof -
  have "kern st' = kern st" if "call_is_active p st \<noteq> Some True"
    using assms that by (auto simp: call_send_msg_def send_msg_def call_is_active_def is_active_def
        bind_Some_iff)
  with call_send_msg_got(2) [OF assms] show ?thesis
    by (auto simp: mute_def out_of_def)
qed

lemma send_alone: "send_encrypted c h s w = Some (b, w') \<Longrightarrow> alone (session_ptr h) w w'"
  by (auto simp: send_encrypted_def bind_Some_iff Let_def alone_def call_send_msg_same_ids
      send_inactive_mute)

text \<open>Receiving changes no session, and transmits nothing.\<close>

lemma sys_recv_out: "out_of (st\<lparr>kern := snd (sys_recv f (kern st))\<rparr>) g = out_of st g"
  by (auto simp: out_of_def sys_recv_def split: option.splits list.splits)

lemma recv_bytes_keeps:
  "recv_bytes c p buf st = Some (l, st') \<Longrightarrow> heap st' = heap st \<and> out_of st' = out_of st"
proof (induction c p buf st rule: recv_bytes.induct)
  case (1 c p buf st)
  then obtain f where f: "call_get_fd p st = Some f"
    by (auto simp: recv_bytes.simps [of c p buf st] split: option.splits)
  obtain r k where r: "sys_recv f (kern st) = (r, k)" by force
  have o: "out_of (st\<lparr>kern := k\<rparr>) = out_of st" using sys_recv_out [of f st] r by auto
  from "1.prems" "1.IH"(1) [OF f r [symmetric]] "1.IH"(2) [OF f r [symmetric]] show ?case
    using o f r by (cases r) (auto simp: recv_bytes.simps [of c p buf st] Let_def split: if_splits)
qed

definition listens :: "world \<Rightarrow> world \<Rightarrow> bool" where
  "listens w w' \<longleftrightarrow> bman w' = bman w \<and> rman w' = rman w \<and> heap (wstore w') = heap (wstore w)
     \<and> out_of (wstore w') = out_of (wstore w)"

lemma recv_listens: "recv_line c h w = Some (l, w') \<Longrightarrow> listens w w'"
  by (auto simp: recv_line_def bind_Some_iff listens_def dest: recv_bytes_keeps)

lemma listens_alone: "listens w w' \<Longrightarrow> alone p w w'"
  by (simp add: listens_def alone_def mute_def same_ids_def option.rel_refl)

lemmas recv_alone = listens_alone [OF recv_listens]
lemmas alone_intros = alone_trans [OF recv_alone] alone_trans [OF send_alone] send_alone recv_alone

lemma menu_alone: "present_menu c h w = Some (n, w') \<Longrightarrow> alone (session_ptr h) w w'"
  by (auto simp: present_menu_def bind_Some_iff Let_def split: if_splits intro: alone_intros)

lemma refuse_alone: "refuse c h s w = Some (b, w') \<Longrightarrow> \<not> b \<and> alone (session_ptr h) w w'"
  by (auto simp: refuse_def bind_Some_iff intro: alone_intros)

lemma reply_alone:
  "reply c h m w = Some (go, h', w') \<Longrightarrow> go \<and> h' = h \<and> alone (session_ptr h) w w'"
  by (auto simp: reply_def bind_Some_iff intro: alone_intros)

subsection \<open>Logging in\<close>

definition unnamed :: "ptr \<Rightarrow> world \<Rightarrow> bool" where
  "unnamed p w \<longleftrightarrow> p \<noteq> nullptr \<and> (\<exists>s. heap (wstore w) p = Some s \<and> \<not> username_set s)"

definition admits :: "ptr \<Rightarrow> string \<Rightarrow> world \<Rightarrow> world \<Rightarrow> bool" where
  "admits p u w w' \<longleftrightarrow> clients (bman w') = clients (bman w) @ [p]
     \<and> by_name (bman w') = (by_name (bman w))(u \<mapsto> p) \<and> rman w' = rman w
     \<and> (\<exists>s. heap (wstore w') p = Some s \<and> username s = u \<and> username_set s)
     \<and> mute p (wstore w) (wstore w')"

text \<open>What an attempt comes to: the client is let in, or its turn stays its own.\<close>

definition attempts :: "ptr \<Rightarrow> bool \<Rightarrow> world \<Rightarrow> world \<Rightarrow> bool" where
  "attempts p b w w' \<longleftrightarrow> (if b then \<exists>u. admits p u w w' else alone p w w')"

lemma alone_unnamed: "unnamed p w \<Longrightarrow> alone p w w' \<Longrightarrow> unnamed p w'"
  using same_ids_heap [of "wstore w" "wstore w'" p] by (auto simp: unnamed_def alone_def same_id_def)

lemma alone_attempts: "alone p w w1 \<Longrightarrow> attempts p b w1 w2 \<Longrightarrow> attempts p b w w2"
  using mute_trans [of p "wstore w" "wstore w1" "wstore w2"] alone_trans [of p w w1 w2]
  by (auto simp: attempts_def admits_def alone_def split: if_splits)

lemma attempts_upd [simp]:
  "attempts p b (w_log l m w) w1 = attempts p b w w1"
  "attempts p b (w\<lparr>wfs := fs, logs := x\<rparr>) w1 = attempts p b w w1"
  by (simp_all add: attempts_def admits_def w_log_def alone_def)

lemma unnamed_upd [simp]:
  "unnamed p (w_log l m w) = unnamed p w" "unnamed p (w\<lparr>wfs := fs, logs := x\<rparr>) = unnamed p w"
  by (simp_all add: unnamed_def w_log_def)

lemma admit_attempts:
  assumes "unnamed (session_ptr h) w" "admit c h u m w = Some (b, w')"
  shows "attempts (session_ptr h) b w w'"
proof -
  let ?p = "session_ptr h"
  from assms(1) obtain s where s: "heap (wstore w) ?p = Some s" "\<not> username_set s" "?p \<noteq> nullptr"
    by (auto simp: unnamed_def)
  from call_set_username_eff [OF s(1,2), of u] obtain st
    where st: "call_set_username ?p u (wstore w) = Some st" "kern st = kern (wstore w)"
      "call_get_username ?p st = Some u" "\<And>q. fd_of st q = fd_of (wstore w) q"
      "\<And>q. call_is_active q st = call_is_active q (wstore w)" by blast
  let ?bm = "\<lparr>clients = clients (bman w) @ [?p], by_name = (by_name (bman w))(u \<mapsto> ?p)\<rparr>"
  have "add_client ?p st (bman w) = Some ?bm"
    using st(3) s(3) by (cases "bman w") (simp add: add_client_def Let_def)
  with assms(2) st(1) obtain b' where b: "b"
    and e: "send_encrypted c h (serialise (make_ok m)) (w\<lparr>wstore := st, bman := ?bm\<rparr>) = Some (b', w')"
    by (auto simp: admit_def bind_Some_iff)
  from send_alone [OF e] have al: "bman w' = ?bm" "rman w' = rman w" "same_ids st (wstore w')"
    "mute ?p st (wstore w')" by (simp_all add: alone_def)
  have "heap st ?p = Some (set_username u s)" using st(1) s(1) by (auto simp: call_set_username_def)
  then obtain s' where s': "heap (wstore w') ?p = Some s'" "same_id (set_username u s) s'"
    using same_ids_heap [OF al(3)] by blast
  have "mute ?p (wstore w) (wstore w')"
    using al(4) st(2,4,5) by (simp add: mute_def out_of_def)
  with al s' s(2) b show ?thesis
    by (auto simp: attempts_def admits_def set_username_def same_id_def)
qed

lemma refuse_attempts: "refuse c h m w = Some (b, w') \<Longrightarrow> attempts (session_ptr h) b w w'"
  using refuse_alone [of c h m w b w'] by (simp add: attempts_def)

lemma next_io_alone: "next_io w = (io, w') \<Longrightarrow> alone p w w'"
  by (auto simp: next_io_def split: list.splits)

lemma finish_register_attempts:
  assumes "unnamed (session_ptr h) w" "finish_register c h u pw w = Some (b, w')"
  shows "attempts (session_ptr h) b w w'"
proof -
  obtain io w1 where n: "next_io w = (io, w1)" by force
  note al = next_io_alone [OF n, of "session_ptr h"]
  have "attempts (session_ptr h) b w1 w'"
    using assms(2) n alone_unnamed [OF assms(1) al] unfolding finish_register_def
    by (auto simp: bind_Some_iff Let_def split: prod.splits if_splits
        dest!: refuse_attempts admit_attempts [rotated])
  with al show ?thesis by (rule alone_attempts)
qed

lemma finish_login_attempts:
  assumes "unnamed (session_ptr h) w" "finish_login c h u pw w = Some (b, w')"
  shows "attempts (session_ptr h) b w w'"
proof -
  obtain io w1 where n: "next_io w = (io, w1)" by force
  note al = next_io_alone [OF n, of "session_ptr h"]
  have "attempts (session_ptr h) b w1 w'"
    using assms(2) n alone_unnamed [OF assms(1) al] unfolding finish_login_def
    by (auto simp: bind_Some_iff Let_def split: prod.splits if_splits
        dest!: refuse_attempts admit_attempts [rotated])
  with al show ?thesis by (rule alone_attempts)
qed

lemma alone_no_attempt: "alone p w w' \<Longrightarrow> attempts p False w w'"
  by (simp add: attempts_def)

lemma send_wlp:
  assumes "alone (session_ptr h) v w" "\<And>b w'. alone (session_ptr h) v w' \<Longrightarrow> Q (b, w')"
  shows "wlp (send_encrypted c h s w) Q"
  using assms(2) alone_trans [OF assms(1) send_alone] by (auto intro!: wlpI)

lemma recv_wlp:
  assumes "alone (session_ptr h) v w" "\<And>l w'. alone (session_ptr h) v w' \<Longrightarrow> Q (l, w')"
  shows "wlp (recv_line c h w) Q"
  using assms(2) alone_trans [OF assms(1) recv_alone] by (auto intro!: wlpI)

lemma handle_register_attempts:
  assumes "unnamed (session_ptr h) w"
  shows "wlp (handle_register c h w) (\<lambda>(b, w'). attempts (session_ptr h) b w w')"
proof -
  let ?p = "session_ptr h" and ?Q = "\<lambda>(b, w'). attempts (session_ptr h) b w w'"
  have fin: "wlp (finish_register c h u pw w1) ?Q" if "alone ?p w w1" for u pw w1
    using alone_attempts [OF that finish_register_attempts [OF alone_unnamed [OF assms that]]]
    by (auto intro!: wlpI)
  have ref: "wlp (refuse c h m w1) ?Q" if "alone ?p w w1" for m w1
    using alone_attempts [OF that refuse_attempts] by (auto intro!: wlpI)
  show ?thesis
    unfolding handle_register_def
    by (auto intro!: send_wlp [where v = w] recv_wlp [where v = w] fin ref alone_no_attempt)
qed

lemma handle_login_attempts:
  assumes "unnamed (session_ptr h) w"
  shows "wlp (handle_login c h w) (\<lambda>(b, w'). attempts (session_ptr h) b w w')"
proof -
  let ?p = "session_ptr h" and ?Q = "\<lambda>(b, w'). attempts (session_ptr h) b w w'"
  have fin: "wlp (finish_login c h u pw w1) ?Q" if "alone ?p w w1" for u pw w1
    using alone_attempts [OF that finish_login_attempts [OF alone_unnamed [OF assms that]]]
    by (auto intro!: wlpI)
  show ?thesis
    unfolding handle_login_def
    by (auto intro!: send_wlp [where v = w] recv_wlp [where v = w] fin alone_no_attempt)
qed

lemma auth_once_attempts:
  assumes "unnamed (session_ptr h) w" "auth_once c h w = Some (r, w')"
  shows "attempts (session_ptr h) (r = Admitted) w w'"
proof -
  let ?p = "session_ptr h"
  from assms(2) obtain n w1 where m: "present_menu c h w = Some (n, w1)"
    by (auto simp: auth_once_def bind_Some_iff)
  note al = menu_alone [OF m]
  have "attempts ?p (r = Admitted) w1 w'"
    using assms(2) m wlp_res [OF handle_register_attempts [OF alone_unnamed [OF assms(1) al]]]
      wlp_res [OF handle_login_attempts [OF alone_unnamed [OF assms(1) al]]]
    by (auto simp: auth_once_def bind_Some_iff split: if_splits intro!: alone_no_attempt dest: send_alone)
  with al show ?thesis by (rule alone_attempts)
qed

lemma last_attempt_alone: "auth_attempts 0 c h w = Some (b, w') \<Longrightarrow> alone (session_ptr h) w w'"
  by (auto simp: bind_Some_iff dest: send_alone)

subsection \<open>Events of a turn\<close>

text \<open>Who is listed or in a room has a seat.\<close>

definition seated :: "ptr set \<Rightarrow> world \<Rightarrow> bool" where
  "seated D w \<longleftrightarrow> (\<forall>p \<in> set (clients (bman w)). p \<in> D) \<and> (\<forall>r p. in_room (rman w) r p \<longrightarrow> p \<in> D)"

lemma seat_of_eq:
  assumes "rel_option same_id (heap (wstore w) q) (heap (wstore w') q)"
    and "q \<in> set (clients (bman w')) \<longleftrightarrow> q \<in> set (clients (bman w))"
    and "\<And>r. in_room (rman w') r q = in_room (rman w) r q"
  shows "seat_of w' q = seat_of w q"
  using assms by (cases "heap (wstore w) q"; cases "heap (wstore w') q") (auto simp: seat_of_def same_id_def)

lemma turn_seat: "turn p w w' \<Longrightarrow> q \<noteq> p \<Longrightarrow> seat_of w' q = seat_of w q"
  by (rule seat_of_eq) (simp_all add: turn_def)

lemma alone_service: "alone p w w' \<Longrightarrow> service_of D w' = service_of D w"
  by (rule service_eqI) (auto simp: alone_def same_ids_at intro!: seat_of_eq)

lemma listens_service: "listens w w' \<Longrightarrow> service_of D w' = service_of D w"
  by (rule alone_service [OF listens_alone])

lemma listens_get:
  "listens w w1 \<Longrightarrow> fd_of (wstore w1) q = fd_of (wstore w) q"
  "listens w w1 \<Longrightarrow> call_is_active q (wstore w1) = call_is_active q (wstore w)"
  "listens w w1 \<Longrightarrow> out_of (wstore w1) = out_of (wstore w)"
  by (simp_all add: listens_def fd_of_def call_get_fd_def call_is_active_def)

lemma listens_transmits:
  "listens w w1 \<Longrightarrow> transmits c e s (wstore w1) st' \<Longrightarrow> transmits c e s (wstore w) st'"
  by (simp add: transmits_def got_def listens_get)

text \<open>From what happens to the sockets to who hears what.\<close>

lemma mute_transmits:
  assumes "fds_distinct st" "mute p st st'" "touches e s p" "\<And>q. \<not> hears e s q"
  shows "transmits c e s st st'"
  using assms unfolding transmits_def mute_def fds_distinct_def by metis

lemma delivery_transmits:
  assumes "fds_distinct st" "delivery (encrypt c (serialise (speech e s))) st R st'"
    and "\<And>q. q \<in> R \<Longrightarrow> hears e s q \<and> call_is_active q st = Some True"
    and "\<And>q. hears e s q \<Longrightarrow> call_is_active q st = Some True \<Longrightarrow> q \<in> R"
  shows "transmits c e s st st'"
proof -
  have "out_of st' f = out_of st f"
    if "call_is_active q st = Some True" "fd_of st q = Some f" "\<not> hears e s q" for q f
  proof -
    have "fd_of st p \<noteq> Some f" if "p \<in> R" for p
      using assms(1,3) that \<open>call_is_active q st = Some True\<close> \<open>fd_of st q = Some f\<close> \<open>\<not> hears e s q\<close>
      unfolding fds_distinct_def by metis
    with assms(2) show ?thesis by (simp add: delivery_def)
  qed
  moreover have "got (encrypt c (serialise (speech e s))) st q st'"
    if "call_is_active q st = Some True" "hears e s q" for q
    using assms(2) assms(4) [OF that(2,1)] by (simp add: delivery_def)
  ultimately show ?thesis by (auto simp: transmits_def)
qed

text \<open>An event nobody else hears.\<close>

definition solo :: "ptr \<Rightarrow> event \<Rightarrow> bool" where
  "solo p e \<longleftrightarrow> actor e = Some p \<and> (\<forall>s q. \<not> hears e s q)"

lemma solo_simps [simp]:
  "solo p (Idle q) \<longleftrightarrow> q = p" "solo p (Admit q u) \<longleftrightarrow> q = p" "solo p (Move q r) \<longleftrightarrow> q = p"
  "solo p (Depart q) \<longleftrightarrow> q = p"
  by (auto simp: solo_def)

text \<open>One step of the server, seen as an event.\<close>

definition plays :: "cipher \<Rightarrow> event \<Rightarrow> ptr set \<Rightarrow> world \<Rightarrow> ptr set \<Rightarrow> world \<Rightarrow> bool" where
  "plays c e D w D' w' \<longleftrightarrow> may e (service_of D w) \<and> service_of D' w' = happen e (service_of D w)
     \<and> transmits c e (service_of D w) (wstore w) (wstore w')"

lemma idle_plays:
  assumes "world_wf w" "p \<in> D" "alone p w w'"
  shows "plays c (Idle p) D w D w'"
  using assms by (simp add: plays_def alone_service)
    (rule mute_transmits, simp_all add: world_wf_def alone_def)

lemma admit_plays:
  assumes inv: "auth_inv p w" and D: "p \<in> D" and t: "turn p w w'" and a: "admits p u w w'"
  shows "plays c (Admit p u) D w D w' \<and> proved (seat_of w' p)"
proof -
  from inv obtain s where s: "heap (wstore w) p = Some s" "\<not> username_set s"
    and n: "p \<notin> set (clients (bman w))" "\<And>r. \<not> in_room (rman w) r p" "fds_distinct (wstore w)"
    by (auto simp: auth_inv_def world_wf_def)
  have "seat_of w p = \<lparr>seat_name = username s, proved = False, seat_rooms = {}, listed = False\<rparr>"
    using s n by (simp add: seat_of_def)
  moreover have p: "seat_of w' p = \<lparr>seat_name = u, proved = True, seat_rooms = {}, listed = True\<rparr>"
    using a n by (auto simp: seat_of_def admits_def)
  moreover have "transmits c (Admit p u) (service_of D w) (wstore w) (wstore w')"
    by (rule mute_transmits [OF n(3)]) (use a in \<open>auto simp: admits_def\<close>)
  ultimately show ?thesis
    using D a turn_seat [OF t] by (auto simp: plays_def admits_def intro!: service_eqI)
qed

lemma attempts_play:
  assumes inv: "auth_inv p w" and D: "p \<in> D" and t: "turn p w w'" and a: "attempts p b w w'"
  shows "\<exists>e. plays c e D w D w' \<and> solo p e \<and> (b \<longrightarrow> proved (seat_of w' p))"
proof (cases b)
  case True
  with a obtain u where "admits p u w w'" by (auto simp: attempts_def)
  from admit_plays [OF inv D t this] show ?thesis by (auto intro!: exI [of _ "Admit p u"])
next
  case False
  with a have "alone p w w'" by (simp add: attempts_def)
  from idle_plays [OF _ D this] inv False show ?thesis
    by (auto simp: auth_inv_def intro!: exI [of _ "Idle p"])
qed

subsection \<open>The chat\<close>

text \<open>What a line of the chat may be: a change of the room, an answer to oneself, a text for the
  current room (or for all), a private message.\<close>

definition talk_event :: "handler \<Rightarrow> handler \<Rightarrow> event \<Rightarrow> bool" where
  "talk_event h h' e \<longleftrightarrow> e = Move (session_ptr h) (current_room h') \<or> (h' = h \<and>
     (e = Idle (session_ptr h)
      \<or> (\<exists>t. e = Say (session_ptr h) (current_room h) t \<and> t \<noteq> [] \<and> hd t \<noteq> slash \<and> length t \<le> MAX_MSG_LEN)
      \<or> (\<exists>n t. e = Whisper (session_ptr h) n t \<and> n \<noteq> [] \<and> t \<noteq> [])))"

definition talks :: "cipher \<Rightarrow> ptr set \<Rightarrow> handler \<Rightarrow> world \<Rightarrow> handler \<Rightarrow> world \<Rightarrow> bool" where
  "talks c D h w h' w' \<longleftrightarrow> same_ids (wstore w) (wstore w')
     \<and> (\<exists>e. talk_event h h' e \<and> transmits c e (service_of D w) (wstore w) (wstore w'))"

lemma talksI:
  "same_ids (wstore w) (wstore w') \<Longrightarrow> talk_event h h' e \<Longrightarrow>
   transmits c e (service_of D w) (wstore w) (wstore w') \<Longrightarrow> talks c D h w h' w'"
  by (auto simp: talks_def)

lemma alone_talks:
  assumes "chat_inv h u w" "alone (session_ptr h) w w'"
  shows "talks c D h w h w'"
  by (rule talksI [where e = "Idle (session_ptr h)"], use assms in \<open>simp add: alone_def\<close>,
      simp add: talk_event_def, rule mute_transmits)
     (use assms in \<open>simp_all add: alone_def chat_inv_def world_wf_def\<close>)

lemma reply_talks:
  "chat_inv h u w \<Longrightarrow> reply c h m w = Some (go, h', w') \<Longrightarrow> talks c D h w h' w'"
  using reply_alone [of c h m w go h' w'] alone_talks by simp

lemma move_talks:
  assumes "chat_inv h u w" "session_ptr h1 = session_ptr h"
    and "reply c h1 m (w\<lparr>rman := rm\<rparr>) = Some (go, h', w')"
  shows "talks c D h w h' w'"
proof -
  from reply_alone [OF assms(3)] assms(2) have h: "h' = h1" "same_ids (wstore w) (wstore w')"
    "mute (session_ptr h) (wstore w) (wstore w')" by (simp_all add: alone_def)
  show ?thesis
    by (rule talksI [OF h(2), where e = "Move (session_ptr h) (current_room h')"],
        simp add: talk_event_def, rule mute_transmits)
       (use assms h in \<open>simp_all add: chat_inv_def world_wf_def\<close>)
qed

lemma seat_name_at: "call_get_username p (wstore w) = Some u \<Longrightarrow> p \<in> D \<Longrightarrow> name_at (service_of D w) p = u"
  by (auto simp: name_at_def seat_of_def call_get_username_def get_username_def)

lemma wants_seat:
  "call_is_active q (wstore w) = Some True \<Longrightarrow> wants (wstore w) u q \<longleftrightarrow> seat_name (seat_of w q) \<noteq> u"
  by (auto simp: wants_def seat_of_def call_is_active_def is_active_def)

lemma live_seat: "live (wstore w) q \<Longrightarrow> listed (seat_of w q) \<longleftrightarrow> q \<in> set (clients (bman w))"
  "live (wstore w) q \<Longrightarrow> seat_rooms (seat_of w q) = {r. in_room (rman w) r q}"
  by (auto simp: seat_of_def live_def)

lemma say_hears:
  assumes "seated D w" "p \<in> D" "call_get_username p (wstore w) = Some u"
    and "call_is_active q (wstore w) = Some True"
  shows "hears (Say p r t) (service_of D w) q \<longleftrightarrow> wants (wstore w) u q
    \<and> (if r = [] then q \<in> set (clients (bman w)) else in_room (rman w) r q)"
proof -
  have "live (wstore w) q" using assms(4) by (auto simp: call_is_active_def live_def)
  then show ?thesis
    using assms wants_seat [OF assms(4), of u] live_seat [of w q]
    by (auto simp: seat_name_at seated_def)
qed

lemma say_talks:
  assumes inv: "chat_inv h u w" and D: "seated D w" "session_ptr h \<in> D"
    and t: "t \<noteq> []" "hd t \<noteq> slash" and r: "chat_text c h t w = Some (go, h', w')"
  shows "talks c D h w h' w'"
proof (cases "MAX_MSG_LEN < length t")
  case True
  with r show ?thesis by (auto simp: chat_text_def intro: reply_talks [OF inv])
next
  case False
  let ?p = "session_ptr h" and ?r = "current_room h" and ?st = "wstore w"
  let ?e = "Say ?p ?r t" and ?s = "service_of D w"
  let ?R = "{q. wants ?st u q \<and> (if ?r = [] then q \<in> set (clients (bman w)) else in_room (rman w) ?r q)}"
  have wf: "bm_wf (bman w) ?st" "rm_wf (rman w) ?st" "fds_distinct ?st" "store_wf ?st"
    using inv by (simp_all add: chat_inv_def world_wf_def)
  note name = name_of_chat [OF inv]
  have "h' = h \<and> delivery (encrypt c (serialise (speech ?e ?s))) ?st ?R (wstore w')"
  proof (cases "?r = []")
    case True
    then have e: "{q \<in> set (clients (bman w)). wants ?st u q} = ?R" by auto
    from broadcast_delivery [OF wf(1,3), of c u t] r False True show ?thesis
      by (auto simp: chat_text_def name seat_name_at [OF name D(2)] e)
  next
    case False': False
    then have e: "{q. in_room (rman w) ?r q \<and> wants ?st u q} = ?R" by auto
    from broadcast_to_room_delivery [OF wf(2-4), of c ?r u "''['' @ ?r @ ''] '' @ t"] r False False'
    show ?thesis by (auto simp: chat_text_def name seat_name_at [OF name D(2)] e)
  qed
  then have h: "h' = h" and d: "delivery (encrypt c (serialise (speech ?e ?s))) ?st ?R (wstore w')" by simp_all
  have "transmits c ?e ?s ?st (wstore w')"
    by (rule delivery_transmits [OF wf(3) d])
       (use say_hears [OF D name] wants_live in \<open>auto simp del: hears.simps\<close>)
  moreover have "same_ids ?st (wstore w')" using d by (simp add: delivery_def)
  ultimately show ?thesis
    using h t False by (intro talksI [where e = ?e]) (simp_all add: talk_event_def)
qed

lemma whisper_talks:
  assumes inv: "chat_inv h u w" and D: "session_ptr h \<in> D" and r: "cmd_pm c h args w = Some (go, h', w')"
  shows "talks c D h w h' w'"
proof -
  let ?p = "session_ptr h" and ?st = "wstore w"
  have wf: "bm_wf (bman w) ?st" "fds_distinct ?st" "store_wf ?st"
    using inv by (simp_all add: chat_inv_def world_wf_def)
  note name = name_of_chat [OF inv]
  have sent: "talks c D h w h (w\<lparr>wstore := st\<rparr>)"
    if "send_private c u n t (bman w) ?st = Some st" "n \<noteq> []" "t \<noteq> []" for n t st
  proof -
    from send_private_delivery [OF wf(1), of c u n t] that(1)
    have d: "delivery (encrypt c (serialise (speech (Whisper ?p n t) (service_of D w)))) ?st
        {q. by_name (bman w) n = Some q \<and> q \<noteq> nullptr \<and> call_is_active q ?st = Some True} st"
      by (simp add: seat_name_at [OF name D])
    have "q \<noteq> nullptr" if "call_is_active q ?st = Some True" for q
      using wf(3) that by (cases "q = nullptr") (auto simp: store_wf_def call_is_active_def)
    with d have "transmits c (Whisper ?p n t) (service_of D w) ?st st"
      by (intro delivery_transmits [OF wf(2) d]) auto
    with d that(2,3) show ?thesis
      by (intro talksI [where e = "Whisper ?p n t"]) (auto simp: talk_event_def delivery_def)
  qed
  have "wlp (reply c h m w) (\<lambda>(go, h', w'). talks c D h w h' w')" for m
    using reply_talks [OF inv] by (auto intro!: wlpI)
  moreover have "wlp (send_private c u n t (bman w) ?st) (\<lambda>st. talks c D h w h (w\<lparr>wstore := st\<rparr>))"
    if "n \<noteq> []" "t \<noteq> []" for n t
    using sent that by (auto intro!: wlpI)
  ultimately have "wlp (cmd_pm c h args w) (\<lambda>(go, h', w'). talks c D h w h' w')"
    by (simp add: cmd_pm_def Let_def name case_prod_unfold)
  from wlp_res [OF this r] show ?thesis by simp
qed

lemma join_talks:
  assumes "chat_inv h u w" "cmd_join c place h args w = Some (go, h', w')"
  shows "talks c D h w h' w'"
proof (cases "fst (extract_word args) = []")
  case True
  with assms reply_talks [OF assms(1)] show ?thesis by (auto simp: cmd_join_def case_prod_unfold)
next
  case False
  with assms(2) show ?thesis
    unfolding cmd_join_def Let_def case_prod_unfold if_not_P [OF False]
    by (intro move_talks [OF assms(1)]) (auto split: if_splits)
qed

lemma leave_talks:
  assumes "chat_inv h u w" "cmd_leave c h w = Some (go, h', w')"
  shows "talks c D h w h' w'"
proof (cases "current_room h = []")
  case True
  with assms reply_talks [OF assms(1)] show ?thesis by (auto simp: cmd_leave_def)
next
  case False
  with assms(2) show ?thesis
    unfolding cmd_leave_def by (intro move_talks [OF assms(1)]) (auto split: if_splits)
qed

lemma chat_line_talks:
  assumes inv: "chat_inv h u w" and D: "seated D w" "session_ptr h \<in> D"
    and r: "chat_line c place h line w = Some (go, h', w')"
  shows "talks c D h w h' w'"
proof (cases "is_exit line")
  case True
  with r name_of_chat [OF inv] have "h' = h \<and> alone (session_ptr h) w w'"
    by (auto simp: chat_line_def bind_Some_iff dest: send_alone)
  with alone_talks [OF inv] show ?thesis by simp
next
  case False
  define t where "t = (if msg_type (parse line) = proto_MSG then payload (parse line) else line)"
  have r': "(if t = [] then Some (True, h, w) else if hd t = slash then chat_command c place h t w
      else chat_text c h t w) = Some (go, h', w')"
    using r unfolding chat_line_def t_def Let_def by (simp only: False if_False)
  show ?thesis
  proof (cases "t = []")
    case True
    with r' alone_talks [OF inv alone_refl] show ?thesis by simp
  next
    case t: False
    show ?thesis
    proof (cases "hd t = slash")
      case True
      with r' t show ?thesis
        by (auto simp: chat_command_def split: prod.splits if_splits
            intro: join_talks [OF inv] leave_talks [OF inv] whisper_talks [OF inv D(2)] reply_talks [OF inv])
    next
      case False
      with r' t say_talks [OF inv D t False] show ?thesis by simp
    qed
  qed
qed

text \<open>A whole turn: after receiving, everybody's seat is what it was.\<close>

lemma listens_talks:
  "listens w w1 \<Longrightarrow> talks c D h w1 h' w' \<Longrightarrow> talks c D h w h' w'"
  by (auto simp: talks_def listens_service intro: listens_transmits)
     (simp_all add: listens_def same_ids_def)

lemma chat_turn_talks:
  assumes inv: "chat_inv h u w" and D: "seated D w" "session_ptr h \<in> D"
    and r: "chat_turn c place h w = Some (go, h', w')"
  shows "talks c D h w h' w'"
proof -
  from r obtain l w1 where l: "recv_line c h w = Some (l, w1)"
    by (auto simp: chat_turn_def bind_Some_iff)
  have "wp (recv_line c h w) (\<lambda>(l, w1). chat_inv h u w1)"
    by (rule recv_line_wp [OF inv_live(3) [OF inv] quiet_refl]) (use quiet_chat [OF inv] in auto)
  from wp_res [OF this l] have inv1: "chat_inv h u w1" by simp
  note ls = recv_listens [OF l]
  then have D1: "seated D w1" using D(1) by (simp add: seated_def listens_def)
  have "talks c D h w1 h' w'"
    using r l chat_line_talks [OF inv1 D1 D(2)] alone_talks [OF inv1 alone_refl]
    by (auto simp: chat_turn_def split: if_splits)
  with ls show ?thesis by (rule listens_talks)
qed

text \<open>The seat of who is in the chat.\<close>

lemma chat_seat:
  assumes "chat_inv h u w" "proved (seat_of w (session_ptr h))"
  shows "seat_of w (session_ptr h) = \<lparr>seat_name = u, proved = True,
    seat_rooms = rooms_of (current_room h), listed = session_ptr h \<in> set (clients (bman w))\<rparr>"
proof -
  from assms(1) obtain s where s: "heap (wstore w) (session_ptr h) = Some s" "username s = u"
    by (auto simp: chat_inv_def call_get_username_def get_username_def)
  have "{r. in_room (rman w) r (session_ptr h)} = rooms_of (current_room h)"
    using assms(1) by (auto simp: chat_inv_def rooms_of_def)
  with s assms(2) show ?thesis by (simp add: seat_of_def)
qed

lemma chat_turn_plays:
  assumes place: "place_ok place" and inv: "chat_inv h u w"
    and D: "seated D w" "session_ptr h \<in> D" and known: "proved (seat_of w (session_ptr h))"
    and r: "chat_turn c place h w = Some (go, h', w')"
  shows "\<exists>e. plays c e D w D w' \<and> talk_event h h' e \<and> proved (seat_of w' (session_ptr h))"
proof -
  let ?p = "session_ptr h"
  from chat_turn_talks [OF inv D r] obtain e where ids: "same_ids (wstore w) (wstore w')"
    and e: "talk_event h h' e" and t: "transmits c e (service_of D w) (wstore w) (wstore w')"
    by (auto simp: talks_def)
  from wp_res [OF chat_turn_wp [OF place inv] r] have ok: "session_ptr h' = ?p" "turn ?p w w'"
    "chat_inv h' u w'" "bman w' = bman w" by (simp_all add: chat_ok_def)
  have "proved (seat_of w' ?p)"
    using known same_ids_at [OF ids, of ?p] by (cases "heap (wstore w) ?p"; cases "heap (wstore w') ?p")
      (auto simp: seat_of_def same_id_def)
  with chat_seat [OF ok(3)] ok(1,4) have s': "seat_of w' ?p = \<lparr>seat_name = u, proved = True,
      seat_rooms = rooms_of (current_room h'), listed = ?p \<in> set (clients (bman w))\<rparr>" by simp
  note s = chat_seat [OF inv known]
  have all: "seat_of w' q = (if q = ?p then \<lparr>seat_name = u, proved = True,
      seat_rooms = rooms_of (current_room h'), listed = ?p \<in> set (clients (bman w))\<rparr> else seat_of w q)"
    for q using turn_seat [OF ok(2)] s' by simp
  have "may e (service_of D w)"
    using e D(2) s by (auto simp: talk_event_def)
  moreover have "service_of D w' = happen e (service_of D w)"
    by (rule service_eqI) (use e D(2) s all ok(4) in \<open>auto simp: talk_event_def\<close>)
  ultimately show ?thesis using e t s' by (auto simp: plays_def)
qed

end
