(* ===== verification/Service_Refinement.thy ===== *)
theory Service_Refinement
  imports Service_Events Scripted_Turns
begin

text \<open>
  The server with all its worker threads (\<open>Server_System\<close>) is the service of \<open>Chat_Service\<close>: each of its
  steps is an event that may happen, and sends to each client what that client is to hear of the
  event, and nothing else. It follows who can notice what another client does, and under which name.
\<close>

subsection \<open>Entering and leaving\<close>

lemma same_ids_proved: "same_ids (wstore w) (wstore w') \<Longrightarrow> proved (seat_of w' p) = proved (seat_of w p)"
  using same_ids_at [of "wstore w" "wstore w'" p]
  by (cases "heap (wstore w) p"; cases "heap (wstore w') p") (auto simp: seat_of_def same_id_def)

lemma enter_plays:
  assumes place: "place_ok place" and inv: "named_inv (session_ptr h) u w" "current_room h \<noteq> []"
    and D: "session_ptr h \<in> D" and known: "proved (seat_of w (session_ptr h))"
    and r: "enter_chat c place h w = Some w'"
  shows "plays c (Move (session_ptr h) (current_room h)) D w D w' \<and> proved (seat_of w' (session_ptr h))"
proof -
  let ?p = "session_ptr h" and ?e = "Move (session_ptr h) (current_room h)"
  from wp_res [OF enter_chat_wp [OF place inv] r] have ok: "chat_inv h u w'" "turn ?p w w'" "bman w' = bman w"
    by simp_all
  have "same_ids (wstore w) (wstore w') \<and> mute ?p (wstore w) (wstore w')"
    using r by (auto simp: enter_chat_def bind_Some_iff Let_def alone_def w_log_def dest!: send_alone)
  then have ids: "same_ids (wstore w) (wstore w')" and m: "mute ?p (wstore w) (wstore w')" by simp_all
  note known' = known [folded same_ids_proved [OF ids]]
  have s: "seat_of w ?p = \<lparr>seat_name = u, proved = True, seat_rooms = {}, listed = ?p \<in> set (clients (bman w))\<rparr>"
    using inv(1) known by (auto simp: named_inv_def seat_of_def call_get_username_def get_username_def)
  have all: "seat_of w' q = (if q = ?p then \<lparr>seat_name = u, proved = True,
      seat_rooms = rooms_of (current_room h), listed = ?p \<in> set (clients (bman w))\<rparr> else seat_of w q)" for q
    using turn_seat [OF ok(2)] chat_seat [OF ok(1) known'] ok(3) by simp
  have "transmits c ?e (service_of D w) (wstore w) (wstore w')"
    by (rule mute_transmits [OF _ m]) (use inv in \<open>simp_all add: named_inv_def world_wf_def\<close>)
  moreover have "service_of D w' = happen ?e (service_of D w)"
    by (rule service_eqI) (use D s all ok(3) in simp_all)
  ultimately show ?thesis using known' D s by (simp add: plays_def)
qed

text \<open>The descriptors of two sessions differ, also when a failed send has made one of them inactive.\<close>

definition fds_apart :: "store \<Rightarrow> bool" where
  "fds_apart st \<longleftrightarrow> (\<forall>p q f. 0 \<le> f \<and> fd_of st p = Some f \<and> fd_of st q = Some f \<longrightarrow> p = q)"

lemma close_session_out:
  "\<not> (0 \<le> g \<and> g = fd (client_fd s)) \<Longrightarrow> socks (snd (close_session s k)) g = socks k g"
  by (auto simp: close_session_def Let_def fd_shutdown_rdwr_def fd_reset_def sys_shutdown_def
      sys_close_def split: option.splits)

lemma close_session_fd: "fd (client_fd (fst (close_session s k))) = (if active s then -1 else fd (client_fd s))"
  by (simp add: close_session_def Let_def fd_reset_def)

lemma destroy_out:
  assumes "\<not> (0 \<le> g \<and> g = fd (client_fd s))"
  shows "socks (session_destroy s k) g = socks k g"
proof -
  obtain s' k' where c: "close_session s k = (s', k')" by force
  with close_session_fd [of s k] close_session_out [OF assms, of k] assms show ?thesis
    by (auto simp: session_destroy_def fd_destroy_def fd_reset_def sys_close_def split: if_splits)
qed

lemma cleanup_out:
  assumes s: "heap (wstore w) (session_ptr h) = Some s" and r: "cleanup_and_exit h w = Some (h', w')"
    and g: "\<not> (0 \<le> g \<and> g = fd (client_fd s))"
  shows "session_ptr h \<noteq> nullptr \<Longrightarrow> out_of (wstore w') g = out_of (wstore w) g"
proof -
  assume p: "session_ptr h \<noteq> nullptr"
  obtain s1 k1 where c: "close_session s (kern (wstore w)) = (s1, k1)" by force
  have g1: "\<not> (0 \<le> g \<and> g = fd (client_fd s1))"
    using g close_session_fd [of s "kern (wstore w)"] c by (auto split: if_splits)
  have "kern (wstore w') = session_destroy s1 k1"
    using r s p c by (auto simp: cleanup_and_exit_def Let_def bind_Some_iff call_close_def delete_session_def)
  with destroy_out [OF g1, of k1] close_session_out [OF g, of "kern (wstore w)"] c
  show ?thesis by (simp add: out_of_def)
qed

lemma depart_plays:
  assumes wf: "world_wf w" and apart: "fds_apart (wstore w)" and live: "live (wstore w) (session_ptr h)"
    and D: "session_ptr h \<in> D" and r: "cleanup_and_exit h w = Some (h', w')"
  shows "plays c (Depart (session_ptr h)) D w (D - {session_ptr h}) w'"
proof -
  let ?p = "session_ptr h"
  from wp_res [OF cleanup_wp [OF wf live] r] have g: "gone ?p w w'" by simp
  from live obtain s where s: "heap (wstore w) ?p = Some s" by (auto simp: live_def)
  have p: "?p \<noteq> nullptr" using wf live store_wf_live by (auto simp: world_wf_def)
  have "out_of (wstore w') f = out_of (wstore w) f"
    if "?p \<noteq> q" "fd_of (wstore w) q = Some f" for q f
  proof (rule cleanup_out [OF s r _ p])
    show "\<not> (0 \<le> f \<and> f = fd (client_fd s))"
      using apart that s unfolding fds_apart_def
      by (metis fd_of_def call_get_fd_def option.simps(9) get_fd_def)
  qed
  then have "transmits c (Depart ?p) (service_of D w) (wstore w) (wstore w')"
    by (auto simp: transmits_def)
  moreover have "seat_of w' q = seat_of w q" if "q \<noteq> ?p" for q
    using g that by (intro seat_of_eq) (auto simp: gone_def option.rel_refl)
  moreover have "by_name (bman w') n = (if by_name (bman w) n = Some ?p then None else by_name (bman w) n)" for n
  proof -
    have "by_name (bman w') n \<noteq> Some ?p" using g by (auto simp: gone_def ran_def)
    moreover have "by_name (bman w') n = Some q \<longleftrightarrow> by_name (bman w) n = Some q" if "q \<noteq> ?p" for q
      using g that by (simp add: gone_def)
    ultimately show ?thesis by (metis option.exhaust)
  qed
  ultimately show ?thesis using D
    by (auto simp: plays_def intro!: service_eqI)
qed

text \<open>Disconnecting all clients.\<close>

definition closed_from :: "session \<Rightarrow> session \<Rightarrow> bool" where
  "closed_from s s' \<longleftrightarrow> username s' = username s \<and> username_set s' = username_set s
     \<and> (fd (client_fd s') = fd (client_fd s) \<or> fd (client_fd s') = -1)"

lemma closed_from_refl [simp]: "closed_from s s"
  by (simp add: closed_from_def)

lemma rel_closed_trans:
  "rel_option closed_from x y \<Longrightarrow> rel_option closed_from y z \<Longrightarrow> rel_option closed_from x z"
  by (cases x; cases y; cases z) (auto simp: closed_from_def)

lemma call_close_effect:
  assumes "call_close p st = Some st'"
  shows "rel_option closed_from (heap st q) (heap st' q)"
    and "q \<noteq> p \<Longrightarrow> heap st' q = heap st q" and "call_is_active p st' = Some False"
    and "fd_of st p \<noteq> Some g \<Longrightarrow> out_of st' g = out_of st g"
proof -
  from assms obtain s where s: "heap st p = Some s" by (auto simp: call_close_def bind_Some_iff)
  note e = call_close_Some [OF s, unfolded assms option.inject]
  show "rel_option closed_from (heap st q) (heap st' q)"
    using s close_session_fd [of s "kern st"]
    by (auto simp: e option.rel_refl closed_from_def close_session_def Let_def fd_reset_def)
  show "q \<noteq> p \<Longrightarrow> heap st' q = heap st q" by (simp add: e)
  show "call_is_active p st' = Some False"
    by (simp add: e call_is_active_def is_active_def close_session_inactive)
  show "fd_of st p \<noteq> Some g \<Longrightarrow> out_of st' g = out_of st g"
    using s close_session_out [of g s "kern st"]
    by (auto simp: e out_of_def fd_of_def call_get_fd_def get_fd_def)
qed

lemma close_each_effect:
  "close_each ps st = Some st' \<Longrightarrow> (\<forall>q. rel_option closed_from (heap st q) (heap st' q))
   \<and> (\<forall>g. (\<forall>p \<in> set ps. \<not> (call_is_active p st = Some True \<and> fd_of st p = Some g)) \<longrightarrow>
        out_of st' g = out_of st g)"
proof (induction ps arbitrary: st)
  case Nil
  then show ?case by (simp add: option.rel_refl)
next
  case (Cons p ps)
  show ?case
  proof (cases "close_each ps st = Some st'")
    case True
    with Cons.IH [OF True] show ?thesis by simp
  next
    case False
    with Cons.prems obtain st1 where act: "call_is_active p st = Some True"
      and c: "call_close p st = Some st1" and r: "close_each ps st1 = Some st'"
      by (auto simp: bind_Some_iff split: if_splits)
    note e = call_close_effect [OF c]
    have kept: "call_is_active q st1 = Some True \<Longrightarrow> fd_of st1 q = Some g \<Longrightarrow>
        call_is_active q st = Some True \<and> fd_of st q = Some g" for q g
      using e(2) [of q] e(3) by (cases "q = p") (auto simp: call_is_active_def fd_of_def call_get_fd_def)
    have "out_of st' g = out_of st g"
      if "\<forall>q \<in> set (p # ps). \<not> (call_is_active q st = Some True \<and> fd_of st q = Some g)" for g
    proof -
      have "\<forall>q \<in> set ps. \<not> (call_is_active q st1 = Some True \<and> fd_of st1 q = Some g)"
        using that kept by auto
      with Cons.IH [OF r] have "out_of st' g = out_of st1 g" by blast
      with e(4) [of g] that act show ?thesis by simp
    qed
    with Cons.IH [OF r] e(1) show ?thesis using rel_closed_trans by blast
  qed
qed

lemma disconnect_plays:
  assumes wf: "world_wf (shared s)" and D: "seated D (shared s)" "\<And>p. p \<in> D \<Longrightarrow> live (wstore (shared s)) p"
    and r: "disconnect_all_clients s = Some s'"
  shows "plays c Disconnect D (shared s) D (shared s')
    \<and> (\<forall>q. rel_option closed_from (heap (wstore (shared s)) q) (heap (wstore (shared s')) q))"
proof -
  let ?w = "shared s" and ?w' = "shared s'" and ?S = "service_of D (shared s)"
  from r obtain st' where c: "close_each (clients (bman ?w)) (wstore ?w) = Some st'"
    and w': "wstore ?w' = st'" "clients (bman ?w') = []" "by_name (bman ?w') = Map.empty" "rman ?w' = rman ?w"
    by (auto simp: disconnect_all_clients_def shutdown_all_def bind_Some_iff Let_def)
  note e = close_each_effect [OF c]
  have "seat_of ?w' q = (seat_of ?w q)\<lparr>listed := False\<rparr>" if "live (wstore ?w) q" for q
    using e [THEN conjunct1, rule_format, of q] that w'
    by (cases "heap (wstore ?w) q"; cases "heap st' q") (auto simp: seat_of_def closed_from_def live_def)
  moreover have "out_of st' f = out_of (wstore ?w) f"
    if "q \<in> D" "call_is_active q (wstore ?w) = Some True" "fd_of (wstore ?w) q = Some f"
      "\<not> touches Disconnect ?S q" for q f
  proof -
    from that(1,4) live_seat [OF D(2) [OF that(1)]] have "q \<notin> set (clients (bman ?w))" by simp
    with wf that(2,3) have "\<not> (call_is_active p (wstore ?w) = Some True \<and> fd_of (wstore ?w) p = Some f)"
      if "p \<in> set (clients (bman ?w))" for p
      using that unfolding world_wf_def fds_distinct_def by metis
    with e show ?thesis by blast
  qed
  ultimately show ?thesis
    using e w' D(2) by (auto simp: plays_def transmits_def intro!: service_eqI split: if_splits)
qed

text \<open>A new connection.\<close>

lemma accept_plays:
  assumes inv: "auth_inv (conn_ptr cn) (shared s')" and fresh: "fresh_conn cn (shared s)"
    and D: "conn_ptr cn \<notin> D" and a: "accept_conn cn s = (h, s')"
  shows "plays c (Connect (conn_ptr cn)) D (shared s) (insert (conn_ptr cn) D) (shared s')
    \<and> plays c Refuse D (shared s) D (shared s')"
proof -
  let ?w = "shared s" and ?w' = "shared s'" and ?p = "conn_ptr cn"
  note eff = accept_conn_world [OF a]
  have "seat_of ?w' q = seat_of ?w q" if "q \<in> D" for q
    using that D eff by (intro seat_of_eq) (auto simp: option.rel_refl)
  moreover have "seat_of ?w' ?p = new_seat"
    using eff inv by (auto simp: seat_of_def new_seat_def mk_session_def auth_inv_def)
  moreover have "out_of (wstore ?w') f = out_of (wstore ?w) f" if "fd_of (wstore ?w) q = Some f" for q f
    using fresh eff that by (auto simp: fresh_conn_def out_of_def)
  ultimately show ?thesis
    using D eff fresh by (auto simp: plays_def transmits_def fresh_conn_def intro!: service_eqI split: if_splits)
qed

subsection \<open>The simulation\<close>

definition in_chat :: "phase \<times> handler \<Rightarrow> bool" where
  "in_chat x \<longleftrightarrow> fst x = Entering \<or> fst x = Talking"

definition service_inv :: "system \<Rightarrow> bool" where
  "service_inv y \<longleftrightarrow> sys_inv y \<and> fds_apart (wstore (shared (srv y)))
     \<and> (\<forall>p x. procs y p = Some x \<and> in_chat x \<longrightarrow> proved (seat_of (shared (srv y)) p))"

text \<open>A thread's turn: its own client answers for it, and only in the chat do others hear of it.\<close>

definition turn_event :: "ptr \<Rightarrow> phase \<times> handler \<Rightarrow> event \<Rightarrow> bool" where
  "turn_event p x e \<longleftrightarrow> solo p e
     \<or> (fst x = Talking \<and> session_ptr (snd x) = p \<and> (\<exists>h'. talk_event (snd x) h' e))"

lemma turn_event_actor: "turn_event p x e \<Longrightarrow> actor e = Some p"
  by (auto simp: turn_event_def talk_event_def solo_def)

definition turn_ok :: "cipher \<Rightarrow> ptr set \<Rightarrow> ptr \<Rightarrow> phase \<times> handler \<Rightarrow> world \<Rightarrow>
    (phase \<times> handler) option \<Rightarrow> world \<Rightarrow> bool" where
  "turn_ok c D p x w nx w' \<longleftrightarrow>
     (\<exists>e. plays c e D w (if nx = None then D - {p} else D) w' \<and> turn_event p x e
        \<and> (\<forall>z. nx = Some z \<and> in_chat z \<longrightarrow> proved (seat_of w' p)))"

lemma turn_okI:
  "plays c e D w (if nx = None then D - {p} else D) w' \<Longrightarrow> turn_event p x e \<Longrightarrow>
   (\<And>z. nx = Some z \<Longrightarrow> in_chat z \<Longrightarrow> proved (seat_of w' p)) \<Longrightarrow> turn_ok c D p x w nx w'"
  by (auto simp: turn_ok_def)

lemma menu_turn_plays:
  assumes wf: "world_wf w" and ai: "auth_inv p w" and h: "session_ptr h = p" and D: "p \<in> D"
    and r: "turn_of c place (Menu n, h) w = Some (nx, w')" and t: "turn_result p w (nx, w')"
  shows "turn_ok c D p (Menu n, h) w nx w'"
proof (cases n)
  case 0
  with r obtain b where a: "auth_attempts 0 c h w = Some (b, w')" "nx = Some (Leaving, h)"
    by (auto simp: turn_of_def bind_Some_iff simp del: auth_attempts.simps)
  from idle_plays [OF wf D] last_attempt_alone [OF a(1)] h a(2) show ?thesis
    by (intro turn_okI [where e = "Idle p"]) (auto simp: turn_event_def in_chat_def)
next
  case (Suc m)
  have un: "unnamed (session_ptr h) w"
    using inv_live(1) [OF ai] store_wf_live wf h ai by (auto simp: auth_inv_def unnamed_def world_wf_def)
  from r Suc obtain a where a: "auth_once c h w = Some (a, w')" "nx = Some (after_attempt a m, h)"
    by (auto simp: turn_of_def bind_Some_iff)
  have "turn p w w'" using t a(2) by (simp add: turn_result_def)
  from attempts_play [OF ai D this] auth_once_attempts [OF un a(1)] h
  obtain e where "plays c e D w D w'" "solo p e" "a = Admitted \<longrightarrow> proved (seat_of w' p)" by blast
  with a(2) show ?thesis
    by (intro turn_okI [where e = e]) (cases a; auto simp: turn_event_def in_chat_def)+
qed

lemma turn_plays:
  assumes place: "place_ok place" and wf: "world_wf w" and inv: "phase_inv p x w"
    and apart: "fds_apart (wstore w)" and D: "seated D w" "p \<in> D"
    and known: "in_chat x \<Longrightarrow> proved (seat_of w p)"
    and r: "turn_of c place x w = Some (nx, w')"
  shows "turn_ok c D p x w nx w'"
proof -
  obtain ph h where x: "x = (ph, h)" by force
  with inv have p: "session_ptr h = p" by (simp add: phase_inv_def)
  show ?thesis
  proof (cases ph)
    case (Menu n)
    with inv x have ai: "auth_inv p w" by (simp add: phase_inv_def)
    show ?thesis
      unfolding x Menu
      by (rule menu_turn_plays [OF wf ai p D(2) r [unfolded x Menu]
            wp_res [OF turn_of_wp [OF place wf inv] r]])
  next
    case Entering
    with inv x p obtain u where ni: "named_inv (session_ptr h) u w" "current_room h \<noteq> []"
      by (auto simp: phase_inv_def)
    from r x Entering have e: "enter_chat c place h w = Some w'" "nx = Some (Talking, h)"
      by (auto simp: turn_of_def bind_Some_iff)
    have "proved (seat_of w p)" by (rule known) (simp add: in_chat_def x Entering)
    with enter_plays [OF place ni _ _ e(1)] D(2) p e(2) show ?thesis
      by (intro turn_okI [where e = "Move p (current_room h)"]) (simp_all add: turn_event_def)
  next
    case Talking
    with inv x p obtain u where ci: "chat_inv h u w" by (auto simp: phase_inv_def)
    from r x Talking obtain go h' where e: "chat_turn c place h w = Some (go, h', w')"
      "nx = Some (if go then Talking else Leaving, h')" by (auto simp: turn_of_def bind_Some_iff)
    have "proved (seat_of w p)" by (rule known) (simp add: in_chat_def x Talking)
    with chat_turn_plays [OF place ci D(1) _ _ e(1)] D(2) p obtain ev
      where "plays c ev D w D w'" "talk_event h h' ev" "proved (seat_of w' p)" by blast
    with e(2) x Talking p show ?thesis
      by (intro turn_okI [where e = ev]) (auto simp: turn_event_def)
  next
    case Leaving
    with inv x p have live: "live (wstore w) (session_ptr h)" by (simp add: phase_inv_def)
    from r x Leaving obtain h' where e: "cleanup_and_exit h w = Some (h', w')" "nx = None"
      by (auto simp: turn_of_def bind_Some_iff)
    from depart_plays [OF wf apart live _ e(1)] D(2) p e(2) show ?thesis
      by (intro turn_okI [where e = "Depart p"]) (simp_all add: turn_event_def)
  qed
qed

lemma fds_apart_fewer:
  "fds_apart st \<Longrightarrow> (\<And>q f. 0 \<le> f \<Longrightarrow> fd_of st' q = Some f \<Longrightarrow> fd_of st q = Some f) \<Longrightarrow> fds_apart st'"
  unfolding fds_apart_def by blast

lemma turn_fds:
  assumes "turn_result p w (next, w')" "fd_of (wstore w') q = Some f"
  shows "fd_of (wstore w) q = Some f"
proof (cases "q = p")
  case True
  with assms show ?thesis
    by (auto simp: turn_result_def turn_def gone_def live_def fd_of_def call_get_fd_def split: option.splits)
next
  case False
  then have "rel_option same_id (heap (wstore w) q) (heap (wstore w') q)"
    using assms(1) by (cases "next") (auto simp: turn_result_def turn_def gone_def option.rel_refl)
  with assms(2) show ?thesis
    by (cases "heap (wstore w) q") (auto simp: fd_of_def call_get_fd_def get_fd_def same_id_def)
qed

lemma service_inv_parts:
  assumes "service_inv y"
  shows "sys_inv y" "world_wf (shared (srv y))" "fds_apart (wstore (shared (srv y)))"
    "seated (dom (procs y)) (shared (srv y))"
  using assms unfolding service_inv_def sys_inv_def seated_def by blast+

lemma service_inv_thread:
  assumes "service_inv y" "procs y p = Some x"
  shows "phase_inv p x (shared (srv y))" "in_chat x \<Longrightarrow> proved (seat_of (shared (srv y)) p)"
    "live (wstore (shared (srv y))) p"
proof -
  show i: "phase_inv p x (shared (srv y))" using assms by (simp only: service_inv_def sys_inv_def)
  show "in_chat x \<Longrightarrow> proved (seat_of (shared (srv y)) p)"
    using assms unfolding service_inv_def by blast
  show "live (wstore (shared (srv y))) p" by (rule phase_inv_live [OF i])
qed

lemma thread_turn_plays:
  assumes place: "place_ok place" and inv: "service_inv y" and x: "procs y p = Some x"
    and r: "turn_of c place x (shared (srv y)) = Some (next, w')"
  shows "\<exists>e. plays c e (dom (procs y)) (shared (srv y)) (dom ((procs y)(p := next))) w'
    \<and> turn_event p x e \<and> (\<forall>z. next = Some z \<and> in_chat z \<longrightarrow> proved (seat_of w' p))"
proof -
  have D: "p \<in> dom (procs y)" using x by (rule domI)
  have d: "dom ((procs y)(p := next)) = (if next = None then dom (procs y) - {p} else dom (procs y))"
    using x by (auto split: if_splits)
  show ?thesis
    unfolding d turn_ok_def [symmetric]
    by (rule turn_plays [OF place service_inv_parts(2) [OF inv] service_inv_thread(1) [OF inv x]
      service_inv_parts(3,4) [OF inv] D service_inv_thread(2) [OF inv x] r])
qed

lemma others_seat:
  assumes "turn_result p w (next, w')" and "q \<noteq> p"
  shows "seat_of w' q = seat_of w q"
  using assms by (intro seat_of_eq; cases "next")
    (auto simp: turn_result_def turn_def gone_def option.rel_refl)

lemma plays_seat:
  assumes "plays c e D w D' w'" "q \<in> D'"
  shows "seats (happen e (service_of D w)) q = Some (seat_of w' q)"
proof -
  have "service_of D' w' = happen e (service_of D w)" using assms(1) by (simp add: plays_def)
  from this [symmetric] assms(2) show ?thesis by simp
qed

lemma service_invI:
  "sys_inv y \<Longrightarrow> fds_apart (wstore (shared (srv y))) \<Longrightarrow>
   (\<And>p x. procs y p = Some x \<Longrightarrow> in_chat x \<Longrightarrow> proved (seat_of (shared (srv y)) p)) \<Longrightarrow> service_inv y"
  by (simp only: service_inv_def) blast

text \<open>Each kind of step.\<close>

lemma accept_fds:
  assumes "fds_apart (wstore (shared s))" "fresh_conn cn (shared s)" "accept_conn cn s = (h, s')"
  shows "fds_apart (wstore (shared s'))"
proof -
  have "fd_of (wstore (shared s')) q
      = (if q = conn_ptr cn then Some (conn_fd cn) else fd_of (wstore (shared s)) q)" for q
    using accept_conn_world [OF assms(3)]
    by (simp add: fd_of_def call_get_fd_def mk_session_def get_fd_def mk_fd_def)
  with assms(1,2) show ?thesis by (auto simp: fds_apart_def fresh_conn_def split: if_splits)
qed

lemma service_step_accept:
  assumes inv: "service_inv y" and fresh: "fresh_conn cn (shared (srv y))"
    and a: "accept_conn cn (srv y) = (h, s')"
    and y': "sys_inv y'" "srv y' = s'"
    and pr: "procs y' = (if h = None then procs y
      else (procs y)(conn_ptr cn \<mapsto> (Menu MAX_AUTH_ATTEMPTS, the h)))"
  shows "service_inv y' \<and>
    (\<exists>e. plays c e (dom (procs y)) (shared (srv y)) (dom (procs y')) (shared (srv y')))"
proof -
  let ?D = "dom (procs y)" and ?p = "conn_ptr cn"
  note n = new_session_inv [OF service_inv_parts(1) [OF inv] fresh a]
  have D: "?p \<notin> ?D" using n by (simp add: domIff)
  note p = accept_plays [OF n [THEN conjunct2, THEN conjunct1] fresh D a, of c]
  have seat: "seat_of (shared s') q = seat_of (shared (srv y)) q" if "q \<in> ?D" for q
    using plays_seat [OF p [THEN conjunct2] that] that by simp
  have "service_inv y'"
  proof (rule service_invI [OF y'(1)])
    show "fds_apart (wstore (shared (srv y')))"
      using accept_fds [OF service_inv_parts(3) [OF inv] fresh a] y'(2) by simp
    show "proved (seat_of (shared (srv y')) q)" if q: "procs y' q = Some x" "in_chat x" for q x
    proof -
      from q pr have "procs y q = Some x" by (auto simp: in_chat_def split: if_splits)
      with service_inv_thread(2) [OF inv this q(2)] seat [of q] y'(2) show ?thesis by (simp add: domI)
    qed
  qed
  moreover have "dom (procs y') = (if h = None then ?D else insert ?p ?D)" using pr by auto
  ultimately show ?thesis using p y'(2) by (cases h) auto
qed

lemma service_step_turn:
  assumes place: "place_ok place" and inv: "service_inv y" and x: "procs y p = Some x"
    and r: "turn_of c place x (shared (srv y)) = Some (next, w')"
    and y': "sys_inv y'" "shared (srv y') = w'" "procs y' = (procs y)(p := next)"
  shows "service_inv y' \<and>
    (\<exists>e. plays c e (dom (procs y)) (shared (srv y)) (dom (procs y')) (shared (srv y')))"
proof -
  let ?w = "shared (srv y)"
  from thread_turn_plays [OF place inv x r] obtain e
    where e: "plays c e (dom (procs y)) ?w (dom ((procs y)(p := next))) w'"
      "\<forall>z. next = Some z \<and> in_chat z \<longrightarrow> proved (seat_of w' p)" by blast
  have t: "turn_result p ?w (next, w')"
    by (rule wp_res [OF turn_of_wp [OF place service_inv_parts(2) [OF inv] service_inv_thread(1) [OF inv x]] r])
  have "service_inv y'"
  proof (rule service_invI [OF y'(1)])
    show "fds_apart (wstore (shared (srv y')))"
      unfolding y'(2) by (rule fds_apart_fewer [OF service_inv_parts(3) [OF inv] turn_fds [OF t]])
    show "proved (seat_of (shared (srv y')) q)" if q: "procs y' q = Some z" "in_chat z" for q z
    proof (cases "q = p")
      case True
      with q(1) y'(3) have "next = Some z" by simp
      with e(2) q(2) True y'(2) show ?thesis by blast
    next
      case False
      with q y'(3) have "procs y q = Some z" by simp
      from service_inv_thread(2) [OF inv this q(2)] others_seat [OF t False] y'(2) show ?thesis by simp
    qed
  qed
  with e(1) y'(2,3) show ?thesis by auto
qed

lemma closed_fds:
  assumes "\<And>q. rel_option closed_from (heap st q) (heap st' q)" "0 \<le> f" "fd_of st' q = Some f"
  shows "fd_of st q = Some f"
  using assms(1) [of q] assms(2,3)
  by (cases "heap st q"; cases "heap st' q") (auto simp: fd_of_def call_get_fd_def get_fd_def closed_from_def)

lemma service_step_disconnect:
  assumes inv: "service_inv y" and d: "disconnect_all_clients (srv y) = Some s'"
    and y': "sys_inv y'" "srv y' = s'" "procs y' = procs y"
  shows "service_inv y' \<and>
    (\<exists>e. plays c e (dom (procs y)) (shared (srv y)) (dom (procs y')) (shared (srv y')))"
proof -
  let ?D = "dom (procs y)"
  have live: "live (wstore (shared (srv y))) q" if "q \<in> ?D" for q
    using that service_inv_thread(3) [OF inv] by blast
  note p = disconnect_plays [OF service_inv_parts(2,4) [OF inv] live d, of c]
  have "service_inv y'"
  proof (rule service_invI [OF y'(1)])
    show "fds_apart (wstore (shared (srv y')))"
      unfolding y'(2) by (rule fds_apart_fewer [OF service_inv_parts(3) [OF inv]])
        (rule closed_fds [OF p [THEN conjunct2, THEN spec]])
    show "proved (seat_of (shared (srv y')) q)" if q: "procs y' q = Some z" "in_chat z" for q z
    proof -
      from q(1) y'(3) have z: "procs y q = Some z" by simp
      then have "q \<in> ?D" by (rule domI)
      from plays_seat [OF p [THEN conjunct1] this] this
      have "seat_of (shared s') q = (seat_of (shared (srv y)) q)\<lparr>listed := False\<rparr>" by simp
      with service_inv_thread(2) [OF inv z q(2)] y'(2) show ?thesis by simp
    qed
  qed
  with p y' show ?thesis by auto
qed

lemma service_step:
  assumes place: "place_ok place" and inv: "service_inv y" and step: "sys_step c place y y'"
  shows "service_inv y' \<and>
    (\<exists>e. plays c e (dom (procs y)) (shared (srv y)) (dom (procs y')) (shared (srv y')))"
proof -
  note si = sys_step_inv [OF place service_inv_parts(1) [OF inv] step]
  from step show ?thesis
  proof (cases rule: sys_step.cases)
    case (accepted cn h s')
    have "session_ptr h = conn_ptr cn"
      using accept_conn_world [OF accepted(3)] by (auto simp: mk_handler_def split: if_splits)
    with accepted(1) show ?thesis by (intro service_step_accept [OF inv accepted(2,3) si]) simp_all
  next
    case (not_started cn s')
    then show ?thesis by (intro service_step_accept [OF inv not_started(2,3) si]) simp_all
  next
    case (thread_turn p x "next" w')
    then show ?thesis by (intro service_step_turn [OF place inv thread_turn(2,3) si]) simp_all
  next
    case (disconnected s')
    then show ?thesis by (intro service_step_disconnect [OF inv disconnected(2) si]) simp_all
  qed
qed

subsection \<open>The server is a chat service\<close>

lemma initial_service: "initial y \<Longrightarrow> service_inv y \<and> seen_of y = empty_service"
  by (auto simp: service_inv_def initial_inv fds_apart_def fd_of_def call_get_fd_def
      empty_service_def mk_broadcast_manager_def initial_def intro!: service_eqI)

lemma service_sim:
  assumes "place_ok place" "service_inv y" "sys_step c place y y'"
  shows "service_inv y' \<and> (\<exists>e. may e (seen_of y) \<and> seen_of y' = happen e (seen_of y))"
  using service_step [OF assms] by (auto simp: plays_def)

lemma server_events:
  "place_ok place \<Longrightarrow>
   event_refinement initial (sys_step c place) service_inv seen_of empty_service may happen"
  by unfold_locales (use initial_service service_sim in blast)+

interpretation chat: event_refinement initial "sys_step c append_place" service_inv seen_of
  empty_service may happen for c
  by (rule server_events) simp

lemma reachable_steps: "reachable c place y \<Longrightarrow> \<exists>y0. initial y0 \<and> (sys_step c place)\<^sup>*\<^sup>* y0 y"
  by (induction rule: reachable.induct) (auto intro: rtranclp.rtrancl_into_rtrancl)

lemma reachable_service_inv:
  assumes "place_ok place" "reachable c place y"
  shows "service_inv y"
  using reachable_steps [OF assms(2)] event_refinement.keeps [OF server_events [OF assms(1)]] by blast

text \<open>What the events keep, the server keeps.\<close>

lemma server_lifts:
  assumes "place_ok place" "reachable c place y"
    and "I empty_service" "\<And>e s. I s \<Longrightarrow> may e s \<Longrightarrow> I (happen e s)"
  shows "I (seen_of y)"
  using reachable_steps [OF assms(2)] event_refinement.lifts [OF server_events [OF assms(1)]] assms(3,4)
  by blast

lemma reachable_service_ok: "place_ok place \<Longrightarrow> reachable c place y \<Longrightarrow> service_ok (seen_of y)"
  by (rule server_lifts [OF _ _ service_ok_empty service_ok_happen])

definition history :: "event list \<Rightarrow> service \<Rightarrow> bool" where
  "history es s \<longleftrightarrow> all_may es empty_service \<and> s = fold happen es empty_service"

lemma reachable_history:
  assumes "place_ok place" "reachable c place y"
  shows "\<exists>es. history es (seen_of y)"
proof (rule server_lifts [OF assms, where I = "\<lambda>s. \<exists>es. history es s"])
  show "\<exists>es. history es empty_service" by (auto simp: history_def intro: exI [of _ "[]"])
  show "\<exists>es. history es (happen e s)" if h: "\<exists>es. history es s" and m: "may e s" for e s
  proof -
    from h obtain es where "history es s" by blast
    with m have "history (es @ [e]) (happen e s)" by (auto simp: history_def all_may_append)
    then show ?thesis by blast
  qed
qed

text \<open>C3: From every reachable state, each step of the server (an accept, one thread's turn, a
  disconnection of all) is an event of the chat service that may happen there: the seats and the name
  index afterwards are those the event leaves, every client with a working connection that is to hear
  of the event has been sent its message (a prefix if the send fails), and on all other connections,
  but the turn's own, nothing has been sent.\<close>

theorem server_refines_chat_service:
  assumes "place_ok place" and "reachable c place y" and "sys_step c place y y'"
  shows "\<exists>e. may e (seen_of y) \<and> seen_of y' = happen e (seen_of y)
    \<and> transmits c e (seen_of y) (wstore (shared (srv y))) (wstore (shared (srv y')))"
  using service_step [OF assms(1) reachable_service_inv [OF assms(1,2)] assms(3)] by (auto simp: plays_def)


text \<open>Who hears a turn of another client.\<close>

definition audience :: "phase \<times> handler \<Rightarrow> world \<Rightarrow> ptr \<Rightarrow> bool" where
  "audience x w q \<longleftrightarrow> fst x = Talking \<and>
     (if current_room (snd x) = [] then q \<in> set (clients (bman w)) else in_room (rman w) (current_room (snd x)) q)
   \<or> fst x = Talking \<and> q \<in> ran (by_name (bman w))"

lemma turn_event_hears:
  assumes "turn_event p x e" "hears e (service_of D w) q" "live (wstore w) q"
  shows "audience x w q \<and> (\<exists>t. speech e (service_of D w) = make_bcast (name_at (service_of D w) p) t)"
  using assms live_seat [OF assms(3)]
  by (auto simp: turn_event_def solo_def talk_event_def audience_def ran_def split: if_splits)


subsection \<open>A run\<close>

text \<open>Two clients connect and log in one after the other; then the second says hi, and the first hears it.\<close>

definition two_clients :: system where
  "two_clients = \<lparr>srv = two_server, procs = [4 \<mapsto> (Menu MAX_AUTH_ATTEMPTS, mk_handler 4),
     5 \<mapsto> (Menu MAX_AUTH_ATTEMPTS, mk_handler 5)]\<rparr>"

abbreviation runs_on :: "ptr \<Rightarrow> phase \<times> handler \<Rightarrow> world \<Rightarrow> system \<Rightarrow> system" where
  "runs_on p x w y \<equiv> y\<lparr>srv := set_shared w (srv y), procs := (procs y)(p \<mapsto> x)\<rparr>"

lemma reach_turn:
  "reachable c place y \<Longrightarrow> procs y p = Some x \<Longrightarrow> turn_of c place x (shared (srv y)) = Some (Some x', w') \<Longrightarrow>
   reachable c place (runs_on p x' w' y)"
  by (erule reachable.step) (rule sys_step.thread_turn)

lemma reach_two: "reachable c place two_clients"
proof -
  from accepts_two obtain s1 where s1: "fresh_conn shiva (shared (srv empty_system))"
    "fresh_conn smitha (shared s1)" "accept_conn shiva (srv empty_system) = (Some (mk_handler 4), s1)"
    "accept_conn smitha s1 = (Some (mk_handler 5), two_server)" by blast
  let ?x = "\<lambda>p. (Menu MAX_AUTH_ATTEMPTS, mk_handler p)"
  let ?y = "\<lparr>srv = s1, procs = [4 \<mapsto> ?x 4]\<rparr>"
  have h: "session_ptr (mk_handler p) = p" for p by (simp add: mk_handler_def)
  have "sys_step c place empty_system ?y"
    using sys_step.accepted [OF s1(1,3), of c place] by (simp add: h empty_system_def)
  from reachable.step [OF reach_empty this] have y: "reachable c place ?y" .
  have "sys_step c place ?y two_clients"
    using sys_step.accepted [of smitha ?y "mk_handler 5" two_server c place] s1(2,4)
    by (simp add: h two_clients_def)
  from reachable.step [OF y this] show ?thesis .
qed

text \<open>A client logs in and enters the chat.\<close>

lemma reach_login:
  assumes y: "reachable c place y" and t: "procs y p = Some (Menu MAX_AUTH_ATTEMPTS, h)"
    and p: "session_ptr h = p" "p \<noteq> nullptr"
    and l: "link c h f (''2'' @ nl # u @ nl # pw @ nl # inp) out (shared (srv y))"
    and u: "u \<noteq> []" "nl \<notin> set u" "pw \<noteq> []" "nl \<notin> set pw" and io: "ios (shared (srv y)) = []"
    and known: "authenticate True (registry (shared (srv y))) u (encrypt c pw) (wfs (shared (srv y)))"
    and new: "nameless p (shared (srv y))"
  shows "\<exists>w' out'. reachable c place (runs_on p (Talking, h) w' y) \<and> link c h f inp out' w'
    \<and> elsewhere p f (shared (srv y)) w' \<and> call_get_username p (wstore w') = Some u
    \<and> rman w' = join_room place (current_room h) p (rman (shared (srv y)))"
proof -
  let ?w = "shared (srv y)" and ?x = "(Menu MAX_AUTH_ATTEMPTS, h)"
  from login_turn [OF l u, of place 2] p io known new obtain w1 out1
    where w1: "turn_of c place ?x ?w = Some (Some (Entering, h), w1)" "link c h f inp out1 w1"
      "elsewhere p f ?w w1" "rman w1 = rman ?w" "call_get_username p (wstore w1) = Some u"
    unfolding MAX_AUTH_ATTEMPTS_def by fastforce
  from enter_turn [OF w1(2), of place, unfolded p(1)] obtain w2 out2
    where w2: "turn_of c place (Entering, h) w1 = Some (Some (Talking, h), w2)" "link c h f inp out2 w2"
      "elsewhere p f w1 w2" "rman w2 = join_room place (current_room h) p (rman w1)"
      "heap (wstore w2) = heap (wstore w1)" by blast
  have "reachable c place (runs_on p (Entering, h) w1 y)" by (rule reach_turn [OF y t w1(1)])
  from reach_turn [OF this, of p "(Entering, h)" "(Talking, h)" w2] w2(1)
  have "reachable c place (runs_on p (Talking, h) w2 y)" by simp
  moreover have "elsewhere p f ?w w2" by (rule elsewhere_trans [OF w1(3) w2(3)])
  ultimately show ?thesis using w1(4,5) w2(2,4,5) by (auto simp: call_get_username_def)
qed

lemma same_at:
  assumes "elsewhere p f w w'" "q \<noteq> p"
  shows "nameless q w' = nameless q w" "call_get_username q (wstore w') = call_get_username q (wstore w)"
  using assms by (simp_all add: elsewhere_def nameless_def call_get_username_def)

text \<open>Both are in the room, and the second has yet to send its line.\<close>

lemma both_in_room:
  "\<exists>y out out2. reachable default_cipher append_place y
     \<and> procs y 4 = Some (Talking, mk_handler 4) \<and> procs y 5 = Some (Talking, mk_handler 5)
     \<and> link default_cipher (mk_handler 4) 7 [] out (shared (srv y))
     \<and> link default_cipher (mk_handler 5) 8 (''hi'' @ nl # []) out2 (shared (srv y))
     \<and> call_get_username 4 (wstore (shared (srv y))) = Some ''Shiva''
     \<and> call_get_username 5 (wstore (shared (srv y))) = Some ''Smitha''
     \<and> rooms (rman (shared (srv y))) ''lobby'' = Some [4, 5]"
proof -
  let ?c = default_cipher and ?y = two_clients
  have h: "session_ptr (mk_handler p) = p" "current_room (mk_handler p) = ''lobby''" for p
    by (simp_all add: mk_handler_def)
  have y: "srv ?y = two_server" "procs ?y 4 = Some (Menu MAX_AUTH_ATTEMPTS, mk_handler 4)"
    "procs ?y 5 = Some (Menu MAX_AUTH_ATTEMPTS, mk_handler 5)" by (simp_all add: two_clients_def)
  have l1: "link ?c (mk_handler 4) 7 (''2'' @ nl # ''Shiva'' @ nl # ''hello'' @ nl # []) [] (shared (srv ?y))"
    and l2: "link ?c (mk_handler 5) 8 (''2'' @ nl # ''Smitha'' @ nl # ''hello'' @ nl # ''hi'' @ nl # []) []
      (shared (srv ?y))"
    by (simp_all add: link_def h y two_server_parts mk_session_def get_fd_def mk_fd_def shiva_def smitha_def)
  have n: "nameless 4 (shared (srv ?y))" "nameless 5 (shared (srv ?y))"
    by (simp_all add: nameless_def y two_server_parts mk_session_def)
  have "\<exists>w out. reachable ?c append_place (runs_on 4 (Talking, mk_handler 4) w ?y)
    \<and> link ?c (mk_handler 4) 7 [] out w \<and> elsewhere 4 7 (shared (srv ?y)) w
    \<and> call_get_username 4 (wstore w) = Some ''Shiva''
    \<and> rman w = join_room append_place (current_room (mk_handler 4)) 4 (rman (shared (srv ?y)))"
    by (rule reach_login [OF reach_two y(2) h(1) _ l1])
       (use n in \<open>simp_all add: y two_server_parts two_calls_logins\<close>)
  then obtain w out where w: "reachable ?c append_place (runs_on 4 (Talking, mk_handler 4) w ?y)"
    "link ?c (mk_handler 4) 7 [] out w" "call_get_username 4 (wstore w) = Some ''Shiva''"
    and e: "elsewhere 4 7 (shared (srv ?y)) w" and r: "rman w = \<lparr>rooms = [''lobby'' \<mapsto> [4]]\<rparr>"
    by (auto simp: h y two_server_parts join_room_def mk_room_manager_def set_insert_def append_place_def)
  let ?z = "runs_on 4 (Talking, mk_handler 4) w ?y"
  have l3: "link ?c (mk_handler 5) 8 (''2'' @ nl # ''Smitha'' @ nl # ''hello'' @ nl # ''hi'' @ nl # []) []
      (shared (srv ?z))"
    using elsewhere_link [OF e l2] by (simp add: h)
  have "\<exists>w' out'. reachable ?c append_place (runs_on 5 (Talking, mk_handler 5) w' ?z)
    \<and> link ?c (mk_handler 5) 8 (''hi'' @ nl # []) out' w' \<and> elsewhere 5 8 (shared (srv ?z)) w'
    \<and> call_get_username 5 (wstore w') = Some ''Smitha''
    \<and> rman w' = join_room append_place (current_room (mk_handler 5)) 5 (rman (shared (srv ?z)))"
    by (rule reach_login [OF w(1) _ h(1) _ l3])
       (use e n(2) same_at(1) [OF e, of 5] in \<open>simp_all add: y two_server_parts two_calls_logins elsewhere_def\<close>)
  then obtain w' out' where w': "reachable ?c append_place (runs_on 5 (Talking, mk_handler 5) w' ?z)"
    "link ?c (mk_handler 5) 8 (''hi'' @ nl # []) out' w'" "call_get_username 5 (wstore w') = Some ''Smitha''"
    and e': "elsewhere 5 8 w w'" and r': "rman w' = \<lparr>rooms = [''lobby'' \<mapsto> [4, 5]]\<rparr>"
    by (auto simp: h r join_room_def set_insert_def append_place_def)
  have "link ?c (mk_handler 4) 7 [] out w'" using elsewhere_link [OF e' w(2)] by (simp add: h)
  with w' r' same_at(2) [OF e', of 4] w(3) show ?thesis
    by (intro exI [of _ "runs_on 5 (Talking, mk_handler 5) w' ?z"]) auto
qed

lemma hi_is_heard:
  "\<exists>y w' out. reachable default_cipher append_place y
     \<and> procs y 4 = Some (Talking, mk_handler 4) \<and> procs y 5 = Some (Talking, mk_handler 5)
     \<and> link default_cipher (mk_handler 4) 7 [] out (shared (srv y))
     \<and> call_get_username 5 (wstore (shared (srv y))) = Some ''Smitha''
     \<and> turn_of default_cipher append_place (Talking, mk_handler 5) (shared (srv y))
         = Some (Some (Talking, mk_handler 5), w')
     \<and> out_of (wstore w') 7 = Some (encrypt default_cipher (out
         @ serialise (make_bcast ''Smitha'' ''[lobby] [lobby] hi'')))"
proof -
  from both_in_room obtain y out out2 where y: "reachable default_cipher append_place y"
    "procs y 4 = Some (Talking, mk_handler 4)" "procs y 5 = Some (Talking, mk_handler 5)"
    "link default_cipher (mk_handler 4) 7 [] out (shared (srv y))"
    "link default_cipher (mk_handler 5) 8 (''hi'' @ nl # []) out2 (shared (srv y))"
    "call_get_username 4 (wstore (shared (srv y))) = Some ''Shiva''"
    "call_get_username 5 (wstore (shared (srv y))) = Some ''Smitha''"
    "rooms (rman (shared (srv y))) ''lobby'' = Some [4, 5]" by blast
  have hi: "msg_type (parse ''hi'') \<noteq> proto_MSG" "\<not> is_exit ''hi''" by code_simp+
  have h: "session_ptr (mk_handler p) = p" "current_room (mk_handler p) = ''lobby''" for p
    by (simp_all add: mk_handler_def)
  from say_turn [OF y(5) _ y(4) h(1) _ _ y(6), of "''Smitha''" append_place] y(7,8) hi
  obtain w' where "turn_of default_cipher append_place (Talking, mk_handler 5) (shared (srv y))
      = Some (Some (Talking, mk_handler 5), w')"
    "out_of (wstore w') 7 = Some (encrypt default_cipher (out
      @ serialise (make_bcast ''Smitha'' ''[lobby] [lobby] hi'')))"
    by (auto simp: h MAX_MSG_LEN_def room_tag_def)
  with y show ?thesis by blast
qed

lemma heard_more:
  assumes "link c h f [] out w" "out_of st f = Some (encrypt c (out @ serialise m))"
  shows "out_of st f \<noteq> out_of (wstore w) f"
proof -
  have "out_of (wstore w) f = Some (encrypt c out)" using assms(1) by (auto simp: link_def out_of_def sock_of_def)
  with assms(2) show ?thesis by (simp add: encrypt_append serialise_def encrypt_def)
qed

theorem server_refines_chat_service_witness:
  "\<exists>y y' e. reachable default_cipher append_place y \<and> procs y 5 = Some (Talking, mk_handler 5)
     \<and> may e (seen_of y) \<and> seen_of y' = happen e (seen_of y)
     \<and> transmits default_cipher e (seen_of y) (wstore (shared (srv y))) (wstore (shared (srv y')))
     \<and> out_of (wstore (shared (srv y'))) 7 \<noteq> out_of (wstore (shared (srv y))) 7"
proof -
  from hi_is_heard obtain y w' out where y: "reachable default_cipher append_place y"
    "procs y 5 = Some (Talking, mk_handler 5)" "link default_cipher (mk_handler 4) 7 [] out (shared (srv y))"
    "turn_of default_cipher append_place (Talking, mk_handler 5) (shared (srv y))
      = Some (Some (Talking, mk_handler 5), w')"
    "out_of (wstore w') 7 = Some (encrypt default_cipher (out
      @ serialise (make_bcast ''Smitha'' ''[lobby] [lobby] hi'')))" by blast
  have "out_of (wstore w') 7 \<noteq> out_of (wstore (shared (srv y))) 7" by (rule heard_more [OF y(3,5)])
  moreover obtain e where "may e (seen_of y)" "seen_of (runs_on 5 (Talking, mk_handler 5) w' y) = happen e (seen_of y)"
    "transmits default_cipher e (seen_of y) (wstore (shared (srv y))) (wstore w')"
    using server_refines_chat_service [OF place_ok_append y(1) sys_step.thread_turn [OF y(2,4)]] by auto
  ultimately show ?thesis
    using y(1,2) by (intro exI [of _ y] exI [of _ "runs_on 5 (Talking, mk_handler 5) w' y"] exI [of _ e]) simp
qed



end
