(* ===== verification/Thread_Attr.thy ===== *)
theory Thread_Attr
  imports Server
begin

text \<open>
  The \<open>PThreadAttr\<close> of \<open>include/mpcc/util/thread_handler.h\<close> over its life: what it calls on its
  \<open>pthread_attr_t\<close>, and that the two functions with such an object, \<open>JoinableThread::start\<close> and the
  accept loop, use it as POSIX demands on every path out of its scope. \<open>Thread_Handler\<close> and \<open>Server\<close>
  have the same functions without these calls.
\<close>

subsection \<open>The calls\<close>

text \<open>\<open>Attr_create b\<close> is \<open>pthread_create\<close>, with the attributes (or, not \<open>b\<close>, a null pointer).\<close>

datatype attr_call = Attr_init bool | Attr_joinable | Attr_create bool | Attr_destroy

definition attr_ctor :: "spawn_env \<Rightarrow> attr_call list \<Rightarrow> pthread_attr \<times> attr_call list" where
  "attr_ctor env tr = (mk_attr env, tr @ [Attr_init (attr_ok env)])"

definition attr_dtor :: "pthread_attr \<Rightarrow> attr_call list \<Rightarrow> attr_call list" where
  "attr_dtor a tr = (if ok a then tr @ [Attr_destroy] else tr)"

definition attr_get :: "pthread_attr \<Rightarrow> bool" where
  "attr_get a = (if ok a then True else False)"

definition attr_set_joinable :: "pthread_attr \<Rightarrow> attr_call list \<Rightarrow> attr_call list" where
  "attr_set_joinable a tr = (if ok a then tr @ [Attr_joinable] else tr)"

text \<open>\<open>JoinableThread::start\<close> with the calls on its attributes.\<close>

definition start_calls :: "spawn_env \<Rightarrow> joinable_thread \<Rightarrow> threads \<Rightarrow> attr_call list \<Rightarrow>
    (int \<times> joinable_thread \<times> threads) \<times> attr_call list" where
  "start_calls env t ts tr =
     (if started t then ((0, t, ts), tr)
      else
        let (a, tr) = attr_ctor env tr
        in if \<not> attr_valid a then ((1, t, ts), attr_dtor a tr)
           else
             let tr = attr_set_joinable a tr;
                 (rc, i, ts') = pthread_create env ts;
                 tr = tr @ [Attr_create (attr_get a)];
                 t1 = t\<lparr>tid := i\<rparr>
             in ((rc, if rc = 0 then t1\<lparr>started := True\<rparr> else t1, ts'), attr_dtor a tr))"

text \<open>The part of the accept loop from the attributes on; whether the thread was created.\<close>

definition spawn_calls :: "spawn_env \<Rightarrow> threads \<Rightarrow> attr_call list \<Rightarrow> bool \<times> threads \<times> attr_call list" where
  "spawn_calls env ts tr =
     (let (a, tr) = attr_ctor env tr
      in if \<not> attr_valid a then (False, ts, attr_dtor a tr)
         else
           let tr = attr_set_joinable a tr;
               (rc, i, ts') = pthread_create env ts;
               tr = tr @ [Attr_create (attr_get a)]
           in (rc = 0, ts', attr_dtor a tr))"

subsection \<open>What POSIX demands\<close>

text \<open>The states of a \<open>pthread_attr_t\<close>; \<open>None\<close> is undefined behaviour. An object whose
  initialisation failed must not be used at all.\<close>

datatype attr_state = Raw | Usable bool | Unusable

fun attr_next :: "attr_call \<Rightarrow> attr_state \<Rightarrow> attr_state option" where
  "attr_next (Attr_init b) Raw = Some (if b then Usable False else Unusable)"
| "attr_next Attr_joinable (Usable j) = Some (Usable True)"
| "attr_next (Attr_create given) (Usable j) = (if given then Some (Usable j) else None)"
| "attr_next Attr_destroy (Usable j) = Some Unusable"
| "attr_next _ _ = None"

fun attr_after :: "attr_call list \<Rightarrow> attr_state \<Rightarrow> attr_state option" where
  "attr_after [] s = Some s"
| "attr_after (x # xs) s = Option.bind (attr_next x s) (attr_after xs)"

text \<open>The state in which the thread was created, if it was: were the attributes set to joinable?\<close>

definition created_joinable :: "attr_call list \<Rightarrow> bool" where
  "created_joinable tr \<longleftrightarrow> (\<forall>pre b post. tr = pre @ Attr_create b # post \<longrightarrow> attr_after pre Raw = Some (Usable True))"

lemma created_joinable_simps:
  "created_joinable [Attr_init False]" "created_joinable []"
  "created_joinable [Attr_init True, Attr_joinable, Attr_create True, Attr_destroy]"
  by (auto simp: created_joinable_def Cons_eq_append_conv)

text \<open>\<open>JoinableThread::start\<close> is the function of \<open>Thread_Handler\<close>, and whether it finds the thread
  started, fails to get attributes, fails to create the thread or succeeds: its
  attributes are left destroyed (or untouched), nothing is called on attributes that were not initialised, and the thread
  is created joinable.\<close>

theorem start_uses_attr_well:
  "fst (start_calls env t ts []) = jt_start env t ts
   \<and> attr_after (snd (start_calls env t ts [])) Raw = Some (if started t then Raw else Unusable)
   \<and> created_joinable (snd (start_calls env t ts []))"
  by (cases env; cases "attr_ok env")
     (auto simp: start_calls_def jt_start_def attr_ctor_def attr_dtor_def attr_set_joinable_def attr_get_def
      attr_valid_def mk_attr_def pthread_create_def created_joinable_simps)

text \<open>The same of the accept loop, whose \<open>continue\<close>s also leave the scope.\<close>

theorem accept_uses_attr_well:
  "fst (spawn_calls (conn_env cn) (pool s) []) = (fst (accept_conn cn s) \<noteq> None)
   \<and> fst (snd (spawn_calls (conn_env cn) (pool s) [])) = pool (snd (accept_conn cn s))
   \<and> attr_after (snd (snd (spawn_calls (conn_env cn) (pool s) []))) Raw = Some Unusable
   \<and> created_joinable (snd (snd (spawn_calls (conn_env cn) (pool s) [])))"
  by (cases "attr_ok (conn_env cn)"; cases "create_rc (conn_env cn) = 0")
     (auto simp: spawn_calls_def accept_conn_def Let_def attr_ctor_def attr_dtor_def attr_set_joinable_def
      attr_get_def attr_valid_def mk_attr_def pthread_create_def created_joinable_simps)

end
