(* ===== verification/Spec2Isabelle.thy ===== *)
theory Spec2Isabelle
  imports Signals Test_Cases Lock_Guard Late_Sends Server_Drain Send_Race Service_Refinement Thread_Attr
begin

text \<open>
  MPCC is a multi-party chat: a server with one thread per client, and a terminal client. Frames are lines
  \<open>TYPE:payload\<close>, XOR-encrypted byte by byte. This development models the C++ sources under
  \<open>src/include/mpcc\<close> and \<open>src/src\<close> function by function and proves what they do.

  \<^bold>\<open>The program and its theories.\<close> Each theory opens with what it models.

  \<^item> \<open>Prelude\<close>: the library functions the code calls on strings and numbers (\<open>find\<close>, \<open>getline\<close>,
    \<open>operator>>\<close>, \<open>stoi\<close>, \<open>to_string\<close>), and the predicate \<open>wp\<close> (a computation has a result and
    it satisfies a condition).
  \<^item> \<open>Cipher\<close> (\<open>core/cipher\<close>), \<open>Message\<close> (\<open>core/message\<close>): encryption, frames, parsing.
  \<^item> \<open>Ownership\<close>: the contract of an owner of resources, each of which is freed once. \<open>Unique_Fd\<close>
    (\<open>core/unique_fd.h\<close>) and \<open>Thread_Handler\<close> (\<open>util/thread_handler.h\<close>) keep it, for
    descriptors and for threads; \<open>Thread_Attr\<close> has the life of thread attributes. \<open>Unique_Fd\<close> also has the descriptor table and the socket calls.
  \<^item> \<open>Session\<close> (\<open>core/session\<close>): one connection. \<open>Session_Store\<close> (\<open>core/interfaces.h\<close>): the sessions on
    a heap and method calls through pointers to them.
  \<^item> \<open>Lock_Guard\<close> (\<open>core/lock_guard.h\<close>): mutexes, and why a guarded method is one step.
  \<^item> \<open>File_IO\<close> (\<open>core/file_io\<close>), \<open>Logger\<close> (\<open>util/logger\<close>), \<open>User_Registry\<close>
    (\<open>server/user_registry\<close>): files, the log, the accounts.
  \<^item> \<open>Broadcast_Manager\<close>, \<open>Room_Manager\<close> (\<open>server/\<close>): who is connected and who is in which room, and the
    delivery of messages.
  \<^item> \<open>Client_Handler\<close> (\<open>server/client_handler\<close>): the life of a worker thread. Its shared state
    is the record \<open>world\<close>; every function takes it and returns it. \<open>Handler_Safety\<close> has the
    invariants of a thread in each of its phases and a rule for every function; \<open>Handler_Protocol\<close> what
    it does on the wire.
  \<^item> \<open>Server\<close> (\<open>server/server\<close>): the listening socket, the accept loop, the shutdown.
    \<open>Server_System\<close>: the server and all its workers, interleaved turn by turn; \<open>Server_Drain\<close>: that
    the workers come to their end.
  \<^item> \<open>Chat_Service\<close>: the abstract specification of that server, a service of seats, events, their guards and effects, and
    who hears what. \<open>Service_Events\<close> sees the handler's functions as such events, \<open>Service_Refinement\<close> the
    steps of the whole server. \<open>Scripted_Turns\<close>: turns of clients that follow a script, for concrete runs.
  \<^item> \<open>Handler_Calls\<close>: the handler again, as the tree of the calls it makes, and that this is the
    handler of \<open>Client_Handler\<close>. \<open>Accounts\<close>: the type of the accounts file.
    \<open>Server_Interleaving\<close>: rely and guarantee conditions, and that every call of every function keeps
    them. \<open>Interleaved_Server\<close>: the server interleaved call by call, and what follows for it.
    \<open>Late_Sends\<close>: the undefined behaviour that remains is reached.
  \<^item> \<open>Send_Race\<close>: several threads in \<open>send_msg\<close> of one session.
  \<^item> \<open>Client\<close> (\<open>client/client\<close>): the client; \<open>Client_Protocol\<close>: its dialogue with the handler;
    \<open>Client_Chat\<close>: its two threads in the chat.
  \<^item> \<open>Programs\<close> (\<open>server_main.cpp\<close>, \<open>client_main.cpp\<close>): options and exit statuses. \<open>Signals\<close>
    (\<open>server/server\<close>): \<open>SIGINT\<close> and \<open>SIGPIPE\<close> before, during and after the life of the server object.
  \<^item> \<open>Test_Cases\<close>: the repository's unit tests (\<open>tests/\<close>), checked on the model.

  \<^bold>\<open>How the code is modelled.\<close> A class is a record and a method a function that takes the object
  and returns it. Definitions bear the names of the code; a name that is used twice is prefixed
  (\<open>fd_\<close>, \<open>jt_\<close>, \<open>tg_\<close>, \<open>c_\<close> for the client, \<open>call_\<close> for a call through a pointer). What may be
  undefined behaviour has the result \<open>None\<close>, and the safety theorems exclude it. A thrown exception is a
  value: \<open>Inl\<close>, an option, or a constructor of an outcome.

  \<^bold>\<open>What is outside of the code\<close> is an argument, and the theorems hold for all its values: what
  a peer sends and how much each \<open>send\<close> takes (a script for each socket), what \<open>socket\<close>, \<open>bind\<close>,
  \<open>accept\<close>, \<open>connect\<close> and \<open>pthread_create\<close> return, how the file system behaves, the clock, the order of a
  hash set (the parameter \<open>place\<close>), the lines the user types, the interleaving of threads.

  \<^bold>\<open>Termination.\<close> The send loops end because each call takes a byte or is the last, the client's also
  because interruptions come from the finite script; the receive loops use up the script of the socket; the
  authentication loop of the server has three attempts, that of the client takes a menu from the
  connection in each pass. The chat loop of the handler is a partial function, and the proof that it
  returns is part of the theorem on the whole thread, with the input still to come as its measure. That measure,
  summed over the threads, also bounds the turns of the whole server: a peer sends finitely many bytes before
  its connection closes or its receive timeout strikes. No fuel is
  used, but for the theorem that bounds the passes of the client's authentication.

  \<^bold>\<open>Granularity.\<close> A guarded method is one step, which \<open>Lock_Guard\<close> justifies. The server has two
  step relations. In \<open>Server_System\<close> a thread's turn is what it does for one line of input; the theorems on what
  a handler does, and that all threads end, are about turns. In \<open>Interleaved_Server\<close> a step is one call: a method
  of a shared object, one \<open>recv\<close> of a byte, one send. There the sends that \<open>broadcast\<close>, \<open>send_private\<close> and
  \<open>broadcast_to_recipients\<close> make after leaving their mutex are steps of their own, marked \<open>Foreign\<close>, and the
  safety theorem says that they, and no other calls, can follow a dead pointer; a thread that would do so takes no
  step, so the reachable states are those before the first such call. Without interruption the calls
  of a turn are the turn. One \<open>send_msg\<close> is one step in both; \<open>Send_Race\<close> takes it apart. In the client a turn is
  one line typed, or one test or one receive of the other thread.

  \<^bold>\<open>What is proved.\<close> Safety of the server: a worker always departs, leaves no pointer behind, closes its
  descriptor once; in the interleaved server only the late sends can follow a dead pointer, and
  they do, for two clients of the repository's own accounts file. All workers end, so the
  shutdown does. The accounts file keeps its type, and every client in the chat has a valid name. Authentication: who is let in has
  registered or knows the password; an account cannot be taken over; the registry refines a
  table. Delivery: who gets a broadcast, a room message, a private message, and in which form; the room table
  refines a membership relation. The whole server refines the chat service: each step is a permitted event and transmits
  exactly what the event lets others hear, so nobody overhears a room or a private message, and nobody speaks under a name
  not proved. Transport: frames and lines survive; sending is
  all or a proper prefix; client and server read lines alike and agree on the outcome of a dialogue; a text typed
  in one client is printed by the others. Resources: descriptors closed once, threads joined
  once, for sessions, server and client, on every path. Files: a failed write keeps the old file.
  Start-up: options, bad options, failing system calls. Several theorems show that the code does not do what it
  means to do, such as the dialogue after an invalid name, a session that leaks, a signal that finds a destroyed server, or two frames sent at once that end up in each
  other.

  \<^bold>\<open>Contracts.\<close> The locales state what one part relies on another for: \<open>byte_cipher\<close>,
  \<open>ownership\<close>, \<open>send_loop\<close>, \<open>session_object\<close>, \<open>line_file\<close>, \<open>user_store\<close>,
  \<open>recipient_broadcast\<close>, \<open>room_membership\<close>, \<open>event_refinement\<close>. Each is interpreted on the model's definitions where they are made.

  \<^bold>\<open>Not modelled.\<close> The memory orders of the atomics (a flag is read and written in one step); socket options,
  but for their failure on the listening socket; the receive timeout as a separate result (it is one of the errors of \<open>recv\<close>);
  the clock, and the concrete format of thread numbers; exhaustion of memory; the test framework, which is vendored, and the
  build files.
\<close>

end
